(* ===== verification/Ledger_Prelude.thy ===== *)
theory Ledger_Prelude
  imports Main "HOL-Library.Word" "HOL-Library.Multiset" "HOL-Library.List_Lexorder" "HOL-Library.Product_Lexorder"
begin

unbundle bit_operations_syntax

text \<open>
  Shared vocabulary of the development: the machine integers of the Rust sources, results of
  fallible calls, three-way comparison and the stable \<open>sort_by\<close> of the standard library,
  and the big- and little-endian byte views of fixed-width integers.

  A \<open>usize\<close> that measures something in memory is a natural number; an integer that is part of
  the data (\<open>u8\<close>, \<open>u16\<close>, \<open>u32\<close>, \<open>u64\<close>) is a word of its width.
\<close>

section \<open>Machine integers and byte strings\<close>

type_synonym u8 = "8 word"
type_synonym u16 = "16 word"
type_synonym u32 = "32 word"
type_synonym u64 = "64 word"
type_synonym bytes = "u8 list"

named_theorems result_simps \<open>evaluation of results and their binds\<close>
named_theorems wire_simps \<open>evaluation of byte-level encoders\<close>

section \<open>Results\<close>

text \<open>
  \<open>Result<T, E>\<close> is \<open>'e + 'a\<close> with \<open>Inl\<close> for \<open>Err\<close>; the question mark operator is
  \<open>res_bind\<close>.
\<close>

definition res_bind :: "'e + 'a \<Rightarrow> ('a \<Rightarrow> 'e + 'b) \<Rightarrow> 'e + 'b" where
  "res_bind r f = (case r of Inl e \<Rightarrow> Inl e | Inr a \<Rightarrow> f a)"

definition res_map :: "('a \<Rightarrow> 'b) \<Rightarrow> 'e + 'a \<Rightarrow> 'e + 'b" where
  "res_map f r = (case r of Inl e \<Rightarrow> Inl e | Inr a \<Rightarrow> Inr (f a))"

definition map_err :: "('e \<Rightarrow> 'f) \<Rightarrow> 'e + 'a \<Rightarrow> 'f + 'a" where
  "map_err g r = (case r of Inl e \<Rightarrow> Inl (g e) | Inr a \<Rightarrow> Inr a)"

definition ok_or :: "'e \<Rightarrow> 'a option \<Rightarrow> 'e + 'a" where
  "ok_or e x = (case x of None \<Rightarrow> Inl e | Some a \<Rightarrow> Inr a)"

lemma res_bind_simps [simp, result_simps]:
  "res_bind (Inl e) f = Inl e" "res_bind (Inr a) f = f a"
  by (simp_all add: res_bind_def)

lemma res_map_simps [simp, result_simps]:
  "res_map f (Inl e) = Inl e" "res_map f (Inr a) = Inr (f a)"
  by (simp_all add: res_map_def)

lemma map_err_simps [simp, result_simps]:
  "map_err g (Inl e) = Inl (g e)" "map_err g (Inr a) = Inr a"
  by (simp_all add: map_err_def)

lemma ok_or_simps [simp, result_simps]:
  "ok_or e None = Inl e" "ok_or e (Some a) = Inr a"
  by (simp_all add: ok_or_def)

lemma res_bind_eq_Inr [simp]:
  "res_bind r f = Inr b \<longleftrightarrow> (\<exists>a. r = Inr a \<and> f a = Inr b)"
  by (cases r) auto

lemma res_map_eq_Inr [simp]:
  "res_map f r = Inr b \<longleftrightarrow> (\<exists>a. r = Inr a \<and> b = f a)"
  by (cases r) auto

lemma map_err_eq_Inr [simp]: "map_err g r = Inr b \<longleftrightarrow> r = Inr b"
  by (cases r) auto

lemma ok_or_eq_Inr [simp]: "ok_or e x = Inr a \<longleftrightarrow> x = Some a"
  by (cases x) auto

lemma res_bind_cong [fundef_cong]:
  assumes "r = r'" and "\<And>a. r' = Inr a \<Longrightarrow> f a = g a"
  shows "res_bind r f = res_bind r' g"
  using assms by (cases r') auto

lemma res_bind_assoc: "res_bind (res_bind r f) g = res_bind r (\<lambda>x. res_bind (f x) g)"
  by (cases r) simp_all

lemma res_bind_return: "res_bind r Inr = r"
  by (cases r) simp_all

lemma res_map_bind: "res_map f r = res_bind r (\<lambda>x. Inr (f x))"
  by (cases r) simp_all

section \<open>Three-way comparison and stable sorting\<close>

datatype ordering = Less | Equal | Greater

definition cmp :: "'a::linorder \<Rightarrow> 'a \<Rightarrow> ordering" where
  "cmp a b = (if a < b then Less else if a = b then Equal else Greater)"

lemma cmp_simps [simp]:
  "cmp a b = Less \<longleftrightarrow> a < b" "cmp a b = Equal \<longleftrightarrow> a = b" "cmp a b = Greater \<longleftrightarrow> b < a"
  by (auto simp: cmp_def)

lemma cmp_eval [simp]: "a < b \<Longrightarrow> cmp a b = Less" "cmp a a = Equal" "b < a \<Longrightarrow> cmp a b = Greater"
  by simp_all

primrec then_with :: "ordering \<Rightarrow> ordering \<Rightarrow> ordering" where
  "then_with Less y = Less"
| "then_with Equal y = y"
| "then_with Greater y = Greater"

text \<open>
  \<open>slice::sort_by\<close> is a stable sort: an element is moved in front of those it is not greater
  than, never past an equal one that stood before it.
\<close>

primrec insort_by :: "('a \<Rightarrow> 'a \<Rightarrow> ordering) \<Rightarrow> 'a \<Rightarrow> 'a list \<Rightarrow> 'a list" where
  "insort_by c x [] = [x]"
| "insort_by c x (y # ys) = (if c x y = Greater then y # insort_by c x ys else x # y # ys)"

primrec sort_by :: "('a \<Rightarrow> 'a \<Rightarrow> ordering) \<Rightarrow> 'a list \<Rightarrow> 'a list" where
  "sort_by c [] = []"
| "sort_by c (x # xs) = insort_by c x (sort_by c xs)"

lemma insort_by_key:
  assumes "\<And>a b. c a b = cmp (f a) (f b)"
  shows "insort_by c x xs = insort_key f x xs"
  by (induction xs) (auto simp: assms not_le)

lemma sort_by_key:
  assumes "\<And>a b. c a b = cmp (f a) (f b)"
  shows "sort_by c xs = sort_key f xs"
  by (induction xs) (simp_all add: insort_by_key [OF assms])

lemma set_insort_by [simp]: "set (insort_by c x xs) = insert x (set xs)"
  by (induction xs) auto

lemma set_sort_by [simp]: "set (sort_by c xs) = set xs"
  by (induction xs) auto

lemma length_insort_by [simp]: "length (insort_by c x xs) = Suc (length xs)"
  by (induction xs) auto

lemma length_sort_by [simp]: "length (sort_by c xs) = length xs"
  by (induction xs) auto

section \<open>Endian views of integers\<close>

text \<open>
  \<open>to_be_bytes\<close> and \<open>from_be_bytes\<close> (and the little-endian pair) for an integer of \<open>n\<close>
  bytes, over its unsigned value.
\<close>

primrec le_bytes :: "nat \<Rightarrow> nat \<Rightarrow> bytes" where
  "le_bytes 0 v = []"
| "le_bytes (Suc n) v = of_nat v # le_bytes n (v div 256)"

primrec le_val :: "bytes \<Rightarrow> nat" where
  "le_val [] = 0"
| "le_val (b # bs) = unat b + 256 * le_val bs"

definition be_bytes :: "nat \<Rightarrow> nat \<Rightarrow> bytes" where
  "be_bytes n v = rev (le_bytes n v)"

definition be_val :: "bytes \<Rightarrow> nat" where
  "be_val bs = le_val (rev bs)"

lemma le_bytes_numeral [wire_simps]:
  "le_bytes (numeral k) v = of_nat v # le_bytes (pred_numeral k) (v div 256)"
  by (simp only: numeral_eq_Suc le_bytes.simps)

lemma length_le_bytes [simp]: "length (le_bytes n v) = n"
  by (induction n arbitrary: v) auto

lemma length_be_bytes [simp]: "length (be_bytes n v) = n"
  by (simp add: be_bytes_def)

lemma unat_u8_less [simp]: "unat (b::u8) < 256"
  using unsigned_less [of b, where ?'a = nat] by simp

lemma le_val_bound: "le_val bs < 256 ^ length bs"
proof (induction bs)
  case (Cons b bs)
  have "unat b + 256 * le_val bs < 256 + 256 * le_val bs" by simp
  also have "\<dots> \<le> 256 * 256 ^ length bs" using Cons by simp
  finally show ?case by simp
qed simp

lemma le_val_le_bytes [simp]: "le_val (le_bytes n v) = v mod 256 ^ n"
proof (induction n arbitrary: v)
  case (Suc n)
  have "unat (of_nat v :: u8) = v mod 256" by (simp add: unat_of_nat)
  then have "le_val (le_bytes (Suc n) v) = v mod 256 + 256 * (v div 256 mod 256 ^ n)"
    by (simp add: Suc)
  also have "\<dots> = v mod 256 ^ Suc n" by (simp add: mod_mult2_eq)
  finally show ?case .
qed simp

lemma of_nat_unat_plus_256 [simp]: "(of_nat (unat b + 256 * k) :: u8) = b"
proof -
  have "unat (of_nat (unat b + 256 * k) :: u8) = unat b"
    by (simp add: unat_of_nat del: of_nat_add of_nat_mult)
  then show ?thesis by (simp only: word_unat_eq_iff)
qed

lemma le_bytes_le_val [simp]: "le_bytes (length bs) (le_val bs) = bs"
  by (induction bs) (simp_all del: of_nat_add of_nat_mult)

lemma be_val_bound: "be_val bs < 256 ^ length bs"
  using le_val_bound [of "rev bs"] by (simp add: be_val_def)

lemma be_val_be_bytes [simp]: "be_val (be_bytes n v) = v mod 256 ^ n"
  by (simp add: be_val_def be_bytes_def)

lemma be_bytes_be_val: "length bs = n \<Longrightarrow> be_bytes n (be_val bs) = bs"
  using le_bytes_le_val [of "rev bs"] by (simp add: be_val_def be_bytes_def)

section \<open>Words\<close>

lemma unat_and_mask: "unat (x AND mask k) = unat (x :: 'a::len word) mod 2 ^ k"
  by (simp add: unsigned_take_bit_eq flip: take_bit_eq_mask take_bit_eq_mod)

lemma unat_drop_bit_div: "unat (drop_bit n (x :: 'a::len word)) = unat x div 2 ^ n"
  unfolding unat_drop_bit_eq by (simp add: drop_bit_eq_div)

lemma bit_word_odd: "bit (x :: 'a::len word) n \<longleftrightarrow> odd (unat x div 2 ^ n)"
proof -
  have "bit x n \<longleftrightarrow> bit (unat x) n" by (auto simp: bit_unsigned_iff bit_imp_le_length)
  then show ?thesis by (simp only: bit_iff_odd)
qed

lemma or_disjoint_nat:
  assumes "m < 2 ^ n"
  shows "a * 2 ^ n OR m = a * 2 ^ n + (m::nat)"
proof -
  have "take_bit n m = m" using assms by (simp add: take_bit_nat_eq_self)
  then have "\<not> bit m k" if "n \<le> k" for k using that bit_take_bit_iff [of n m k] by simp
  then have "push_bit n a AND m = 0" by (auto simp: bit_eq_iff bit_simps)
  then have "push_bit n a + m = push_bit n a OR m" by (rule disjunctive_add_eq_or)
  then show ?thesis by (simp add: push_bit_eq_mult)
qed

lemma less_imp_take_bit: "unat a < 2 ^ n \<Longrightarrow> take_bit n (a :: 'a::len word) = a"
  by (simp add: word_unat_eq_iff unsigned_take_bit_eq take_bit_nat_eq_self)

lemma of_nat_be [simp]: "unat v < 256 ^ n \<Longrightarrow> of_nat (be_val (be_bytes n (unat v))) = (v :: 'a::len word)"
  by simp

lemma unat_ucast_u8: "unat (ucast (a :: u8) :: u64) = unat a"
proof -
  have "unat a < 2 ^ 64" by (rule less_le_trans [OF unat_u8_less]) simp
  then show ?thesis by (simp add: unsigned_ucast_eq take_bit_nat_eq_self_iff)
qed

lemma unat_u8_le: "unat (b :: u8) \<le> 255"
  using unat_u8_less [of b] by linarith

lemma ucast_ucast_u8: "(ucast (ucast (a :: u8) :: u64) :: u8) = a"
  by (rule bit_word_eqI) (simp add: bit_simps)

lemma ucast_u8_u64: "v \<le> 0xff \<Longrightarrow> ucast (ucast v :: u8) = (v :: u64)"
  by (simp add: word_unat_eq_iff word_le_nat_alt unsigned_ucast_eq take_bit_eq_mod unat_mod_distrib)

lemma unat_of_nat_u64 [simp]: "n < 2 ^ 64 \<Longrightarrow> unat (of_nat n :: u64) = n"
  by (simp add: unat_of_nat)

lemma unat_u64_less [simp]: "unat (w :: u64) < 18446744073709551616"
  using unsigned_less [of w, where ?'a = nat] by simp

section \<open>Lists\<close>

lemma list_all2_map_swap:
  assumes "list_all2 P xs ys" "\<And>x y. x \<in> set xs \<Longrightarrow> P x y \<Longrightarrow> R y (f x)"
  shows "list_all2 R ys (map f xs)"
  using assms by (auto simp: list_all2_conv_all_nth)

lemma list_all2_fst_set: "list_all2 R xs ys \<Longrightarrow> x \<in> set xs \<Longrightarrow> \<exists>y. R x y"
  by (auto simp: list_all2_conv_all_nth in_set_conv_nth)

lemma list_all2_sort_key:
  assumes "list_all2 R xs ys" "\<And>x y. R x y \<Longrightarrow> f x = g y"
  shows "list_all2 R (sort_key f xs) (sort_key g ys)"
proof -
  have ins: "list_all2 R (insort_key f x xs) (insort_key g y ys)" if "list_all2 R xs ys" "R x y" for x y xs ys
    using that by (induction rule: list_all2_induct) (auto simp: assms(2))
  show ?thesis using assms(1) by (induction rule: list_all2_induct) (simp_all add: ins)
qed

lemma length_concat_ge: "(\<forall>b\<in>set bs. b \<noteq> []) \<Longrightarrow> length bs \<le> length (concat bs)"
proof (induction bs)
  case (Cons b bs)
  then show ?case by (cases b) auto
qed simp

lemma list_all2_map_eq:
  "list_all2 R xs ys \<Longrightarrow> (\<And>x y. R x y \<Longrightarrow> f x = g y) \<Longrightarrow> map f xs = map g ys"
  by (induction rule: list_all2_induct) auto

lemma sum_list_map_sort: "sum_list (map f (sort_key g xs)) = (sum_list (map f xs) :: nat)"
  by (metis mset_map mset_sort sum_mset_sum_list)

end
