(* ===== verification/Cbor_Float.thy ===== *)
theory Cbor_Float
  imports Ledger_Prelude
begin

unbundle bit_operations_syntax

text \<open>
  IEEE 754 values as their bit patterns, the width conversions of the Rust primitives the codec
  uses (\<open>as f32\<close>, \<open>as f64\<close>, \<open>is_nan\<close>, \<open>is_sign_negative\<close>, the float \<open>==\<close>), and
  the half-precision conversions of \<open>cbor/encode.rs\<close>. The main facts are that both widening
  conversions are undone by the narrowing ones, which is what makes the minimal width of a
  float unique.
\<close>

section \<open>The Rust primitives\<close>

type_synonym f64 = u64
type_synonym f32 = u32

text \<open>Fields of a pattern: \<open>w\<close> mantissa bits, \<open>k\<close> exponent bits.\<close>

definition fexp :: "nat \<Rightarrow> nat \<Rightarrow> nat \<Rightarrow> nat" where
  "fexp w k n = n div 2 ^ w mod 2 ^ k"

definition fmant :: "nat \<Rightarrow> nat \<Rightarrow> nat" where
  "fmant w n = n mod 2 ^ w"

definition fsign :: "nat \<Rightarrow> nat \<Rightarrow> nat \<Rightarrow> nat" where
  "fsign w k n = n div 2 ^ (w + k)"

definition is_nan64 :: "f64 \<Rightarrow> bool" where
  "is_nan64 v \<longleftrightarrow> fexp 52 11 (unat v) = 2047 \<and> fmant 52 (unat v) \<noteq> 0"

definition is_nan32 :: "f32 \<Rightarrow> bool" where
  "is_nan32 v \<longleftrightarrow> fexp 23 8 (unat v) = 255 \<and> fmant 23 (unat v) \<noteq> 0"

definition is_sign_negative64 :: "f64 \<Rightarrow> bool" where
  "is_sign_negative64 v \<longleftrightarrow> fsign 52 11 (unat v) = 1"

definition is_sign_negative32 :: "f32 \<Rightarrow> bool" where
  "is_sign_negative32 v \<longleftrightarrow> fsign 23 8 (unat v) = 1"

definition is_zero64 :: "f64 \<Rightarrow> bool" where
  "is_zero64 v \<longleftrightarrow> fexp 52 11 (unat v) = 0 \<and> fmant 52 (unat v) = 0"

definition is_zero32 :: "f32 \<Rightarrow> bool" where
  "is_zero32 v \<longleftrightarrow> fexp 23 8 (unat v) = 0 \<and> fmant 23 (unat v) = 0"

text \<open>The float \<open>==\<close>: false on \<open>NaN\<close>, both zeros equal, otherwise equality of the patterns.\<close>

definition f64_eq :: "f64 \<Rightarrow> f64 \<Rightarrow> bool" where
  "f64_eq a b \<longleftrightarrow> \<not> is_nan64 a \<and> \<not> is_nan64 b \<and> (a = b \<or> is_zero64 a \<and> is_zero64 b)"

text \<open>The pattern with the given fields; a mantissa of \<open>2\<^sup>w\<close> carries into the exponent.\<close>

definition f64_pack :: "nat \<Rightarrow> nat \<Rightarrow> nat \<Rightarrow> f64" where
  "f64_pack s e m = of_nat (s * 2 ^ 63 + e * 2 ^ 52 + m)"

definition f32_pack :: "nat \<Rightarrow> nat \<Rightarrow> nat \<Rightarrow> f32" where
  "f32_pack s e m = of_nat (s * 2 ^ 31 + e * 2 ^ 23 + m)"

text \<open>Position of the leading bit of a positive number.\<close>

fun msb_pos :: "nat \<Rightarrow> nat" where
  "msb_pos n = (if n < 2 then 0 else Suc (msb_pos (n div 2)))"

declare msb_pos.simps [simp del]

text \<open>
  The pattern of \<open>(-1)\<^sup>s * m * 2\<^sup>e\<close>, for an \<open>m\<close> below \<open>2\<^sup>5\<^sup>3\<close> and a result in the
  normal range, where it is exact.
\<close>

definition f64_dyadic :: "nat \<Rightarrow> nat \<Rightarrow> int \<Rightarrow> f64" where
  "f64_dyadic s m e =
     (if m = 0 then f64_pack s 0 0
      else let k = msb_pos m
           in f64_pack s (nat (int k + e + 1023)) ((m - 2 ^ k) * 2 ^ (52 - k)))"

text \<open>\<open>v as f64\<close> for an \<open>f32\<close>: exact; a \<open>NaN\<close> comes back quiet.\<close>

definition f32_to_f64 :: "f32 \<Rightarrow> f64" where
  "f32_to_f64 v =
     (let n = unat v; s = fsign 23 8 n; e = fexp 23 8 n; m = fmant 23 n
      in if e = 255 then f64_pack s 2047
             (if m = 0 then 0 else if m < 2 ^ 22 then m * 2 ^ 29 + 2 ^ 51 else m * 2 ^ 29)
         else if e = 0 then f64_dyadic s m (-149)
         else f64_pack s (e + 896) (m * 2 ^ 29))"

text \<open>Round to nearest, ties to even, when \<open>sh\<close> low bits are dropped.\<close>

definition round_shift :: "nat \<Rightarrow> nat \<Rightarrow> nat" where
  "round_shift m sh =
     (let q = m div 2 ^ sh; r = m mod 2 ^ sh
      in if 2 * r > 2 ^ sh \<or> 2 * r = 2 ^ sh \<and> odd q then q + 1 else q)"

text \<open>
  \<open>v as f32\<close> for an \<open>f64\<close>: round to nearest even, overflow to infinity, gradual underflow. A
  carry out of the mantissa moves into the exponent field by plain addition.
\<close>

definition f64_to_f32 :: "f64 \<Rightarrow> f32" where
  "f64_to_f32 v =
     (let n = unat v; s = fsign 52 11 n; e = fexp 52 11 n; m = fmant 52 n
      in if e = 2047 then f32_pack s 255
             (if m = 0 then 0 else if m div 2 ^ 29 < 2 ^ 22 then m div 2 ^ 29 + 2 ^ 22 else m div 2 ^ 29)
         else if e \<ge> 896 + 255 then f32_pack s 255 0
         else if e > 896 then f32_pack s (e - 896) (round_shift m 29)
         else if e = 0 then f32_pack s 0 0
         else f32_pack s 0 (round_shift (2 ^ 52 + m) (29 + (897 - e))))"

section \<open>Half precision\<close>

text \<open>
  \<open>f16_bits_to_f64\<close>. The source computes \<open>mant / 16777216.0\<close> for an exponent of zero and
  \<open>(1.0 + mant / 1024.0) * 2\<^sup>e\<^sup>-\<^sup>1\<^sup>5\<close> otherwise; every intermediate result is exact, so the
  value is \<open>mant * 2\<^sup>-\<^sup>2\<^sup>4\<close>, or \<open>(1024 + mant) * 2\<^sup>e\<^sup>-\<^sup>2\<^sup>5\<close>. \<open>f64::NAN\<close> is the quiet pattern.
\<close>

definition f16_bits_to_f64 :: "u16 \<Rightarrow> f64" where
  "f16_bits_to_f64 bits =
     (let s = (if bits AND 0x8000 \<noteq> 0 then 1 else 0);
          e = unat (drop_bit 10 bits AND 0x1f);
          mant = unat (bits AND 0x03ff)
      in if e = 0 then f64_dyadic s mant (-24)
         else if e = 31 then f64_pack s 2047 (if mant = 0 then 0 else 2 ^ 51)
         else f64_dyadic s (1024 + mant) (int e - 25))"

definition f32_bits_to_f16 :: "u32 \<Rightarrow> u16" where
  "f32_bits_to_f16 bits =
     (let sign = (ucast (drop_bit 16 bits AND 0x8000) :: u16);
          exp = int (unat (drop_bit 23 bits AND 0xff));
          mant = bits AND 0x7fffff
      in if exp = 0xff then sign OR 0x7c00 OR (if mant \<noteq> 0 then 1 else 0)
         else let exp16 = exp - 127 + 15
         in if exp16 \<ge> 0x1f then sign OR 0x7c00
         else if exp16 > 0 then
           let m16 = (ucast (drop_bit 13 mant) :: u16);
               round_bit = drop_bit 12 mant AND 1;
               sticky = mant AND 0x0fff
           in if round_bit = 1 \<and> (sticky \<noteq> 0 \<or> m16 AND 1 = 1)
              then if m16 + 1 = 0x400 then sign OR push_bit 10 (of_int (exp16 + 1))
                   else sign OR push_bit 10 (of_int exp16) OR (m16 + 1)
              else sign OR push_bit 10 (of_int exp16) OR m16
         else
           let shift = nat (14 - exp16)
           in if shift \<ge> 25 then sign
              else let full = mant OR 0x800000;
                       m16 = drop_bit shift full;
                       round_bit = drop_bit (shift - 1) full AND 1;
                       sticky = full AND (push_bit (shift - 1) 1 - 1)
                   in if round_bit = 1 \<and> (sticky \<noteq> 0 \<or> m16 AND 1 = 1)
                      then sign OR ucast (m16 + 1) else sign OR ucast m16)"

text \<open>\<open>value_round_trips_as_f16\<close>: the half pattern when the value is exactly representable.\<close>

definition value_round_trips_as_f16 :: "f64 \<Rightarrow> u16 option" where
  "value_round_trips_as_f16 value =
     (let single = f64_to_f32 value
      in if \<not> f64_eq (f32_to_f64 single) value then None
         else let half_bits = f32_bits_to_f16 single
              in if f64_eq (f16_bits_to_f64 half_bits) value then Some half_bits else None)"

definition encode_minimal_float :: "f64 \<Rightarrow> bytes" where
  "encode_minimal_float value =
     (case value_round_trips_as_f16 value of
        Some half_bits \<Rightarrow> 0xf9 # be_bytes 2 (unat half_bits)
      | None \<Rightarrow>
          if f64_eq (f32_to_f64 (f64_to_f32 value)) value
          then 0xfa # be_bytes 4 (unat (f64_to_f32 value))
          else 0xfb # be_bytes 8 (unat value))"

section \<open>Fields of packed patterns\<close>

lemma fields_of_sum:
  assumes "m < 2 ^ w" "e < 2 ^ k"
  shows "fexp w k (s * 2 ^ (w + k) + e * 2 ^ w + m) = e"
    and "fmant w (s * 2 ^ (w + k) + e * 2 ^ w + m) = m"
    and "fsign w k (s * 2 ^ (w + k) + e * 2 ^ w + m) = s"
proof -
  have *: "s * 2 ^ (w + k) + e * 2 ^ w + m = (s * 2 ^ k + e) * 2 ^ w + m"
    by (simp add: power_add algebra_simps)
  have d: "(s * 2 ^ (w + k) + e * 2 ^ w + m) div 2 ^ w = s * 2 ^ k + e"
    unfolding * using assms by simp
  show "fexp w k (s * 2 ^ (w + k) + e * 2 ^ w + m) = e"
    unfolding fexp_def d using assms by simp
  show "fmant w (s * 2 ^ (w + k) + e * 2 ^ w + m) = m"
    unfolding fmant_def * using assms by simp
  show "fsign w k (s * 2 ^ (w + k) + e * 2 ^ w + m) = s"
    unfolding fsign_def power_add div_mult2_eq using d assms by (simp add: power_add)
qed

lemma sum_of_fields:
  "n = fsign w k n * 2 ^ (w + k) + fexp w k n * 2 ^ w + fmant w n"
proof -
  have "n = n div 2 ^ w * 2 ^ w + fmant w n"
    unfolding fmant_def by (rule div_mult_mod_eq [symmetric])
  moreover have "n div 2 ^ w = fsign w k n * 2 ^ k + fexp w k n"
    unfolding fsign_def fexp_def power_add div_mult2_eq by (rule div_mult_mod_eq [symmetric])
  ultimately show ?thesis by (simp add: power_add algebra_simps)
qed

lemma fmant_less: "fmant w n < 2 ^ w" by (simp add: fmant_def)
lemma fexp_less: "fexp w k n < 2 ^ k" by (simp add: fexp_def)

lemma fsign_less:
  assumes "n < 2 ^ (w + k + 1)"
  shows "fsign w k n < 2"
  unfolding fsign_def using assms by (simp add: less_mult_imp_div_less)

lemma f64_fields:
  assumes "s < 2" "e < 2048" "m < 2 ^ 52"
  defines "v \<equiv> f64_pack s e m"
  shows "fsign 52 11 (unat v) = s" "fexp 52 11 (unat v) = e" "fmant 52 (unat v) = m"
proof -
  have "s * 2 ^ 63 + e * 2 ^ 52 + m < 2 ^ 64" using assms(1-3) by simp
  then have u: "unat v = s * 2 ^ 63 + e * 2 ^ 52 + m"
    unfolding v_def f64_pack_def f32_pack_def by (simp add: unat_of_nat del: of_nat_add of_nat_mult)
  show "fsign 52 11 (unat v) = s" "fexp 52 11 (unat v) = e" "fmant 52 (unat v) = m"
    using fields_of_sum [of m 52 e 11 s] assms(2,3) unfolding u by simp_all
qed

lemma f32_fields:
  assumes "s < 2" "e < 256" "m < 2 ^ 23"
  defines "v \<equiv> f32_pack s e m"
  shows "fsign 23 8 (unat v) = s" "fexp 23 8 (unat v) = e" "fmant 23 (unat v) = m"
proof -
  have "s * 2 ^ 31 + e * 2 ^ 23 + m < 2 ^ 32" using assms(1-3) by simp
  then have u: "unat v = s * 2 ^ 31 + e * 2 ^ 23 + m"
    unfolding v_def f64_pack_def f32_pack_def by (simp add: unat_of_nat del: of_nat_add of_nat_mult)
  show "fsign 23 8 (unat v) = s" "fexp 23 8 (unat v) = e" "fmant 23 (unat v) = m"
    using fields_of_sum [of m 23 e 8 s] assms(2,3) unfolding u by simp_all
qed

lemma f64_cases:
  obtains s e m where "s < 2" "e < 2048" "m < 2 ^ 52"
    "v = f64_pack s e m"
proof
  have u: "unat v < 2 ^ (52 + 11 + 1)" using unsigned_less [of v, where ?'a = nat] by simp
  show "fsign 52 11 (unat v) < 2" using fsign_less [OF u] .
  show "fexp 52 11 (unat v) < 2048" using fexp_less [of 52 11] by simp
  show "fmant 52 (unat v) < 2 ^ 52" by (rule fmant_less)
  have "of_nat (unat v) = (of_nat (fsign 52 11 (unat v) * 2 ^ 63 + fexp 52 11 (unat v) * 2 ^ 52
      + fmant 52 (unat v)) :: f64)"
    using sum_of_fields [of "unat v" 52 11] by (simp del: of_nat_add of_nat_mult of_nat_unat)
  then show "v = f64_pack (fsign 52 11 (unat v)) (fexp 52 11 (unat v)) (fmant 52 (unat v))"
    unfolding f64_pack_def by simp
qed

lemma f32_cases:
  obtains s e m where "s < 2" "e < 256" "m < 2 ^ 23"
    "v = f32_pack s e m"
proof
  have u: "unat v < 2 ^ (23 + 8 + 1)" using unsigned_less [of v, where ?'a = nat] by simp
  show "fsign 23 8 (unat v) < 2" using fsign_less [OF u] .
  show "fexp 23 8 (unat v) < 256" using fexp_less [of 23 8] by simp
  show "fmant 23 (unat v) < 2 ^ 23" by (rule fmant_less)
  have "of_nat (unat v) = (of_nat (fsign 23 8 (unat v) * 2 ^ 31 + fexp 23 8 (unat v) * 2 ^ 23
      + fmant 23 (unat v)) :: f32)"
    using sum_of_fields [of "unat v" 23 8] by (simp del: of_nat_add of_nat_mult of_nat_unat)
  then show "v = f32_pack (fsign 23 8 (unat v)) (fexp 23 8 (unat v)) (fmant 23 (unat v))"
    unfolding f32_pack_def by simp
qed

lemma msb_pos_small: "n < 2 \<Longrightarrow> msb_pos n = 0"
  by (simp only: msb_pos.simps [of n] if_True)

lemma msb_pos_large: "\<not> n < 2 \<Longrightarrow> msb_pos n = Suc (msb_pos (n div 2))"
  by (simp only: msb_pos.simps [of n] if_False)

lemma msb_pos_bounds:
  "0 < n \<Longrightarrow> 2 ^ msb_pos n \<le> n \<and> n < 2 ^ Suc (msb_pos n)"
proof (induction n rule: less_induct)
  case (less n)
  show ?case
  proof (cases "n < 2")
    case True
    then show ?thesis using less.prems by (simp add: msb_pos_small)
  next
    case False
    have *: "2 ^ Suc j \<le> n \<and> n < 2 ^ Suc (Suc j)"
      if "2 ^ j \<le> n div 2 \<and> n div 2 < 2 ^ Suc j" for j
      using that by auto
    show ?thesis unfolding msb_pos_large [OF False]
      by (intro * less.IH) (use False in simp_all)
  qed
qed

lemma msb_pos_less: "0 < n \<Longrightarrow> n < 2 ^ k \<Longrightarrow> msb_pos n < k"
  using msb_pos_bounds [of n] power_less_imp_less_exp [of "2::nat" "msb_pos n" k] by linarith

lemma msb_pos_unique:
  assumes "2 ^ k \<le> n" "n < 2 ^ Suc k"
  shows "msb_pos n = k"
proof -
  have "0 < n" using assms(1) by (rule less_le_trans [rotated]) simp
  then have "2 ^ k < (2::nat) ^ Suc (msb_pos n)" "msb_pos n < Suc k"
    using msb_pos_bounds [of n] assms(1) msb_pos_less [OF _ assms(2)] by simp_all
  then show ?thesis using power_less_imp_less_exp [of "2::nat" k "Suc (msb_pos n)"] by simp
qed

lemma round_shift_exact [simp]: "round_shift (m * 2 ^ sh) sh = m"
  by (simp add: round_shift_def)

lemma dyadic_mantissa:
  assumes "0 < m" "m < 2 ^ (w + 1)" "w \<le> d"
  defines "k \<equiv> msb_pos m"
  shows "(m - 2 ^ k) * 2 ^ (d - k) < 2 ^ d" "2 ^ d + (m - 2 ^ k) * 2 ^ (d - k) = m * 2 ^ (d - k)"
proof -
  have b: "2 ^ k \<le> m" "m < 2 ^ Suc k" using msb_pos_bounds [OF assms(1)] by (simp_all add: k_def)
  have "k \<le> d" using msb_pos_less [OF assms(1,2)] assms(3) by (simp add: k_def)
  then have d: "(2::nat) ^ d = 2 ^ k * 2 ^ (d - k)" by (simp flip: power_add)
  have "m - 2 ^ k < 2 ^ k" using b by simp
  then show "(m - 2 ^ k) * 2 ^ (d - k) < 2 ^ d" unfolding d by simp
  show "2 ^ d + (m - 2 ^ k) * 2 ^ (d - k) = m * 2 ^ (d - k)"
    unfolding d using b(1) by (simp add: diff_mult_distrib mult_le_mono1)
qed

lemma f32_to_f64_pack:
  assumes "s < 2" "e < 256" "m < 2 ^ 23"
  shows "e = 255 \<Longrightarrow> m = 0 \<Longrightarrow> f32_to_f64 (f32_pack s e m) = f64_pack s 2047 0"
    and "e = 0 \<Longrightarrow> f32_to_f64 (f32_pack s e m) = f64_dyadic s m (-149)"
    and "0 < e \<Longrightarrow> e < 255 \<Longrightarrow> f32_to_f64 (f32_pack s e m) = f64_pack s (e + 896) (m * 2 ^ 29)"
  using assms by (simp_all add: f32_to_f64_def f32_fields)

lemma f64_to_f32_pack:
  assumes "s < 2" "e < 2048" "m < 2 ^ 52"
  shows "e = 2047 \<Longrightarrow> m = 0 \<Longrightarrow> f64_to_f32 (f64_pack s e m) = f32_pack s 255 0"
    and "896 < e \<Longrightarrow> e < 1151 \<Longrightarrow> f64_to_f32 (f64_pack s e m) = f32_pack s (e - 896) (round_shift m 29)"
    and "e = 0 \<Longrightarrow> f64_to_f32 (f64_pack s e m) = f32_pack s 0 0"
    and "0 < e \<Longrightarrow> e \<le> 896 \<Longrightarrow>
      f64_to_f32 (f64_pack s e m) = f32_pack s 0 (round_shift (2 ^ 52 + m) (29 + (897 - e)))"
  using assms by (simp_all add: f64_to_f32_def f64_fields)

lemma f64_dyadic_pos:
  "0 < m \<Longrightarrow> k = msb_pos m \<Longrightarrow> int k + e + 1023 = int E \<Longrightarrow>
   f64_dyadic s m e = f64_pack s E ((m - 2 ^ k) * 2 ^ (52 - k))"
  by (simp add: f64_dyadic_def Let_def)

lemma round_shift_multiple: "b = a * 2 ^ sh \<Longrightarrow> round_shift b sh = a"
  by simp

section \<open>Exact conversions\<close>

text \<open>Narrowing undoes widening.\<close>

lemma f64_to_f32_to_f64:
  assumes "\<not> is_nan32 x"
  shows "f64_to_f32 (f32_to_f64 x) = x"
proof -
  obtain s e m where x: "s < 2" "e < 256" "m < 2 ^ 23" "x = f32_pack s e m" by (rule f32_cases)
  note f = f32_fields [OF x(1-3), folded x(4)]
  note w = f32_to_f64_pack [OF x(1-3), folded x(4)]
  consider "e = 255" | "e = 0" "m = 0" | "e = 0" "0 < m" | "0 < e" "e < 255" using x(2) by linarith
  then show ?thesis
  proof cases
    case 1
    then have "m = 0" using assms f by (simp add: is_nan32_def)
    then show ?thesis using w(1) 1 f64_to_f32_pack(1) [OF x(1), of 2047 0] x(4) by simp
  next
    case 2
    then show ?thesis using w(2) f64_to_f32_pack(3) [OF x(1), of 0 0] x(4) by (simp add: f64_dyadic_def)
  next
    case 3
    define k where "k = msb_pos m"
    have k: "k < 23" using msb_pos_less 3(2) x(3) by (simp add: k_def)
    then have sh: "29 + (897 - (k + 874)) = 52 - k" by simp
    note d = dyadic_mantissa [OF 3(2), of 22 52, folded k_def]
    have "f32_to_f64 x = f64_pack s (k + 874) ((m - 2 ^ k) * 2 ^ (52 - k))"
      using w(2) 3(1) f64_dyadic_pos [OF 3(2) k_def] by simp
    moreover have "f64_to_f32 \<dots> = f32_pack s 0 (round_shift (2 ^ 52 + (m - 2 ^ k) * 2 ^ (52 - k)) (52 - k))"
      using f64_to_f32_pack(4) [OF x(1), of "k + 874"] k d(1) x(3) unfolding sh by simp
    moreover have "round_shift (2 ^ 52 + (m - 2 ^ k) * 2 ^ (52 - k)) (52 - k) = m"
      using d(2) x(3) by simp
    ultimately show ?thesis using x(4) 3(1) by simp
  next
    case 4
    then show ?thesis
      using w(3) f64_to_f32_pack(2) [OF x(1), of "e + 896" "m * 2 ^ 29"] x round_shift_exact [of m 29]
      by simp
  qed
qed

lemma f16_fields:
  assumes "s < 2" "e < 32" "m < 2 ^ 10"
  defines "h \<equiv> (of_nat (s * 2 ^ 15 + e * 2 ^ 10 + m) :: u16)"
  shows "h AND 0x8000 \<noteq> 0 \<longleftrightarrow> s = 1" "unat (drop_bit 10 h AND 0x1f) = e" "unat (h AND 0x03ff) = m"
proof -
  have "s * 2 ^ 15 + e * 2 ^ 10 + m < 2 ^ 16" using assms(1-3) by simp
  then have u: "unat h = s * 2 ^ 15 + e * 2 ^ 10 + m"
    unfolding h_def by (simp add: unat_of_nat del: of_nat_add of_nat_mult)
  have f: "fsign 10 5 (unat h) = s" "fexp 10 5 (unat h) = e" "fmant 10 (unat h) = m"
    using fields_of_sum [of m 10 e 5 s] assms(2,3) unfolding u by simp_all
  have "(0x1f :: u16) = mask 5" "(0x03ff :: u16) = mask 10" by (simp_all add: mask_eq_exp_minus_1)
  then show "unat (drop_bit 10 h AND 0x1f) = e" "unat (h AND 0x03ff) = m"
    using f(2,3) by (simp_all only: unat_drop_bit_div unat_and_mask fexp_def fmant_def)
  have "h AND 0x8000 \<noteq> 0 \<longleftrightarrow> bit h 15"
    by (auto simp: and_exp_eq_0_iff_not_bit [of h 15, simplified])
  also have "\<dots> \<longleftrightarrow> odd (unat h div 2 ^ 15)"
    by (rule bit_word_odd)
  finally show "h AND 0x8000 \<noteq> 0 \<longleftrightarrow> s = 1"
    using f(1) assms(1) by (cases "s = 1") (auto simp: fsign_def less_2_cases_iff)
qed

lemma f16_combine:
  assumes "s < 2" "e < 32" "m < 2 ^ 10"
  shows "(of_nat (s * 2 ^ 15) :: u16) OR push_bit 10 (of_nat e) OR of_nat m
    = of_nat (s * 2 ^ 15 + e * 2 ^ 10 + m)"
proof -
  have "s * 2 ^ 15 OR (e * 2 ^ 10 OR m) = s * 2 ^ 15 + (e * 2 ^ 10 + m)"
    using or_disjoint_nat [OF assms(3), of e] or_disjoint_nat [of "e * 2 ^ 10 + m" 15 s] assms(2,3)
    by simp
  then have "(of_nat (s * 2 ^ 15 OR (e * 2 ^ 10 OR m)) :: u16) = of_nat (s * 2 ^ 15 + e * 2 ^ 10 + m)"
    by (simp add: add.assoc)
  then show ?thesis by (simp only: of_nat_or_eq push_bit_eq_mult of_nat_mult of_nat_power of_nat_numeral or.assoc)
qed

lemma f32_word_fields:
  assumes "s < 2" "e < 256" "m < 2 ^ 23"
  defines "x \<equiv> f32_pack s e m"
  shows "(ucast (drop_bit 16 x AND 0x8000) :: u16) = of_nat (s * 2 ^ 15)"
    "unat (drop_bit 23 x AND 0xff) = e" "x AND 0x7fffff = of_nat m"
proof -
  note f = f32_fields [OF assms(1-3), folded x_def]
  have "(0xff :: u32) = mask 8" "(0x7fffff :: u32) = mask 23" by (simp_all add: mask_eq_exp_minus_1)
  then have *: "unat (drop_bit 23 x AND 0xff) = e" "unat (x AND 0x7fffff) = m"
    using f(2,3) by (simp_all only: unat_drop_bit_div unat_and_mask fexp_def fmant_def)
  then show "unat (drop_bit 23 x AND 0xff) = e" by simp
  show "x AND 0x7fffff = of_nat m" using *(2) by (metis of_nat_unat ucast_id)
  have b: "bit x 31 \<longleftrightarrow> s = 1"
  proof -
    have "bit x 31 \<longleftrightarrow> odd (unat x div 2 ^ 31)"
      by (rule bit_word_odd)
    then show ?thesis using f(1) assms(1) by (cases "s = 1") (auto simp: fsign_def less_2_cases_iff)
  qed
  have "drop_bit 16 x AND 0x8000 = (if bit x 31 then 0x8000 else 0)"
    using and_exp_eq_0_iff_not_bit [of "drop_bit 16 x" 15]
    by (intro bit_word_eqI) (auto simp: bit_simps bit_exp_iff [of 15, simplified])
  then show "(ucast (drop_bit 16 x AND 0x8000) :: u16) = of_nat (s * 2 ^ 15)"
    using b assms(1) by (cases "s = 1") (auto simp: less_2_cases_iff)
qed

lemma drop_bit_of_nat_mult:
  assumes "a * 2 ^ n < 2 ^ 32"
  shows "drop_bit n (of_nat (a * 2 ^ n) :: u32) = of_nat a"
proof -
  have "a \<le> a * 2 ^ n" by simp
  then have "a < 2 ^ 32" using assms by (rule le_less_trans)
  then show ?thesis using assms
    by (simp add: word_unat_eq_iff unat_drop_bit_div unat_of_nat del: of_nat_mult)
qed

lemma drop_bit_of_nat_even:
  assumes "a * 2 ^ Suc n < 2 ^ 32"
  shows "drop_bit n (of_nat (a * 2 ^ Suc n) :: u32) AND 1 = 0"
proof -
  have "drop_bit n (of_nat (2 * a * 2 ^ n) :: u32) = of_nat (2 * a)"
    using assms by (intro drop_bit_of_nat_mult) (simp add: algebra_simps)
  then have *: "drop_bit n (of_nat (a * 2 ^ Suc n) :: u32) = of_nat (2 * a)"
    by (simp only: power_Suc mult.assoc mult.left_commute)
  have "2 * a \<le> a * 2 ^ Suc n" by simp
  then have "2 * a < 2 ^ 32" using assms by (rule le_less_trans)
  then have "unat ((of_nat (2 * a) :: u32) AND mask 1) = 0"
    by (simp only: unat_and_mask) (simp add: unat_of_nat del: of_nat_mult)
  then show ?thesis unfolding * by (simp add: mask_eq_exp_minus_1 unat_eq_zero)
qed

lemma f32_bits_to_f16_normal:
  assumes "s < 2" "0 < e" "e < 31" "m < 2 ^ 10"
  shows "f32_bits_to_f16 (f32_pack s (e + 112) (m * 2 ^ 13)) = of_nat (s * 2 ^ 15 + e * 2 ^ 10 + m)"
proof -
  have l: "e + 112 < 256" "m * 2 ^ 13 < 2 ^ 23" using assms by simp_all
  note w = f32_word_fields [OF assms(1) l]
  have 1: "drop_bit 13 (of_nat (m * 2 ^ 13) :: u32) = of_nat m"
    by (rule drop_bit_of_nat_mult) (use assms(4) in simp)
  have 2: "drop_bit 12 (of_nat (m * 2 ^ 13) :: u32) AND 1 = 0"
    using drop_bit_of_nat_even [of m 12] assms(4) by simp
  have 3: "(ucast (of_nat m :: u32) :: u16) = of_nat m"
    using assms(4) by (simp add: word_unat_eq_iff unat_of_nat unsigned_ucast_eq take_bit_eq_mod)
  have 4: "int (e + 112) \<noteq> 255" "int (e + 112) - 127 + 15 = int e" "\<not> 31 \<le> int e" "0 < int e"
    using assms by simp_all
  show ?thesis
    unfolding f32_bits_to_f16_def w Let_def 1 2 3 4(2)
    using 4 f16_combine [OF assms(1) _ assms(4), of e] assms(3)
    by (simp only: if_False if_True of_int_of_nat_eq) (simp add: or.assoc)
qed

lemma f32_bits_to_f16_subnormal:
  assumes "s < 2" "0 < m" "m < 2 ^ 10" "k = msb_pos m"
  shows "f32_bits_to_f16 (f32_pack s (k + 103) ((m - 2 ^ k) * 2 ^ (23 - k))) = of_nat (s * 2 ^ 15 + m)"
proof -
  have k: "k < 10" using msb_pos_less assms by simp
  note d = dyadic_mantissa [OF assms(2), of 9 23, folded assms(4)]
  have l: "k + 103 < 256" "(m - 2 ^ k) * 2 ^ (23 - k) < 2 ^ 23" using k d(1) assms(3) by simp_all
  note w = f32_word_fields [OF assms(1) l]
  have b: "m * 2 ^ (23 - k) < 2 ^ 24" using d assms(3) by simp
  have 0: "(of_nat ((m - 2 ^ k) * 2 ^ (23 - k)) :: u32) OR 0x800000 = of_nat (m * 2 ^ (23 - k))"
  proof -
    have "1 * 2 ^ 23 OR (m - 2 ^ k) * 2 ^ (23 - k) = m * 2 ^ (23 - k)"
      using or_disjoint_nat [OF l(2), of 1] d(2) assms(3) by simp
    then have "of_nat (1 * 2 ^ 23) OR of_nat ((m - 2 ^ k) * 2 ^ (23 - k)) = (of_nat (m * 2 ^ (23 - k)) :: u32)"
      by (simp only: flip: of_nat_or_eq)
    moreover have "(of_nat (1 * 2 ^ 23) :: u32) = 0x800000" by simp
    ultimately show ?thesis by (simp only: or.commute)
  qed
  have 1: "drop_bit (23 - k) (of_nat (m * 2 ^ (23 - k)) :: u32) = of_nat m"
    by (rule drop_bit_of_nat_mult) (use b in simp)
  have "Suc (23 - k - 1) = 23 - k" using k by simp
  then have 2: "drop_bit (23 - k - 1) (of_nat (m * 2 ^ (23 - k)) :: u32) AND 1 = 0"
    using drop_bit_of_nat_even [of m "23 - k - 1"] b by simp
  have 3: "(ucast (of_nat m :: u32) :: u16) = of_nat m"
    using assms(3) by (simp add: word_unat_eq_iff unat_of_nat unsigned_ucast_eq take_bit_eq_mod)
  have 4: "int (k + 103) \<noteq> 255" "int (k + 103) - 127 + 15 = int k - 9" "\<not> 31 \<le> int k - 9"
      "\<not> 0 < int k - 9" "nat (14 - (int k - 9)) = 23 - k" "\<not> 25 \<le> 23 - k"
    using k by simp_all
  show ?thesis
    unfolding f32_bits_to_f16_def w Let_def 4(2,5) 0 1 2 3
    using 4 f16_combine [OF assms(1) _ assms(3), of 0]
    by (simp only: if_False if_True) simp
qed

lemma f16_cases:
  obtains s e m where "s < 2" "e < 32" "m < 2 ^ 10"
    "(h :: u16) = of_nat (s * 2 ^ 15 + e * 2 ^ 10 + m)"
proof
  have u: "unat h < 2 ^ (10 + 5 + 1)" using unsigned_less [of h, where ?'a = nat] by simp
  show "fsign 10 5 (unat h) < 2" using fsign_less [OF u] .
  show "fexp 10 5 (unat h) < 32" using fexp_less [of 10 5] by simp
  show "fmant 10 (unat h) < 2 ^ 10" by (rule fmant_less)
  have "of_nat (unat h) = (of_nat (fsign 10 5 (unat h) * 2 ^ 15 + fexp 10 5 (unat h) * 2 ^ 10
      + fmant 10 (unat h)) :: u16)"
    using sum_of_fields [of "unat h" 10 5] by (simp del: of_nat_add of_nat_mult of_nat_unat)
  then show "h = of_nat (fsign 10 5 (unat h) * 2 ^ 15 + fexp 10 5 (unat h) * 2 ^ 10
      + fmant 10 (unat h))" by simp
qed

text \<open>Every half that is not a \<open>NaN\<close> is a single, a double, and itself again.\<close>

lemma f16_single:
  assumes "\<not> is_nan64 (f16_bits_to_f64 h)"
  obtains x where "f64_to_f32 (f16_bits_to_f64 h) = x" "f32_to_f64 x = f16_bits_to_f64 h"
    "f32_bits_to_f16 x = h"
proof -
  obtain s e m where h: "s < 2" "e < 32" "m < 2 ^ 10" "h = of_nat (s * 2 ^ 15 + e * 2 ^ 10 + m)"
    by (rule f16_cases)
  note f = f16_fields [OF h(1-3), folded h(4)]
  have s: "(if s = 1 then 1 else 0) = s" using h(1) by auto
  note v = f16_bits_to_f64_def [of h, unfolded f s Let_def]
  consider "e = 31" | "e = 0" "m = 0" | "e = 0" "0 < m" | "0 < e" "e < 31" using h(2) by linarith
  then show ?thesis
  proof cases
    case 1
    have "m = 0"
    proof (rule ccontr)
      assume "m \<noteq> 0"
      then have "f16_bits_to_f64 h = f64_pack s 2047 (2 ^ 51)" using v 1 by simp
      then show False using assms f64_fields [OF h(1), of 2047 "2 ^ 51"] by (simp add: is_nan64_def)
    qed
    then have "f16_bits_to_f64 h = f64_pack s 2047 0" using v 1 by simp
    moreover have "f32_bits_to_f16 (f32_pack s 255 0) = h"
      using f32_word_fields [OF h(1), of 255 0] f16_combine [OF h(1), of 31 0] h(4) 1 \<open>m = 0\<close>
      by (simp add: f32_bits_to_f16_def)
    ultimately show ?thesis using that [of "f32_pack s 255 0"]
        f64_to_f32_pack(1) [OF h(1), of 2047 0] f32_to_f64_pack(1) [OF h(1), of 255 0] by simp
  next
    case 2
    then have "f16_bits_to_f64 h = f64_pack s 0 0" using v by (simp add: f64_dyadic_def)
    moreover have "f32_bits_to_f16 (f32_pack s 0 0) = h"
      using f32_word_fields [OF h(1), of 0 0] h(4) 2 by (simp add: f32_bits_to_f16_def)
    ultimately show ?thesis using that [of "f32_pack s 0 0"]
        f64_to_f32_pack(3) [OF h(1), of 0 0] f32_to_f64_pack(2) [OF h(1), of 0 0]
      by (simp add: f64_dyadic_def)
  next
    case 3
    define k where "k = msb_pos m"
    have k: "k < 10" using msb_pos_less [OF 3(2) h(3)] by (simp add: k_def)
    define a where "a = (m - 2 ^ k) * 2 ^ (23 - k)"
    have "52 - k = (23 - k) + 29" using k by simp
    then have a: "(m - 2 ^ k) * 2 ^ (52 - k) = a * 2 ^ 29" by (simp only: a_def power_add mult.assoc)
    have l: "a < 2 ^ 23" using dyadic_mantissa(1) [OF 3(2), of 9 23, folded k_def] h(3) by (simp add: a_def)
    have "f16_bits_to_f64 h = f64_pack s (k + 999) (a * 2 ^ 29)"
      using v 3 f64_dyadic_pos [OF 3(2) k_def, of "- 24" "k + 999"] unfolding a by simp
    moreover have "f64_to_f32 (f64_pack s (k + 999) (a * 2 ^ 29)) = f32_pack s (k + 103) a"
      using f64_to_f32_pack(2) [OF h(1), of "k + 999" "a * 2 ^ 29"] k l round_shift_exact [of a 29]
      by (simp add: add.commute)
    moreover have "f32_to_f64 (f32_pack s (k + 103) a) = f64_pack s (k + 999) (a * 2 ^ 29)"
      using f32_to_f64_pack(3) [OF h(1) _ l, of "k + 103"] k by (simp add: add.commute)
    moreover have "f32_bits_to_f16 (f32_pack s (k + 103) a) = h"
      using f32_bits_to_f16_subnormal [OF h(1) 3(2) h(3) k_def] h(4) 3(1) by (simp add: a_def)
    ultimately show ?thesis using that by simp
  next
    case 4
    have "msb_pos (1024 + m) = 10" using h(3) by (intro msb_pos_unique) simp_all
    then have "f16_bits_to_f64 h = f64_pack s (e + 1008) (m * 2 ^ 42)"
      using v 4 f64_dyadic_pos [of "1024 + m" 10 "int e - 25" "e + 1008" s] by simp
    moreover have "f64_to_f32 (f64_pack s (e + 1008) (m * 2 ^ 42)) = f32_pack s (e + 112) (m * 2 ^ 13)"
      using f64_to_f32_pack(2) [OF h(1), of "e + 1008" "m * 2 ^ 42"] h(3) 4
        round_shift_multiple [of "m * 2 ^ 42" "m * 2 ^ 13" 29]
      by (simp add: add.commute)
    moreover have "f32_to_f64 (f32_pack s (e + 112) (m * 2 ^ 13)) = f64_pack s (e + 1008) (m * 2 ^ 42)"
      using f32_to_f64_pack(3) [OF h(1), of "e + 112" "m * 2 ^ 13"] h(3) 4
      by (simp add: ac_simps)
    ultimately show ?thesis
      using that f32_bits_to_f16_normal [OF h(1) 4 h(3)] h(4) by simp
  qed
qed

lemma f64_eq_refl: "\<not> is_nan64 v \<Longrightarrow> f64_eq v v"
  by (simp add: f64_eq_def)

lemma value_round_trips_f16_bits:
  assumes "\<not> is_nan64 (f16_bits_to_f64 h)"
  shows "value_round_trips_as_f16 (f16_bits_to_f64 h) = Some h"
  by (rule f16_single [OF assms]) (simp add: value_round_trips_as_f16_def f64_eq_refl [OF assms])

text \<open>Away from \<open>NaN\<close> and \<open>-0.0\<close> the float \<open>==\<close> is equality of the patterns.\<close>

lemma canonical_zero:
  assumes "is_zero64 v" "\<not> (is_sign_negative64 v \<and> f64_eq v 0)"
  shows "v = 0"
proof -
  obtain s e m where v: "s < 2" "e < 2048" "m < 2 ^ 52" "v = f64_pack s e m" by (rule f64_cases)
  note f = f64_fields [OF v(1-3), folded v(4)]
  have "e = 0" "m = 0" using assms(1) f by (simp_all add: is_zero64_def)
  moreover have "f64_eq v 0"
    using assms(1) by (auto simp: f64_eq_def is_nan64_def is_zero64_def fexp_def fmant_def)
  then have "s = 0" using assms(2) v(1) f(1) by (auto simp: is_sign_negative64_def)
  ultimately show ?thesis using v(4) by (simp add: f64_pack_def)
qed

lemma f64_eq_canonical:
  assumes "\<not> (is_sign_negative64 v \<and> f64_eq v 0)" "f64_eq a v"
  shows "a = v \<or> v = 0 \<and> is_zero64 a"
  using assms canonical_zero [of v] by (auto simp: f64_eq_def)

lemma value_round_trips_zero: "value_round_trips_as_f16 0 = Some 0"
  using value_round_trips_f16_bits [of 0]
  by (simp add: f16_bits_to_f64_def f64_dyadic_def f64_pack_def is_nan64_def fexp_def fmant_def)

lemma f16_bits_zero [simp]: "f16_bits_to_f64 0 = 0"
  by (simp add: f16_bits_to_f64_def f64_dyadic_def f64_pack_def)

lemma value_round_trips_SomeD:
  assumes "value_round_trips_as_f16 v = Some h" "\<not> (is_sign_negative64 v \<and> f64_eq v 0)"
  shows "f16_bits_to_f64 h = v"
proof (cases "v = 0")
  case True
  then show ?thesis using assms(1) value_round_trips_zero by simp
next
  case False
  then show ?thesis using assms f64_eq_canonical [of v "f16_bits_to_f64 h"]
    by (auto simp: value_round_trips_as_f16_def Let_def split: if_splits)
qed

lemma single_eq_canonical:
  assumes "f64_eq (f32_to_f64 (f64_to_f32 v)) v" "value_round_trips_as_f16 v = None"
    "\<not> (is_sign_negative64 v \<and> f64_eq v 0)"
  shows "f32_to_f64 (f64_to_f32 v) = v"
  using assms f64_eq_canonical [of v "f32_to_f64 (f64_to_f32 v)"] value_round_trips_zero by auto

lemma is_nan_f32_to_f64: "is_nan64 (f32_to_f64 x) \<longleftrightarrow> is_nan32 x"
proof -
  obtain s e m where x: "s < 2" "e < 256" "m < 2 ^ 23" "x = f32_pack s e m" by (rule f32_cases)
  note f = f32_fields [OF x(1-3), folded x(4)]
  note w = f32_to_f64_pack [OF x(1-3), folded x(4)]
  consider "e = 255" "m = 0" | "e = 255" "0 < m" | "e = 0" | "0 < e" "e < 255" using x(2) by linarith
  then show ?thesis
  proof cases
    case 1
    then show ?thesis using w(1) f f64_fields [OF x(1), of 2047 0] by (simp add: is_nan64_def is_nan32_def)
  next
    case 2
    define q where "q = (if m < 2 ^ 22 then m * 2 ^ 29 + 2 ^ 51 else m * 2 ^ 29)"
    have "f32_to_f64 x = f64_pack s 2047 q" using f 2 by (simp add: f32_to_f64_def q_def)
    moreover have "q < 2 ^ 52" "q \<noteq> 0" using x(3) 2 by (auto simp: q_def)
    ultimately show ?thesis using f 2 f64_fields [OF x(1), of 2047 q] by (simp add: is_nan64_def is_nan32_def)
  next
    case 3
    then obtain E M where "f32_to_f64 x = f64_pack s E M" "E < 2047" "M < 2 ^ 52"
    proof (cases "m = 0")
      case True
      then show ?thesis using that [of 0 0] w(2) 3 by (simp add: f64_dyadic_def)
    next
      case False
      define k where "k = msb_pos m"
      have k: "k < 23" using msb_pos_less False x(3) by (simp add: k_def)
      have "(m - 2 ^ k) * 2 ^ (52 - k) < 2 ^ 52"
        using dyadic_mantissa(1) [of m 22 52, folded k_def] False x(3) by simp
      then show ?thesis using that [of "k + 874"] w(2) 3 k False
        f64_dyadic_pos [OF _ k_def, of "- 149" "k + 874" s] by simp
    qed
    then show ?thesis using f 3 f64_fields [OF x(1), of E M] by (simp add: is_nan64_def is_nan32_def)
  next
    case 4
    then show ?thesis using w(3) f x(3) f64_fields [OF x(1), of "e + 896" "m * 2 ^ 29"]
      by (simp add: is_nan64_def is_nan32_def)
  qed
qed

text \<open>The zeros of the two widths correspond, with their signs.\<close>

lemma f64_to_f32_zero:
  assumes "is_zero64 v"
  shows "is_zero32 (f64_to_f32 v)"
    and "is_sign_negative32 (f64_to_f32 v) \<longleftrightarrow> is_sign_negative64 v"
proof -
  obtain s e m where v: "s < 2" "e < 2048" "m < 2 ^ 52" "v = f64_pack s e m" by (rule f64_cases)
  note f = f64_fields [OF v(1-3), folded v(4)]
  have "e = 0" using assms f by (simp add: is_zero64_def)
  then have "f64_to_f32 v = f32_pack s 0 0" using f64_to_f32_pack(3) [OF v(1-3)] v(4) by simp
  then show "is_zero32 (f64_to_f32 v)" "is_sign_negative32 (f64_to_f32 v) \<longleftrightarrow> is_sign_negative64 v"
    using f f32_fields [OF v(1), of 0 0]
    by (simp_all add: is_zero32_def is_sign_negative32_def is_sign_negative64_def)
qed

lemma f32_to_f64_zero:
  assumes "is_zero32 x"
  shows "is_zero64 (f32_to_f64 x)"
proof -
  obtain s e m where x: "s < 2" "e < 256" "m < 2 ^ 23" "x = f32_pack s e m" by (rule f32_cases)
  note f = f32_fields [OF x(1-3), folded x(4)]
  have "e = 0" "m = 0" using assms f by (simp_all add: is_zero32_def)
  then have "f32_to_f64 x = f64_pack s 0 0"
    using f32_to_f64_pack(2) [OF x(1-3)] x(4) by (simp add: f64_dyadic_def)
  then show ?thesis using f64_fields [OF x(1), of 0 0] by (simp add: is_zero64_def)
qed

lemma is_zero64_eq: "f64_eq v 0 \<longleftrightarrow> is_zero64 v"
  by (auto simp: f64_eq_def is_nan64_def is_zero64_def fexp_def fmant_def)

lemmas float_eval = encode_minimal_float_def value_round_trips_as_f16_def f64_to_f32_def f32_to_f64_def
  f16_bits_to_f64_def f32_bits_to_f16_def f64_pack_def f32_pack_def f64_dyadic_def f64_eq_def is_nan64_def
  is_zero64_def is_sign_negative64_def fexp_def fmant_def fsign_def round_shift_def msb_pos.simps

end
