(* ===== verification/Cbor_Value.thy ===== *)
theory Cbor_Value
  imports Cbor_Float
begin

unbundle bit_operations_syntax

text \<open>
  The data item and the canonical encoder (\<open>cbor/mod.rs\<close>, \<open>cbor/encode.rs\<close>). An encoder
  that appends to \<open>out: &mut Vec<u8>\<close> is modelled by the bytes it appends. The lemmas show
  that the head of an item determines its major type and argument, that the encoding of a
  map does not depend on the order of its entries, and the shape of a successful encoding.
\<close>

section \<open>Errors and values\<close>

datatype cbor_error =
    UnexpectedEof
  | IndefiniteLengthForbidden
  | NonCanonicalIntegerEncoding
  | NonCanonicalFloat
  | UnsortedMapKeys
  | DuplicateMapKey
  | InvalidUtf8
  | UnknownTag u64
  | LengthOverflow
  | EntryTooLarge nat
  | DepthLimitExceeded
  | UnsupportedType u8
  | TrailingBytes
  | UnsupportedVersion u32
  | MalformedManifest string

definition MAX_DEPTH :: nat where
  "MAX_DEPTH = 128"

definition TAG_ALLOWLIST :: "u64 list" where
  "TAG_ALLOWLIST = []"

datatype cbor_value =
    Unsigned u64
  | Negative u64
  | Bytes bytes
  | Text bytes
  | Array "cbor_value list"
  | Map "(cbor_value \<times> cbor_value) list"
  | Tag u64 cbor_value
  | Bool bool
  | Null
  | Float f64

text \<open>
  A \<open>String\<close> is its bytes, valid UTF-8: the well-formed sequences of \<open>core::str::from_utf8\<close>
  (no overlong forms, no surrogates, nothing above U+10FFFF).
\<close>

definition cont_byte :: "u8 \<Rightarrow> bool" where
  "cont_byte b \<longleftrightarrow> 0x80 \<le> b \<and> b \<le> 0xbf"

fun utf8_valid :: "bytes \<Rightarrow> bool" where
  "utf8_valid [] \<longleftrightarrow> True"
| "utf8_valid (a # bs) \<longleftrightarrow>
    (if a \<le> 0x7f then utf8_valid bs
     else if 0xc2 \<le> a \<and> a \<le> 0xdf then
       (case bs of b # r \<Rightarrow> cont_byte b \<and> utf8_valid r | _ \<Rightarrow> False)
     else if 0xe0 \<le> a \<and> a \<le> 0xef then
       (case bs of b # c # r \<Rightarrow>
           cont_byte b \<and> (a = 0xe0 \<longrightarrow> 0xa0 \<le> b) \<and> (a = 0xed \<longrightarrow> b \<le> 0x9f) \<and> cont_byte c \<and> utf8_valid r
         | _ \<Rightarrow> False)
     else if 0xf0 \<le> a \<and> a \<le> 0xf4 then
       (case bs of b # c # d # r \<Rightarrow>
           cont_byte b \<and> (a = 0xf0 \<longrightarrow> 0x90 \<le> b) \<and> (a = 0xf4 \<longrightarrow> b \<le> 0x8f) \<and> cont_byte c \<and> cont_byte d
           \<and> utf8_valid r
         | _ \<Rightarrow> False)
     else False)"

text \<open>Canonical key order: shorter first, then bytewise.\<close>

definition compare_canonical_keys :: "bytes \<Rightarrow> bytes \<Rightarrow> ordering" where
  "compare_canonical_keys a b =
     (if length a \<noteq> length b then cmp (length a) (length b) else cmp a b)"

section \<open>The encoder\<close>

text \<open>The functions of the module carry its name: \<open>cbor::unsigned\<close> is \<open>cbor_unsigned\<close>.\<close>

definition cbor_major :: "u8 \<Rightarrow> u64 \<Rightarrow> bytes" where
  "cbor_major kind value =
     (let head = push_bit 5 kind
      in if value \<le> 23 then [head OR ucast value]
         else if value \<le> 0xff then [head OR 24, ucast value]
         else if value \<le> 0xffff then (head OR 25) # be_bytes 2 (unat value)
         else if value \<le> 0xffffffff then (head OR 26) # be_bytes 4 (unat value)
         else (head OR 27) # be_bytes 8 (unat value))"

definition cbor_unsigned :: "u64 \<Rightarrow> bytes" where
  "cbor_unsigned value = cbor_major 0 value"

text \<open>An \<open>i64\<close> is an integer; \<open>value.unsigned_abs().saturating_sub(1)\<close> is \<open>- value - 1\<close> below zero.\<close>

definition cbor_signed :: "int \<Rightarrow> bytes" where
  "cbor_signed value =
     (if value \<ge> 0 then cbor_unsigned (of_int value) else cbor_major 1 (of_int (\<bar>value\<bar> - 1)))"

definition cbor_bytes :: "bytes \<Rightarrow> bytes" where
  "cbor_bytes value = cbor_major 2 (of_nat (length value)) @ value"

definition cbor_text :: "bytes \<Rightarrow> bytes" where
  "cbor_text value = cbor_major 3 (of_nat (length value)) @ value"

definition cbor_array :: "nat \<Rightarrow> bytes" where
  "cbor_array len = cbor_major 4 (of_nat len)"

definition cbor_map :: "nat \<Rightarrow> bytes" where
  "cbor_map len = cbor_major 5 (of_nat len)"

definition cbor_tag :: "u64 \<Rightarrow> bytes" where
  "cbor_tag tag_num = cbor_major 6 tag_num"

definition cbor_boolean :: "bool \<Rightarrow> bytes" where
  "cbor_boolean val = (if val then [0xf5] else [0xf4])"

definition cbor_null :: "bytes" where
  "cbor_null = [0xf6]"

text \<open>\<open>windows(2)\<close> comparing neighbouring keys.\<close>

fun adjacent_equal :: "(bytes \<times> 'a) list \<Rightarrow> bool" where
  "adjacent_equal (a # b # r) \<longleftrightarrow> fst a = fst b \<or> adjacent_equal (b # r)"
| "adjacent_equal _ \<longleftrightarrow> False"

definition encode_map_entries :: "(bytes \<times> bytes) list \<Rightarrow> cbor_error + bytes" where
  "encode_map_entries encoded_entries =
     (let sorted = sort_by (\<lambda>a b. compare_canonical_keys (fst a) (fst b)) encoded_entries
      in if adjacent_equal sorted then Inl DuplicateMapKey
         else Inr (cbor_map (length sorted) @ concat (map (\<lambda>(k, v). k @ v) sorted)))"

definition encode_float :: "f64 \<Rightarrow> cbor_error + bytes" where
  "encode_float value =
     (if is_nan64 value then Inl NonCanonicalFloat
      else if is_sign_negative64 value \<and> f64_eq value 0 then Inl NonCanonicalFloat
      else Inr (encode_minimal_float value))"

function (sequential) try_encode :: "cbor_value \<Rightarrow> cbor_error + bytes"
  and try_encode_items :: "cbor_value list \<Rightarrow> cbor_error + bytes"
  and try_encode_entries :: "(cbor_value \<times> cbor_value) list \<Rightarrow> cbor_error + (bytes \<times> bytes) list"
where
  "try_encode (Unsigned val) = Inr (cbor_unsigned val)"
| "try_encode (Negative val) = Inr (cbor_major 1 val)"
| "try_encode (Bytes b) = Inr (cbor_bytes b)"
| "try_encode (Text s) = Inr (cbor_text s)"
| "try_encode (Array items) = res_map (\<lambda>body. cbor_array (length items) @ body) (try_encode_items items)"
| "try_encode (Map entries) = res_bind (try_encode_entries entries) encode_map_entries"
| "try_encode (Tag tag_num inner) =
    (if tag_num \<notin> set TAG_ALLOWLIST then Inl (UnknownTag tag_num)
     else res_map (\<lambda>body. cbor_tag tag_num @ body) (try_encode inner))"
| "try_encode (Bool b) = Inr (cbor_boolean b)"
| "try_encode Null = Inr cbor_null"
| "try_encode (Float value) = encode_float value"
| "try_encode_items [] = Inr []"
| "try_encode_items (item # items) =
    res_bind (try_encode item) (\<lambda>a. res_map (\<lambda>b. a @ b) (try_encode_items items))"
| "try_encode_entries [] = Inr []"
| "try_encode_entries ((key, val) # entries) =
    res_bind (try_encode key) (\<lambda>key_bytes.
    res_bind (try_encode val) (\<lambda>val_bytes.
    res_map (\<lambda>r. (key_bytes, val_bytes) # r) (try_encode_entries entries)))"
  by pat_completeness auto
termination
  by (relation "measure (\<lambda>x. case x of Inl v \<Rightarrow> size v
        | Inr (Inl vs) \<Rightarrow> size_list size vs
        | Inr (Inr es) \<Rightarrow> size_list (size_prod size size) es)") simp_all

definition cbor_to_canonical_bytes :: "cbor_value \<Rightarrow> cbor_error + bytes" where
  "cbor_to_canonical_bytes v = try_encode v"

section \<open>Canonical form of a value\<close>

text \<open>
  What a value looks like after it was written and read back: the entries of each map stand
  in the order of their encoded keys.
\<close>

definition canonical_key :: "bytes \<Rightarrow> nat \<times> bytes" where
  "canonical_key k = (length k, k)"

definition encoded_key :: "cbor_value \<Rightarrow> bytes" where
  "encoded_key k = (case try_encode k of Inr b \<Rightarrow> b | Inl _ \<Rightarrow> [])"

function (sequential) canonical_form :: "cbor_value \<Rightarrow> cbor_value"
  and canonical_items :: "cbor_value list \<Rightarrow> cbor_value list"
  and canonical_entries :: "(cbor_value \<times> cbor_value) list \<Rightarrow> (bytes \<times> cbor_value \<times> cbor_value) list"
where
  "canonical_form (Array vs) = Array (canonical_items vs)"
| "canonical_form (Map es) =
    Map (map snd (sort_key (\<lambda>e. canonical_key (fst e)) (canonical_entries es)))"
| "canonical_form (Tag t v) = Tag t (canonical_form v)"
| "canonical_form v = v"
| "canonical_items [] = []"
| "canonical_items (v # vs) = canonical_form v # canonical_items vs"
| "canonical_entries [] = []"
| "canonical_entries ((k, v) # es) = (encoded_key k, canonical_form k, canonical_form v) # canonical_entries es"
  by pat_completeness auto
termination
  by (relation "measure (\<lambda>x. case x of Inl v \<Rightarrow> size v
        | Inr (Inl vs) \<Rightarrow> size_list size vs
        | Inr (Inr es) \<Rightarrow> size_list (size_prod size size) es)") simp_all

text \<open>Values a Rust program can hold: lengths fit \<open>usize\<close>, a \<open>String\<close> is UTF-8.\<close>

function (sequential) cbor_ok :: "cbor_value \<Rightarrow> bool"
  and cbor_ok_items :: "cbor_value list \<Rightarrow> bool"
  and cbor_ok_entries :: "(cbor_value \<times> cbor_value) list \<Rightarrow> bool"
where
  "cbor_ok (Bytes b) \<longleftrightarrow> length b < 2 ^ 64"
| "cbor_ok (Text s) \<longleftrightarrow> length s < 2 ^ 64 \<and> utf8_valid s"
| "cbor_ok (Array vs) \<longleftrightarrow> length vs < 2 ^ 64 \<and> cbor_ok_items vs"
| "cbor_ok (Map es) \<longleftrightarrow> length es < 2 ^ 64 \<and> cbor_ok_entries es"
| "cbor_ok (Tag t v) \<longleftrightarrow> cbor_ok v"
| "cbor_ok v \<longleftrightarrow> True"
| "cbor_ok_items [] \<longleftrightarrow> True"
| "cbor_ok_items (v # vs) \<longleftrightarrow> cbor_ok v \<and> cbor_ok_items vs"
| "cbor_ok_entries [] \<longleftrightarrow> True"
| "cbor_ok_entries ((k, v) # es) \<longleftrightarrow> cbor_ok k \<and> cbor_ok v \<and> cbor_ok_entries es"
  by pat_completeness auto
termination
  by (relation "measure (\<lambda>x. case x of Inl v \<Rightarrow> size v
        | Inr (Inl vs) \<Rightarrow> size_list size vs
        | Inr (Inr es) \<Rightarrow> size_list (size_prod size size) es)") simp_all

text \<open>Nesting depth: a scalar or an empty container has none.\<close>

function (sequential) cbor_depth :: "cbor_value \<Rightarrow> nat"
  and cbor_depth_items :: "cbor_value list \<Rightarrow> nat"
  and cbor_depth_entries :: "(cbor_value \<times> cbor_value) list \<Rightarrow> nat"
where
  "cbor_depth (Array vs) = cbor_depth_items vs"
| "cbor_depth (Map es) = cbor_depth_entries es"
| "cbor_depth (Tag t v) = Suc (cbor_depth v)"
| "cbor_depth v = 0"
| "cbor_depth_items [] = 0"
| "cbor_depth_items (v # vs) = max (Suc (cbor_depth v)) (cbor_depth_items vs)"
| "cbor_depth_entries [] = 0"
| "cbor_depth_entries ((k, v) # es) =
    max (Suc (max (cbor_depth k) (cbor_depth v))) (cbor_depth_entries es)"
  by pat_completeness auto
termination
  by (relation "measure (\<lambda>x. case x of Inl v \<Rightarrow> size v
        | Inr (Inl vs) \<Rightarrow> size_list size vs
        | Inr (Inr es) \<Rightarrow> size_list (size_prod size size) es)") simp_all

section \<open>Heads\<close>

lemma mask_5_u8: "(0x1f :: u8) = mask 5"
  by (simp add: mask_eq_exp_minus_1)

lemma head_byte:
  fixes k a :: u8
  assumes "k < 8" "a < 32"
  shows "drop_bit 5 (push_bit 5 k OR a) = k" "(push_bit 5 k OR a) AND 0x1f = a"
proof -
  have k: "take_bit 3 k = k" and a: "take_bit 5 a = a"
    using assms less_imp_take_bit [of k 3] less_imp_take_bit [of a 5]
    by (simp_all add: word_less_nat_alt)
  have nb: "n < 5" if "bit a n" for n using a that by (metis bit_take_bit_iff)
  have nk: "n < 3" if "bit k n" for n using k that by (metis bit_take_bit_iff)
  show "drop_bit 5 (push_bit 5 k OR a) = k"
    by (rule bit_word_eqI) (auto simp: bit_simps dest: nk nb)
  show "(push_bit 5 k OR a) AND 0x1f = a"
    unfolding mask_5_u8 by (rule bit_word_eqI) (auto simp: bit_simps dest: nb)
qed

lemma head_byte_split: "push_bit 5 (drop_bit 5 b) OR (b AND 0x1f) = (b :: u8)"
  unfolding mask_5_u8 by (rule bit_word_eqI) (auto simp: bit_simps)

lemma drop_bit_5_less: "drop_bit 5 (b :: u8) < 8"
  by (simp add: word_less_nat_alt unat_drop_bit_div) (use unat_u8_less [of b] in linarith)

lemma cbor_major_cases:
  obtains (tiny) "v \<le> 23" "cbor_major k v = [push_bit 5 k OR ucast v]"
  | (one) "23 < v" "v \<le> 0xff" "cbor_major k v = [push_bit 5 k OR 24, ucast v]"
  | (two) "0xff < v" "v \<le> 0xffff"
      "cbor_major k v = (push_bit 5 k OR 25) # be_bytes 2 (unat v)"
  | (four) "0xffff < v" "v \<le> 0xffffffff"
      "cbor_major k v = (push_bit 5 k OR 26) # be_bytes 4 (unat v)"
  | (eight) "0xffffffff < v"
      "cbor_major k v = (push_bit 5 k OR 27) # be_bytes 8 (unat v)"
proof -
  consider "v \<le> 23" | "23 < v" "v \<le> 0xff" | "0xff < v" "v \<le> 0xffff"
    | "0xffff < v" "v \<le> 0xffffffff" | "0xffffffff < v" by (meson not_le)
  then show ?thesis
  proof cases
    case 1
    then show ?thesis by (intro tiny) (simp_all add: cbor_major_def Let_def)
  next
    case 2
    then have "\<not> v \<le> 23" by simp
    then show ?thesis using 2(2) by (intro one 2) (simp_all add: cbor_major_def Let_def)
  next
    case 3
    then have "\<not> v \<le> 23" "\<not> v \<le> 0xff" by unat_arith+
    then show ?thesis using 3(2) by (intro two 3) (simp_all add: cbor_major_def Let_def)
  next
    case 4
    then have "\<not> v \<le> 23" "\<not> v \<le> 0xff" "\<not> v \<le> 0xffff" by unat_arith+
    then show ?thesis using 4(2) by (intro four 4) (simp_all add: cbor_major_def Let_def)
  next
    case 5
    then have "\<not> v \<le> 23" "\<not> v \<le> 0xff" "\<not> v \<le> 0xffff" "\<not> v \<le> 0xffffffff" by unat_arith+
    then show ?thesis by (intro eight 5) (simp_all add: cbor_major_def Let_def)
  qed
qed

lemma cbor_major_not_Nil: "cbor_major k v \<noteq> []"
  by (cases rule: cbor_major_cases [of v k]) simp_all

lemma cbor_major_hd: "k < 8 \<Longrightarrow> drop_bit 5 (hd (cbor_major k v)) = k"
proof (cases rule: cbor_major_cases [of v k])
  case tiny
  then have "ucast v < (32 :: u8)"
    by (simp add: word_less_nat_alt word_le_nat_alt unsigned_ucast_eq take_bit_eq_mod)
  then show "k < 8 \<Longrightarrow> ?thesis" unfolding tiny by (simp only: list.sel head_byte)
next
  case one
  then show "k < 8 \<Longrightarrow> ?thesis" using head_byte(1) [of k 24] by simp
next
  case two
  then show "k < 8 \<Longrightarrow> ?thesis" using head_byte(1) [of k 25] by simp
next
  case four
  then show "k < 8 \<Longrightarrow> ?thesis" using head_byte(1) [of k 26] by simp
next
  case eight
  then show "k < 8 \<Longrightarrow> ?thesis" using head_byte(1) [of k 27] by simp
qed

section \<open>Maps and containers\<close>

lemma compare_canonical_keys_cmp:
  "compare_canonical_keys a b = cmp (canonical_key a) (canonical_key b)"
  by (auto simp: compare_canonical_keys_def canonical_key_def cmp_def)

lemma canonical_key_inj [simp]: "canonical_key a = canonical_key b \<longleftrightarrow> a = b"
  by (auto simp: canonical_key_def)

lemma sort_entries_eq:
  "sort_by (\<lambda>a b. compare_canonical_keys (fst a) (fst b)) es = sort_key (\<lambda>e. canonical_key (fst e)) es"
  by (rule sort_by_key) (rule compare_canonical_keys_cmp)

lemma adjacent_equal_sorted:
  "sorted (map (\<lambda>e. canonical_key (fst e)) es) \<Longrightarrow> adjacent_equal es \<longleftrightarrow> \<not> distinct (map fst es)"
proof (induction es rule: adjacent_equal.induct)
  case (1 a b r)
  have "fst a \<notin> fst ` set r" if "fst a \<noteq> fst b"
  proof
    assume "fst a \<in> fst ` set r"
    then obtain e where e: "e \<in> set r" "fst e = fst a" by auto
    then have "canonical_key (fst b) \<le> canonical_key (fst a)" "canonical_key (fst a) \<le> canonical_key (fst b)"
      using 1(2) by (auto simp flip: e(2))
    then show False using that by (metis antisym canonical_key_inj)
  qed
  then show ?case using 1 by auto
qed auto

lemma encode_map_entries_Inr:
  "encode_map_entries es = Inr bs \<longleftrightarrow>
     distinct (map fst es) \<and>
     bs = cbor_map (length es) @ concat (map (\<lambda>(k, v). k @ v) (sort_key (\<lambda>e. canonical_key (fst e)) es))"
proof -
  have "distinct (map fst (sort_key (\<lambda>e. canonical_key (fst e)) es)) \<longleftrightarrow> distinct (map fst es)"
    by (simp add: distinct_map)
  moreover have "sorted (map (\<lambda>e. canonical_key (fst e)) (sort_key (\<lambda>e. canonical_key (fst e)) es))"
    by simp
  ultimately show ?thesis
    by (auto simp: encode_map_entries_def sort_entries_eq Let_def adjacent_equal_sorted)
qed

lemma try_encode_entries_Inr:
  "try_encode_entries es = Inr ps \<longleftrightarrow>
     list_all2 (\<lambda>(k, v) (kb, vb). try_encode k = Inr kb \<and> try_encode v = Inr vb) es ps"
  by (induction es arbitrary: ps rule: list.induct) (auto simp: list_all2_Cons1)

lemma try_encode_items_Inr:
  "try_encode_items vs = Inr b \<longleftrightarrow> (\<exists>bs. list_all2 (\<lambda>v b. try_encode v = Inr b) vs bs \<and> b = concat bs)"
  by (induction vs arbitrary: b rule: list.induct) (auto simp: list_all2_Cons1, metis concat.simps(2))

lemma try_encode_not_Nil: "try_encode v = Inr b \<Longrightarrow> b \<noteq> []"
proof (cases v)
  case (Float x)
  then show "try_encode v = Inr b \<Longrightarrow> ?thesis"
    by (auto simp: encode_float_def encode_minimal_float_def split: option.splits if_splits)
qed (auto simp: cbor_unsigned_def cbor_bytes_def cbor_text_def cbor_array_def cbor_tag_def
    cbor_boolean_def cbor_null_def cbor_map_def cbor_major_not_Nil encode_map_entries_Inr split: if_splits)

lemma cbor_ok_items_all: "cbor_ok_items vs \<longleftrightarrow> (\<forall>v\<in>set vs. cbor_ok v)"
  by (induction vs) auto

lemma cbor_ok_entries_all: "cbor_ok_entries es \<longleftrightarrow> (\<forall>(k, v)\<in>set es. cbor_ok k \<and> cbor_ok v)"
  by (induction es) auto

lemma cbor_depth_items_le: "v \<in> set vs \<Longrightarrow> Suc (cbor_depth v) \<le> cbor_depth_items vs"
  by (induction vs) auto

lemma cbor_depth_entries_le:
  "(k, v) \<in> set es \<Longrightarrow> Suc (cbor_depth k) \<le> cbor_depth_entries es \<and> Suc (cbor_depth v) \<le> cbor_depth_entries es"
  by (induction es) auto

lemma canonical_items_map: "canonical_items vs = map canonical_form vs"
  by (induction vs) auto

lemma canonical_entries_map:
  "canonical_entries es = map (\<lambda>(k, v). (encoded_key k, canonical_form k, canonical_form v)) es"
  by (induction es) auto

lemma sorted_wrt_less_distinct:
  "distinct (map fst es) \<Longrightarrow> sorted_wrt (<) (map (\<lambda>p. canonical_key (fst p)) (sort_key (\<lambda>e. canonical_key (fst e)) es))"
proof -
  assume "distinct (map fst es)"
  then have "distinct (map (\<lambda>p. canonical_key (fst p)) (sort_key (\<lambda>e. canonical_key (fst e)) es))"
    by (auto simp: distinct_map inj_on_def)
  then show ?thesis by (simp add: strict_sorted_iff)
qed

text \<open>The definitions that evaluate an encoder on a concrete value.\<close>

lemmas cbor_eval = cbor_to_canonical_bytes_def cbor_unsigned_def cbor_bytes_def cbor_text_def cbor_array_def
  cbor_map_def cbor_tag_def cbor_boolean_def cbor_null_def cbor_major_def encode_map_entries_def
  compare_canonical_keys_def cmp_def encode_float_def be_bytes_def canonical_key_def encoded_key_def

end
