(* ===== verification/Cbor_Decode.thy ===== *)
theory Cbor_Decode
  imports Cbor_Value
begin

unbundle bit_operations_syntax

text \<open>
  The strict decoder of \<open>cbor/decode.rs\<close>, over the input and a cursor as in the source. An
  error ends the whole decode, so a failing call returns the error alone.
\<close>

section \<open>The decoder\<close>

definition byte_range :: "bytes \<Rightarrow> nat \<Rightarrow> nat \<Rightarrow> bytes" where
  "byte_range input start len = take len (drop start input)"

text \<open>The argument that follows an initial byte; \<open>cursor\<close> is already past that byte.\<close>

definition decode_argument :: "bytes \<Rightarrow> nat \<Rightarrow> u8 \<Rightarrow> cbor_error + u64 \<times> nat" where
  "decode_argument input cursor initial =
     (let additional = initial AND 0x1f
      in if additional \<le> 23 then Inr (ucast additional, cursor)
         else if additional = 24 then
           if cursor \<ge> length input then Inl UnexpectedEof
           else let v = ucast (input ! cursor)
                in if v < 24 then Inl NonCanonicalIntegerEncoding else Inr (v, cursor + 1)
         else if additional = 25 then
           if cursor + 2 > length input then Inl UnexpectedEof
           else let v = of_nat (be_val (byte_range input cursor 2))
                in if v \<le> 0xff then Inl NonCanonicalIntegerEncoding else Inr (v, cursor + 2)
         else if additional = 26 then
           if cursor + 4 > length input then Inl UnexpectedEof
           else let v = of_nat (be_val (byte_range input cursor 4))
                in if v \<le> 0xffff then Inl NonCanonicalIntegerEncoding else Inr (v, cursor + 4)
         else if additional = 27 then
           if cursor + 8 > length input then Inl UnexpectedEof
           else let v = of_nat (be_val (byte_range input cursor 8))
                in if v \<le> 0xffffffff then Inl NonCanonicalIntegerEncoding else Inr (v, cursor + 8)
         else if additional = 31 then Inl IndefiniteLengthForbidden
         else Inl (UnsupportedType initial))"

definition decode_header :: "bytes \<Rightarrow> nat \<Rightarrow> cbor_error + (u8 \<times> u64) \<times> nat" where
  "decode_header input cursor =
     (if cursor \<ge> length input then Inl UnexpectedEof
      else let initial = input ! cursor
           in res_map (\<lambda>(value, cursor). ((drop_bit 5 initial, value), cursor))
                (decode_argument input (cursor + 1) initial))"

definition decode_f16 :: "bytes \<Rightarrow> nat \<Rightarrow> cbor_error + cbor_value \<times> nat" where
  "decode_f16 input cursor =
     (if cursor + 2 > length input then Inl UnexpectedEof
      else let value = f16_bits_to_f64 (of_nat (be_val (byte_range input cursor 2)))
           in if is_nan64 value then Inl NonCanonicalFloat
              else if is_sign_negative64 value \<and> f64_eq value 0 then Inl NonCanonicalFloat
              else Inr (Float value, cursor + 2))"

definition decode_f32 :: "bytes \<Rightarrow> nat \<Rightarrow> cbor_error + cbor_value \<times> nat" where
  "decode_f32 input cursor =
     (if cursor + 4 > length input then Inl UnexpectedEof
      else let value = (of_nat (be_val (byte_range input cursor 4)) :: f32)
           in if is_nan32 value then Inl NonCanonicalFloat
              else if is_sign_negative32 value \<and> is_zero32 value then Inl NonCanonicalFloat
              else if f64_eq (f16_bits_to_f64 (f32_bits_to_f16 value)) (f32_to_f64 value)
              then Inl NonCanonicalFloat
              else Inr (Float (f32_to_f64 value), cursor + 4))"

definition decode_f64 :: "bytes \<Rightarrow> nat \<Rightarrow> cbor_error + cbor_value \<times> nat" where
  "decode_f64 input cursor =
     (if cursor + 8 > length input then Inl UnexpectedEof
      else let value = (of_nat (be_val (byte_range input cursor 8)) :: f64)
           in if is_nan64 value then Inl NonCanonicalFloat
              else if is_sign_negative64 value \<and> f64_eq value 0 then Inl NonCanonicalFloat
              else if f64_eq (f32_to_f64 (f64_to_f32 value)) value then Inl NonCanonicalFloat
              else Inr (Float value, cursor + 8))"

text \<open>Major type 7 of \<open>decode_value\<close>; \<open>cursor\<close> is past the initial byte.\<close>

definition decode_simple :: "bytes \<Rightarrow> nat \<Rightarrow> u8 \<Rightarrow> cbor_error + cbor_value \<times> nat" where
  "decode_simple input cursor initial =
     (let additional = initial AND 0x1f
      in if additional = 20 then Inr (Bool False, cursor)
         else if additional = 21 then Inr (Bool True, cursor)
         else if additional = 22 then Inr (Null, cursor)
         else if additional = 25 then decode_f16 input cursor
         else if additional = 26 then decode_f32 input cursor
         else if additional = 27 then decode_f64 input cursor
         else if additional = 24 then
           if cursor \<ge> length input then Inl UnexpectedEof
           else if input ! cursor < 24 then Inl NonCanonicalIntegerEncoding
           else Inl (UnsupportedType initial)
         else if additional = 31 then Inl IndefiniteLengthForbidden
         else Inl (UnsupportedType initial))"

text \<open>The key check of a map entry against the previous raw key.\<close>

definition check_key_order :: "bytes option \<Rightarrow> bytes \<Rightarrow> cbor_error + unit" where
  "check_key_order previous_raw_key raw_key =
     (case previous_raw_key of
        None \<Rightarrow> Inr ()
      | Some prev \<Rightarrow> (case compare_canonical_keys prev raw_key of
            Greater \<Rightarrow> Inl UnsortedMapKeys
          | Equal \<Rightarrow> Inl DuplicateMapKey
          | Less \<Rightarrow> Inr ()))"

function (sequential)
  decode_value :: "bytes \<Rightarrow> nat \<Rightarrow> nat \<Rightarrow> cbor_error + cbor_value \<times> nat"
  and decode_items :: "bytes \<Rightarrow> nat \<Rightarrow> nat \<Rightarrow> nat \<Rightarrow> cbor_error + cbor_value list \<times> nat"
  and decode_entries :: "bytes \<Rightarrow> nat \<Rightarrow> nat \<Rightarrow> bytes option \<Rightarrow> nat
        \<Rightarrow> cbor_error + (cbor_value \<times> cbor_value) list \<times> nat"
where
  "decode_value input cursor depth =
     (if depth > MAX_DEPTH then Inl DepthLimitExceeded
      else if cursor \<ge> length input then Inl UnexpectedEof
      else if drop_bit 5 (input ! cursor) = 7 then decode_simple input (cursor + 1) (input ! cursor)
      else res_bind (decode_header input cursor) (\<lambda>((major, value), cursor').
        let remaining = length input - cursor'; len = unat value
        in if major = 0 then Inr (Unsigned value, cursor')
           else if major = 1 then Inr (Negative value, cursor')
           else if major = 2 then
             if len > remaining then Inl LengthOverflow
             else Inr (Bytes (byte_range input cursor' len), cursor' + len)
           else if major = 3 then
             if len > remaining then Inl LengthOverflow
             else if \<not> utf8_valid (byte_range input cursor' len) then Inl InvalidUtf8
             else Inr (Text (byte_range input cursor' len), cursor' + len)
           else if major = 4 then
             if len > remaining then Inl LengthOverflow
             else res_map (\<lambda>(items, c). (Array items, c)) (decode_items input cursor' (depth + 1) len)
           else if major = 5 then
             if len > remaining then Inl LengthOverflow
             else res_map (\<lambda>(entries, c). (Map entries, c))
                    (decode_entries input cursor' (depth + 1) None len)
           else if major = 6 then
             if value \<notin> set TAG_ALLOWLIST then Inl (UnknownTag value)
             else res_map (\<lambda>(inner, c). (Tag value inner, c)) (decode_value input cursor' (depth + 1))
           else Inl (UnsupportedType (input ! cursor))))"
| "decode_items input cursor depth 0 = Inr ([], cursor)"
| "decode_items input cursor depth (Suc n) =
     res_bind (decode_value input cursor depth) (\<lambda>(item, c).
     res_map (\<lambda>(items, c'). (item # items, c')) (decode_items input c depth n))"
| "decode_entries input cursor depth prev 0 = Inr ([], cursor)"
| "decode_entries input cursor depth prev (Suc n) =
     res_bind (decode_value input cursor depth) (\<lambda>(key, key_end).
     let raw_key = byte_range input cursor (key_end - cursor)
     in res_bind (check_key_order prev raw_key) (\<lambda>_.
        res_bind (decode_value input key_end depth) (\<lambda>(val, c).
        res_map (\<lambda>(entries, c'). ((key, val) # entries, c'))
          (decode_entries input c depth (Some raw_key) n))))"
  by pat_completeness auto
termination
  by (relation "inv_image (less_than <*lex*> less_than) (\<lambda>x. case x of
        Inl (_, _, d) \<Rightarrow> (2 * (MAX_DEPTH + 2 - d), 0)
      | Inr (Inl (_, _, d, n)) \<Rightarrow> (2 * (MAX_DEPTH + 2 - d) + 1, n)
      | Inr (Inr (_, _, d, _, n)) \<Rightarrow> (2 * (MAX_DEPTH + 2 - d) + 1, n))")
    (auto simp: MAX_DEPTH_def)

declare decode_value.simps [simp del]

definition cbor_from_canonical_bytes :: "bytes \<Rightarrow> cbor_error + cbor_value" where
  "cbor_from_canonical_bytes input =
     res_bind (decode_value input 0 0) (\<lambda>(val, cursor).
       if cursor \<noteq> length input then Inl TrailingBytes else Inr val)"

section \<open>Ranges of the input\<close>

lemma byte_range_mid [simp]: "byte_range (pre @ bs @ rest) (length pre) (length bs) = bs"
  by (simp add: byte_range_def)

lemma byte_range_Cons_mid [simp]: "byte_range (pre @ b # bs @ rest) (Suc (length pre)) (length bs) = bs"
  using byte_range_mid [of "pre @ [b]" bs rest] by (simp del: byte_range_mid)

lemma length_byte_range [simp]: "start + len \<le> length input \<Longrightarrow> length (byte_range input start len) = len"
  by (simp add: byte_range_def)

lemma be_byte_range:
  assumes "start + n \<le> length input" "256 ^ n \<le> (2::nat) ^ LENGTH('a::len)"
  defines "v \<equiv> (of_nat (be_val (byte_range input start n)) :: 'a word)"
  shows "unat v = be_val (byte_range input start n)" "be_bytes n (unat v) = byte_range input start n"
proof -
  have "be_val (byte_range input start n) < 2 ^ LENGTH('a)"
    using be_val_bound [of "byte_range input start n"] assms(1,2) by simp
  then show *: "unat v = be_val (byte_range input start n)" by (simp add: v_def unat_of_nat)
  show "be_bytes n (unat v) = byte_range input start n" unfolding * using assms(1) by (simp add: be_bytes_be_val)
qed

lemma byte_range_after [simp]: "byte_range (pre @ a @ bs @ rest) (length pre + length a) (length bs) = bs"
  using byte_range_mid [of "pre @ a" bs rest] by simp

lemma byte_range_append:
  "a \<le> b \<Longrightarrow> b \<le> c \<Longrightarrow> byte_range input a (b - a) @ byte_range input b (c - b) = byte_range input a (c - a)"
proof -
  assume "a \<le> b" "b \<le> c"
  then have "c - a = (b - a) + (c - b)" "b = (b - a) + a" by simp_all
  then show ?thesis unfolding byte_range_def by (metis drop_drop take_add)
qed

lemma byte_range_Suc:
  "c < length input \<Longrightarrow> byte_range input c (Suc n) = input ! c # byte_range input (Suc c) n"
  by (simp add: byte_range_def Cons_nth_drop_Suc [symmetric])

section \<open>Heads\<close>

text \<open>A head is read back wherever it stands, and only a shortest head is accepted.\<close>

lemma decode_argument_major:
  assumes "k < 8" "cbor_major k v = initial # bs"
  shows "decode_argument (pre @ initial # bs @ rest) (Suc (length pre)) initial
    = Inr (v, Suc (length pre) + length bs)"
proof (cases rule: cbor_major_cases [of v k])
  case tiny
  then have "ucast v < (32 :: u8)" "ucast v \<le> (23 :: u8)"
    by (simp_all add: word_less_nat_alt word_le_nat_alt unsigned_ucast_eq take_bit_eq_mod)
  moreover have "(ucast (ucast v :: u8) :: u64) = v"
    using tiny(1) by (intro ucast_u8_u64) unat_arith
  ultimately show ?thesis
    using assms tiny head_byte [OF assms(1), of "ucast v"] by (simp add: decode_argument_def)
next
  case one
  have "(ucast (ucast v :: u8) :: u64) = v"
    using one(2) by (rule ucast_u8_u64)
  moreover have "\<not> v < 24" using one(1) by unat_arith
  ultimately show ?thesis
    using assms one head_byte [OF assms(1), of 24] by (auto simp: decode_argument_def nth_append)
next
  case two
  have "of_nat (be_val bs) = v" "length bs = 2" 
    using two assms(2) by (auto simp: word_le_nat_alt)
  then show ?thesis
    using assms two head_byte [OF assms(1), of 25] byte_range_Cons_mid [of pre initial bs rest]
    by (auto simp: decode_argument_def)
next
  case four
  have "of_nat (be_val bs) = v" "length bs = 4" 
    using four assms(2) by (auto simp: word_le_nat_alt)
  then show ?thesis
    using assms four head_byte [OF assms(1), of 26] byte_range_Cons_mid [of pre initial bs rest]
    by (auto simp: decode_argument_def)
next
  case eight
  have "unat v < 256 ^ 8" using unsigned_less [of v, where ?'a = nat] by simp
  then have "of_nat (be_val bs) = v" "length bs = 8" 
    using eight assms(2) by auto
  then show ?thesis
    using assms eight head_byte [OF assms(1), of 27] byte_range_Cons_mid [of pre initial bs rest]
    by (auto simp: decode_argument_def)
qed

lemma decode_header_major:
  assumes "k < 8"
  shows "decode_header (pre @ cbor_major k v @ rest) (length pre)
    = Inr ((k, v), length pre + length (cbor_major k v))"
proof -
  obtain initial bs where b: "cbor_major k v = initial # bs"
    using cbor_major_not_Nil [of k v] by (cases "cbor_major k v") auto
  then have "drop_bit 5 initial = k" using cbor_major_hd [OF assms, of v] by simp
  then show ?thesis using decode_argument_major [OF assms b, of pre rest] b
    by (simp add: decode_header_def nth_append)
qed

lemma decode_argument_sound:
  assumes "decode_argument input cursor initial = Inr (v, cursor')" "cursor \<le> length input"
  shows "cursor \<le> cursor' \<and> cursor' \<le> length input \<and>
    cbor_major (drop_bit 5 initial) v = initial # byte_range input cursor (cursor' - cursor)"
proof -
  define a where "a = initial AND 0x1f"
  have i: "push_bit 5 (drop_bit 5 initial) OR a = initial" by (simp add: a_def head_byte_split)
  note d = assms(1) [unfolded decode_argument_def Let_def, folded a_def]
  consider "a \<le> 23" | "\<not> a \<le> 23" "a = 24" | "\<not> a \<le> 23" "a = 25" | "\<not> a \<le> 23" "a = 26" | "\<not> a \<le> 23" "a = 27"
    using d by (auto split: if_splits)
  then show ?thesis
  proof cases
    case 1
    then have "v = ucast a" "cursor' = cursor" using d by simp_all
    moreover have "unat (ucast a :: u64) = unat a" by (rule unat_ucast_u8)
    then have "(ucast a :: u64) \<le> 23" "(ucast (ucast a :: u64) :: u8) = a"
      using 1 by (simp_all only: word_le_nat_alt ucast_ucast_u8) simp
    ultimately show ?thesis using assms(2) i by (simp add: cbor_major_def byte_range_def)
  next
    case 2
    then have v: "cursor < length input" "v = ucast (input ! cursor)" "\<not> v < 24" "cursor' = cursor + 1"
      using d by (auto split: if_splits)
    have "unat (ucast (input ! cursor) :: u64) = unat (input ! cursor)"
      by (rule unat_ucast_u8)
    then have "unat v = unat (input ! cursor)" "(ucast v :: u8) = input ! cursor"
      using v(2) by (simp_all only: ucast_ucast_u8)
    then have "v \<le> 0xff" "\<not> v \<le> 23" "(ucast v :: u8) = input ! cursor"
      using v(3) by (simp_all add: word_le_nat_alt word_less_nat_alt unat_u8_le)
    then show ?thesis using v(1,4) i 2
      by (simp add: cbor_major_def byte_range_def take_Suc_conv_app_nth hd_drop_conv_nth)
  next
    case 3
    then have v: "cursor + 2 \<le> length input" "v = of_nat (be_val (byte_range input cursor 2))"
        "\<not> v \<le> 0xff" "cursor' = cursor + 2"
      using d by (auto simp: not_less split: if_splits)
    note b = be_byte_range [where ?'a = 64, OF v(1), folded v(2)]
    have "v \<le> 0xffff" using be_val_bound [of "byte_range input cursor 2"] b(1) v(1)
      by (simp add: word_le_nat_alt)
    moreover have "\<not> v \<le> 23" using v(3) by unat_arith
    ultimately show ?thesis using v(1,3,4) i 3(2) b by (simp add: cbor_major_def)
  next
    case 4
    then have v: "cursor + 4 \<le> length input" "v = of_nat (be_val (byte_range input cursor 4))"
        "\<not> v \<le> 0xffff" "cursor' = cursor + 4"
      using d by (auto simp: not_less split: if_splits)
    note b = be_byte_range [where ?'a = 64, OF v(1), folded v(2)]
    have "v \<le> 0xffffffff" using be_val_bound [of "byte_range input cursor 4"] b(1) v(1)
      by (simp add: word_le_nat_alt)
    moreover have "\<not> v \<le> 23" "\<not> v \<le> 0xff" using v(3) by unat_arith+
    ultimately show ?thesis using v(1,3,4) i 4(2) b by (simp add: cbor_major_def)
  next
    case 5
    then have v: "cursor + 8 \<le> length input" "v = of_nat (be_val (byte_range input cursor 8))"
        "\<not> v \<le> 0xffffffff" "cursor' = cursor + 8"
      using d by (auto simp: not_less split: if_splits)
    note b = be_byte_range [where ?'a = 64, OF v(1), folded v(2)]
    have "\<not> v \<le> 23" "\<not> v \<le> 0xff" "\<not> v \<le> 0xffff" using v(3) by unat_arith+
    then show ?thesis using v(1,3,4) i 5(2) b by (simp add: cbor_major_def)
  qed
qed

lemma decode_header_sound:
  assumes "decode_header input cursor = Inr ((k, v), cursor')"
  shows "cursor < cursor' \<and> cursor' \<le> length input \<and> k < 8 \<and> k = drop_bit 5 (input ! cursor)
    \<and> byte_range input cursor (cursor' - cursor) = cbor_major k v"
proof -
  have c: "cursor < length input" "k = drop_bit 5 (input ! cursor)"
      "decode_argument input (cursor + 1) (input ! cursor) = Inr (v, cursor')"
    using assms by (auto simp: decode_header_def Let_def split: if_splits)
  from decode_argument_sound [OF c(3)] c(1)
  have d: "Suc cursor \<le> cursor'" "cursor' \<le> length input"
      "cbor_major k v = input ! cursor # byte_range input (Suc cursor) (cursor' - Suc cursor)"
    using c(2) by auto
  have "cursor' - cursor = Suc (cursor' - Suc cursor)" using d(1) by simp
  then have "byte_range input cursor (cursor' - cursor) = cbor_major k v"
    unfolding d(3) byte_range_def using c(1) by (simp add: Cons_nth_drop_Suc [symmetric])
  then show ?thesis using c d drop_bit_5_less [of "input ! cursor"] by simp
qed

end
