(* ===== verification/Cbor_Roundtrip.thy ===== *)
theory Cbor_Roundtrip
  imports Cbor_Decode "HOL-Library.Multiset"
begin

unbundle bit_operations_syntax

text \<open>
  The canonical encoder and the strict decoder are inverse to each other: what was encoded
  reads back as its canonical form (the entries of maps in key order), and every input the
  decoder accepts is exactly the encoding of the value it returns.
\<close>

section \<open>Encoded values read back\<close>

text \<open>\<open>decodes d b v\<close>: at depth \<open>d\<close> the bytes \<open>b\<close> read as \<open>v\<close> wherever they stand.\<close>

definition decodes :: "nat \<Rightarrow> bytes \<Rightarrow> cbor_value \<Rightarrow> bool" where
  "decodes d b v \<longleftrightarrow> (\<forall>pre rest. decode_value (pre @ b @ rest) (length pre) d = Inr (v, length pre + length b))"

text \<open>At depth \<open>d\<close> every accepted range of \<open>input\<close> is the encoding of its value.\<close>

definition reads_back :: "bytes \<Rightarrow> nat \<Rightarrow> bool" where
  "reads_back input d \<longleftrightarrow> (\<forall>c v c'. decode_value input c d = Inr (v, c') \<longrightarrow>
     c < c' \<and> c' \<le> length input \<and> try_encode v = Inr (byte_range input c (c' - c)) \<and> cbor_ok v
     \<and> d + cbor_depth v \<le> MAX_DEPTH)"

lemma decodesD: "decodes d b v \<Longrightarrow> decode_value (pre @ b @ rest) (length pre) d = Inr (v, length pre + length b)"
  by (simp add: decodes_def)

lemma decode_items_all:
  "list_all2 (decodes d) bs vs \<Longrightarrow>
   decode_items (pre @ concat bs @ rest) (length pre) d (length vs) = Inr (vs, length pre + length (concat bs))"
proof (induction arbitrary: pre rule: list_all2_induct)
  case (Cons b bs v vs)
  show ?case
    using decodesD [OF Cons(1), of pre "concat bs @ rest"] Cons(3) [of "pre @ b"] by simp
qed simp

lemma decode_entries_all:
  "list_all2 (\<lambda>(kb, vb) (k, v). decodes d kb k \<and> decodes d vb v) ps es \<Longrightarrow>
   sorted_wrt (<) (map (\<lambda>p. canonical_key (fst p)) ps) \<Longrightarrow>
   (\<forall>p0. prev = Some p0 \<longrightarrow> (\<forall>p\<in>set ps. canonical_key p0 < canonical_key (fst p))) \<Longrightarrow>
   decode_entries (pre @ concat (map (\<lambda>(k, v). k @ v) ps) @ rest) (length pre) d prev (length es)
     = Inr (es, length pre + length (concat (map (\<lambda>(k, v). k @ v) ps)))"
proof (induction arbitrary: pre prev rule: list_all2_induct)
  case (Cons p ps e es)
  obtain kb vb k v where p: "p = (kb, vb)" "e = (k, v)" by (cases p, cases e) auto
  have kd: "decodes d kb k" "decodes d vb v" using Cons(1) p by auto
  let ?tl = "concat (map (\<lambda>(k, v). k @ v) ps) @ rest"
  have 1: "decode_value (pre @ kb @ vb @ ?tl) (length pre) d = Inr (k, length pre + length kb)"
    using decodesD [OF kd(1), of pre "vb @ ?tl"] .
  have 2: "decode_value (pre @ kb @ vb @ ?tl) (length pre + length kb) d
      = Inr (v, length pre + length kb + length vb)"
    using decodesD [OF kd(2), of "pre @ kb" ?tl] by simp
  have 3: "check_key_order prev kb = Inr ()"
    using Cons(5) p by (cases prev) (auto simp: check_key_order_def compare_canonical_keys_cmp cmp_def)
  have 4: "decode_entries (pre @ kb @ vb @ ?tl) (length pre + length kb + length vb) d (Some kb) (length es)
      = Inr (es, length pre + length kb + length vb + length (concat (map (\<lambda>(k, v). k @ v) ps)))"
    using Cons(3) [of "Some kb" "pre @ kb @ vb"] Cons(4) p by (simp add: add.assoc)
  show ?case using 1 2 3 4 p by (simp add: Let_def)
qed simp

lemma decode_value_major:
  assumes "k < 7" "d \<le> MAX_DEPTH"
  shows "decode_value (pre @ cbor_major k v @ rest) (length pre) d =
     (let input = pre @ cbor_major k v @ rest; cursor' = length pre + length (cbor_major k v);
          remaining = length rest; len = unat v
      in if k = 0 then Inr (Unsigned v, cursor')
         else if k = 1 then Inr (Negative v, cursor')
         else if k = 2 then
           if len > remaining then Inl LengthOverflow
           else Inr (Bytes (byte_range input cursor' len), cursor' + len)
         else if k = 3 then
           if len > remaining then Inl LengthOverflow
           else if \<not> utf8_valid (byte_range input cursor' len) then Inl InvalidUtf8
           else Inr (Text (byte_range input cursor' len), cursor' + len)
         else if k = 4 then
           if len > remaining then Inl LengthOverflow
           else res_map (\<lambda>(items, c). (Array items, c)) (decode_items input cursor' (d + 1) len)
         else if k = 5 then
           if len > remaining then Inl LengthOverflow
           else res_map (\<lambda>(entries, c). (Map entries, c)) (decode_entries input cursor' (d + 1) None len)
         else if v \<notin> set TAG_ALLOWLIST then Inl (UnknownTag v)
         else res_map (\<lambda>(inner, c). (Tag v inner, c)) (decode_value input cursor' (d + 1)))"
proof -
  have "k < 8" using assms(1) by unat_arith
  then have k: "k < 8" "k \<noteq> 7" using assms(1) by auto
  have k6: "k = 0 \<or> k = 1 \<or> k = 2 \<or> k = 3 \<or> k = 4 \<or> k = 5 \<or> k = 6"
    using assms(1) by (simp add: word_unat_eq_iff word_less_nat_alt) linarith
  obtain b bs where b: "cbor_major k v = b # bs"
    using cbor_major_not_Nil [of k v] by (cases "cbor_major k v") auto
  have n: "(pre @ cbor_major k v @ rest) ! length pre = b" using b by (simp add: nth_append)
  have h: "drop_bit 5 b = k" using cbor_major_hd [OF k(1), of v] b by simp
  show ?thesis
    unfolding decode_value.simps [of "pre @ cbor_major k v @ rest" "length pre" d]
    unfolding n h decode_header_major [OF k(1)] res_bind_simps split Let_def
    using assms(2) k(2) k6 by (elim disjE) (simp_all add: cbor_major_not_Nil)
qed

lemma decodes_scalar:
  assumes "d \<le> MAX_DEPTH"
  shows "decodes d (cbor_unsigned v) (Unsigned v)" "decodes d (cbor_major 1 v) (Negative v)"
    "length b < 2 ^ 64 \<Longrightarrow> decodes d (cbor_bytes b) (Bytes b)"
    "length b < 2 ^ 64 \<Longrightarrow> utf8_valid b \<Longrightarrow> decodes d (cbor_text b) (Text b)"
  using assms
  by (simp_all add: decodes_def cbor_unsigned_def cbor_bytes_def cbor_text_def decode_value_major Let_def)

lemma decodes_simple:
  assumes "d \<le> MAX_DEPTH"
  shows "decodes d (cbor_boolean b) (Bool b)" "decodes d cbor_null Null"
  using assms
  by (cases b; simp add: decodes_def decode_value.simps cbor_boolean_def cbor_null_def nth_append
      decode_simple_def)+

lemma decodes_float:
  assumes "d \<le> MAX_DEPTH" "encode_float v = Inr b"
  shows "decodes d b (Float v)"
proof -
  have v: "\<not> is_nan64 v" "\<not> (is_sign_negative64 v \<and> f64_eq v 0)" "b = encode_minimal_float v"
    using assms(2) by (auto simp: encode_float_def split: if_splits)
  have d: "decode_value (pre @ h # bs @ rest) (length pre) d
      = decode_simple (pre @ h # bs @ rest) (Suc (length pre)) h" if "drop_bit 5 h = 7" for h bs pre rest
    using assms(1) that by (simp add: decode_value.simps nth_append)
  show ?thesis
  proof (cases "value_round_trips_as_f16 v")
    case (Some h)
    have b: "b = 0xf9 # be_bytes 2 (unat h)" using v(3) Some by (simp add: encode_minimal_float_def)
    have h: "f16_bits_to_f64 h = v" using value_round_trips_SomeD [OF Some v(2)] .
    have "unat h < 256 ^ 2" using unsigned_less [of h, where ?'a = nat] by simp
    then have e: "of_nat (be_val (be_bytes 2 (unat h))) = h" by (rule of_nat_be)
    have "decode_f16 (pre @ 0xf9 # be_bytes 2 (unat h) @ rest) (Suc (length pre))
        = Inr (Float v, length pre + 3)" for pre rest
      using byte_range_Cons_mid [of pre "0xf9" "be_bytes 2 (unat h)" rest] h e v(1,2)
      by (simp add: decode_f16_def)
    then show ?thesis unfolding b decodes_def by (simp add: d decode_simple_def)
  next
    case None
    show ?thesis
    proof (cases "f64_eq (f32_to_f64 (f64_to_f32 v)) v")
      case True
      define x where "x = f64_to_f32 v"
      have b: "b = 0xfa # be_bytes 4 (unat x)"
        using v(3) None True by (simp add: encode_minimal_float_def x_def)
      have x: "f32_to_f64 x = v" using single_eq_canonical [OF True None v(2)] by (simp add: x_def)
      have "\<not> is_nan32 x" using x v(1) is_nan_f32_to_f64 [of x] by simp
      moreover have "\<not> is_zero32 x"
        using f32_to_f64_zero [of x] x canonical_zero [OF _ v(2)] None value_round_trips_zero by auto
      moreover have "\<not> f64_eq (f16_bits_to_f64 (f32_bits_to_f16 x)) v"
        using None True by (auto simp: value_round_trips_as_f16_def x_def Let_def split: if_splits)
      moreover have "unat x < 256 ^ 4" using unsigned_less [of x, where ?'a = nat] by simp
      then have "of_nat (be_val (be_bytes 4 (unat x))) = x" by (rule of_nat_be)
      ultimately have "decode_f32 (pre @ 0xfa # be_bytes 4 (unat x) @ rest) (Suc (length pre))
          = Inr (Float v, length pre + 5)" for pre rest
        using byte_range_Cons_mid [of pre "0xfa" "be_bytes 4 (unat x)" rest] x
        by (simp add: decode_f32_def)
      then show ?thesis unfolding b decodes_def by (simp add: d decode_simple_def)
    next
      case False
      have b: "b = 0xfb # be_bytes 8 (unat v)"
        using v(3) None False by (simp add: encode_minimal_float_def)
      have "unat v < 256 ^ 8" using unsigned_less [of v, where ?'a = nat] by simp
      then have e: "of_nat (be_val (be_bytes 8 (unat v))) = v" by (rule of_nat_be)
      have "decode_f64 (pre @ 0xfb # be_bytes 8 (unat v) @ rest) (Suc (length pre))
          = Inr (Float v, length pre + 9)" for pre rest
        using byte_range_Cons_mid [of pre "0xfb" "be_bytes 8 (unat v)" rest] e v(1,2) False
        by (simp add: decode_f64_def)
      then show ?thesis unfolding b decodes_def by (simp add: d decode_simple_def)
    qed
  qed
qed

lemma decodes_array:
  assumes "d \<le> MAX_DEPTH" "length vs < 2 ^ 64" "list_all2 (decodes (Suc d)) bs vs" "\<forall>b\<in>set bs. b \<noteq> []"
  shows "decodes d (cbor_array (length vs) @ concat bs) (Array vs)"
proof -
  have "length vs \<le> length (concat bs)"
    using length_concat_ge [OF assms(4)] list_all2_lengthD [OF assms(3)] by simp
  then have "decode_value (pre @ (cbor_array (length vs) @ concat bs) @ rest) (length pre) d
      = Inr (Array vs, length pre + length (cbor_array (length vs) @ concat bs))" for pre rest
    using assms(1,2) decode_items_all [OF assms(3), of "pre @ cbor_array (length vs)" rest]
    by (simp add: cbor_array_def decode_value_major Let_def)
  then show ?thesis by (simp add: decodes_def)
qed

lemma decodes_map:
  assumes "d \<le> MAX_DEPTH" "length es < 2 ^ 64"
    "list_all2 (\<lambda>(kb, vb) (k, v). decodes (Suc d) kb k \<and> decodes (Suc d) vb v) ps es"
    "sorted_wrt (<) (map (\<lambda>p. canonical_key (fst p)) ps)" "\<forall>p\<in>set ps. fst p \<noteq> []"
  shows "decodes d (cbor_map (length es) @ concat (map (\<lambda>(k, v). k @ v) ps)) (Map es)"
proof -
  have "length es \<le> length (concat (map (\<lambda>(k, v). k @ v) ps))"
    using length_concat_ge [of "map (\<lambda>(k, v). k @ v) ps"] assms(5) list_all2_lengthD [OF assms(3)] by fastforce
  then have "decode_value (pre @ (cbor_map (length es) @ concat (map (\<lambda>(k, v). k @ v) ps)) @ rest) (length pre) d
      = Inr (Map es, length pre + length (cbor_map (length es) @ concat (map (\<lambda>(k, v). k @ v) ps)))" for pre rest
    using assms(1,2) decode_entries_all [OF assms(3,4), of None "pre @ cbor_map (length es)" rest]
    by (simp add: cbor_map_def decode_value_major Let_def)
  then show ?thesis by (simp add: decodes_def)
qed

theorem try_encode_decodes:
  "try_encode v = Inr b \<Longrightarrow> cbor_ok v \<Longrightarrow> d + cbor_depth v \<le> MAX_DEPTH \<Longrightarrow> decodes d b (canonical_form v)"
proof (induction v arbitrary: b d rule: cbor_value.induct)
  case (Array vs)
  obtain bs where bs: "list_all2 (\<lambda>v b. try_encode v = Inr b) vs bs" "b = cbor_array (length vs) @ concat bs"
    using Array.prems(1) by (auto simp: try_encode_items_Inr)
  have "decodes (Suc d) b' (canonical_form v)" if "v \<in> set vs" "try_encode v = Inr b'" for v b'
    using Array.IH [OF that(1,2), of "Suc d"] Array.prems(2,3) cbor_depth_items_le [OF that(1)] that(1)
    by (simp add: cbor_ok_items_all)
  then have "list_all2 (decodes (Suc d)) bs (map canonical_form vs)"
    using bs(1) by (auto simp: list_all2_conv_all_nth)
  moreover have "\<forall>b\<in>set bs. b \<noteq> []"
    using bs(1) by (auto simp: list_all2_conv_all_nth in_set_conv_nth) (metis try_encode_not_Nil)
  ultimately show ?case
    using decodes_array [of d "map canonical_form vs" bs] Array.prems(2,3) bs(2)
    by (simp add: canonical_items_map)
next
  case (Map es)
  obtain ps where ps: "list_all2 (\<lambda>(k, v) (kb, vb). try_encode k = Inr kb \<and> try_encode v = Inr vb) es ps"
      "encode_map_entries ps = Inr b"
    using Map.prems(1) by (auto simp: try_encode_entries_Inr)
  define R where "R p e \<longleftrightarrow> fst p = fst e \<and> fst p \<noteq> [] \<and> decodes (Suc d) (fst p) (fst (snd e))
    \<and> decodes (Suc d) (snd p) (snd (snd e))" for p :: "bytes \<times> bytes" and e :: "bytes \<times> cbor_value \<times> cbor_value"
  have *: "R (kb, vb) (encoded_key k, canonical_form k, canonical_form v)"
    if e: "(k, v) \<in> set es" "try_encode k = Inr kb" "try_encode v = Inr vb" for k v kb vb
  proof -
    have "cbor_ok k \<and> cbor_ok v" using Map.prems(2) e(1) by (auto simp: cbor_ok_entries_all)
    then have "decodes (Suc d) kb (canonical_form k)" "decodes (Suc d) vb (canonical_form v)"
      using Map.IH(1) [OF e(1), of k kb "Suc d"] Map.IH(2) [OF e(1), of v vb "Suc d"] e(2,3)
        cbor_depth_entries_le [OF e(1)] Map.prems(3) by auto
    then show ?thesis using e(2) try_encode_not_Nil [OF e(2)] by (simp add: R_def encoded_key_def)
  qed
  have "list_all2 R ps (canonical_entries es)"
    unfolding canonical_entries_map by (rule list_all2_map_swap [OF ps(1)]) (auto intro: *)
  then have s: "list_all2 R (sort_key (\<lambda>e. canonical_key (fst e)) ps)
      (sort_key (\<lambda>e. canonical_key (fst e)) (canonical_entries es))"
    by (rule list_all2_sort_key) (simp add: R_def)
  then have "list_all2 (\<lambda>(kb, vb) (k, v). decodes (Suc d) kb k \<and> decodes (Suc d) vb v)
      (sort_key (\<lambda>e. canonical_key (fst e)) ps)
      (map snd (sort_key (\<lambda>e. canonical_key (fst e)) (canonical_entries es)))"
    by (auto simp: list_all2_map2 R_def split: prod.splits elim: list_all2_mono)
  moreover have "\<forall>p\<in>set (sort_key (\<lambda>e. canonical_key (fst e)) ps). fst p \<noteq> []"
    using list_all2_fst_set [OF s] unfolding R_def by blast
  moreover have "length ps = length es" using ps(1) by (simp add: list_all2_lengthD)
  ultimately show ?case
    using decodes_map [of d "map snd (sort_key (\<lambda>e. canonical_key (fst e)) (canonical_entries es))"]
      sorted_wrt_less_distinct [of ps] ps(2) Map.prems(2,3)
    by (simp add: encode_map_entries_Inr canonical_entries_map)
qed (auto simp: decodes_scalar decodes_simple decodes_float TAG_ALLOWLIST_def)

section \<open>Accepted inputs are canonical\<close>

lemma decode_items_sound:
  assumes "reads_back input d" "decode_items input c d n = Inr (vs, c')" "c \<le> length input"
  shows "c \<le> c' \<and> c' \<le> length input \<and> length vs = n \<and> try_encode_items vs = Inr (byte_range input c (c' - c))
    \<and> cbor_ok_items vs \<and> (vs = [] \<or> d + cbor_depth_items vs \<le> Suc MAX_DEPTH)"
  using assms(2,3)
proof (induction n arbitrary: c vs)
  case 0
  then show ?case by (simp add: byte_range_def)
next
  case (Suc n)
  obtain v c1 us where v: "decode_value input c d = Inr (v, c1)" "decode_items input c1 d n = Inr (us, c')"
      "vs = v # us"
    using Suc.prems(1) by auto
  have h: "c < c1" "c1 \<le> length input" "try_encode v = Inr (byte_range input c (c1 - c))" "cbor_ok v"
      "d + cbor_depth v \<le> MAX_DEPTH"
    using assms(1) v(1) by (auto simp: reads_back_def)
  then show ?case using Suc.IH [OF v(2) h(2)] v(3) byte_range_append [of c c1 c' input] by auto
qed

lemma decode_entries_sound:
  assumes "reads_back input d" "decode_entries input c d prev n = Inr (es, c')" "c \<le> length input"
  shows "c \<le> c' \<and> c' \<le> length input \<and> length es = n \<and> cbor_ok_entries es
    \<and> (es = [] \<or> d + cbor_depth_entries es \<le> Suc MAX_DEPTH)
    \<and> (\<exists>ps. try_encode_entries es = Inr ps \<and> concat (map (\<lambda>(k, v). k @ v) ps) = byte_range input c (c' - c)
        \<and> sorted_wrt (<) (map (\<lambda>p. canonical_key (fst p)) ps)
        \<and> (\<forall>p0. prev = Some p0 \<longrightarrow> (\<forall>p\<in>set ps. canonical_key p0 < canonical_key (fst p))))"
  using assms(2,3)
proof (induction n arbitrary: c es prev)
  case 0
  then show ?case by (simp add: byte_range_def)
next
  case (Suc n)
  obtain k c1 v c2 us where v: "decode_value input c d = Inr (k, c1)"
      "check_key_order prev (byte_range input c (c1 - c)) = Inr ()"
      "decode_value input c1 d = Inr (v, c2)"
      "decode_entries input c2 d (Some (byte_range input c (c1 - c))) n = Inr (us, c')" "es = (k, v) # us"
    using Suc.prems(1) by (auto simp: Let_def)
  let ?kb = "byte_range input c (c1 - c)" and ?vb = "byte_range input c1 (c2 - c1)"
  have h: "c < c1" "c1 \<le> length input" "try_encode k = Inr ?kb" "cbor_ok k" "d + cbor_depth k \<le> MAX_DEPTH"
      "c1 < c2" "c2 \<le> length input" "try_encode v = Inr ?vb" "cbor_ok v" "d + cbor_depth v \<le> MAX_DEPTH"
    using assms(1) v(1,3) by (auto simp: reads_back_def)
  obtain ps where ps: "c2 \<le> c'" "c' \<le> length input" "length us = n" "cbor_ok_entries us"
      "us = [] \<or> d + cbor_depth_entries us \<le> Suc MAX_DEPTH"
      "try_encode_entries us = Inr ps" "concat (map (\<lambda>(k, v). k @ v) ps) = byte_range input c2 (c' - c2)"
      "sorted_wrt (<) (map (\<lambda>p. canonical_key (fst p)) ps)" "\<forall>p\<in>set ps. canonical_key ?kb < canonical_key (fst p)"
    using Suc.IH [OF v(4) h(7)] by auto
  have "canonical_key p0 < canonical_key ?kb" if "prev = Some p0" for p0
    using v(2) that by (simp add: check_key_order_def compare_canonical_keys_cmp cmp_def split: if_splits)
  moreover have "?kb @ ?vb @ byte_range input c2 (c' - c2) = byte_range input c (c' - c)"
    using byte_range_append [of c1 c2 c' input] byte_range_append [of c c1 c' input] h(1,6) ps(1) by simp
  ultimately show ?case using h ps v(5) by (auto intro!: exI [of _ "(?kb, ?vb) # ps"] dest: less_trans)
qed

lemma of_nat_be_val:
  assumes "c + n \<le> length input" "256 ^ n \<le> (2::nat) ^ LENGTH('a::len)"
  shows "be_bytes n (unat (of_nat (be_val (byte_range input c n)) :: 'a word)) = byte_range input c n"
  using be_byte_range(2) [OF assms] .

lemma decode_f16_sound:
  assumes "decode_f16 input c = Inr (v, c')"
  shows "\<exists>x. v = Float x \<and> c' = c + 2 \<and> c' \<le> length input
    \<and> encode_float x = Inr (0xf9 # byte_range input c 2)"
proof -
  define h where "h = (of_nat (be_val (byte_range input c 2)) :: u16)"
  have h: "c + 2 \<le> length input" "\<not> is_nan64 (f16_bits_to_f64 h)"
      "\<not> (is_sign_negative64 (f16_bits_to_f64 h) \<and> f64_eq (f16_bits_to_f64 h) 0)"
      "v = Float (f16_bits_to_f64 h)" "c' = c + 2"
    using assms by (auto simp: decode_f16_def h_def Let_def split: if_splits)
  have "be_bytes 2 (unat h) = byte_range input c 2"
    unfolding h_def using h(1) by (intro of_nat_be_val) simp_all
  then have "encode_minimal_float (f16_bits_to_f64 h) = 0xf9 # byte_range input c 2"
    using value_round_trips_f16_bits [OF h(2)] by (simp add: encode_minimal_float_def)
  then show ?thesis using h by (auto simp: encode_float_def)
qed

lemma decode_f32_sound:
  assumes "decode_f32 input c = Inr (v, c')"
  shows "\<exists>x. v = Float x \<and> c' = c + 4 \<and> c' \<le> length input
    \<and> encode_float x = Inr (0xfa # byte_range input c 4)"
proof -
  define s where "s = (of_nat (be_val (byte_range input c 4)) :: f32)"
  define x where "x = f32_to_f64 s"
  have h: "c + 4 \<le> length input" "\<not> is_nan32 s" "\<not> (is_sign_negative32 s \<and> is_zero32 s)"
      "\<not> f64_eq (f16_bits_to_f64 (f32_bits_to_f16 s)) x" "v = Float x" "c' = c + 4"
    using assms by (auto simp: decode_f32_def s_def x_def Let_def split: if_splits)
  have r: "f64_to_f32 x = s" using f64_to_f32_to_f64 [OF h(2)] by (simp add: x_def)
  have n: "\<not> is_nan64 x" using h(2) is_nan_f32_to_f64 by (simp add: x_def)
  have z: "\<not> (is_sign_negative64 x \<and> f64_eq x 0)"
    using f64_to_f32_zero [of x] h(3) unfolding r is_zero64_eq by blast
  have "value_round_trips_as_f16 x = None"
    using h(4) r by (simp add: value_round_trips_as_f16_def Let_def)
  moreover have "f64_eq (f32_to_f64 (f64_to_f32 x)) x" using f64_eq_refl [OF n] r by (simp add: x_def)
  moreover have "be_bytes 4 (unat s) = byte_range input c 4"
    unfolding s_def using h(1) by (intro of_nat_be_val) simp_all
  ultimately have "encode_minimal_float x = 0xfa # byte_range input c 4"
    using r by (simp add: encode_minimal_float_def)
  then show ?thesis using h n z by (auto simp: encode_float_def)
qed

lemma decode_f64_sound:
  assumes "decode_f64 input c = Inr (v, c')"
  shows "\<exists>x. v = Float x \<and> c' = c + 8 \<and> c' \<le> length input
    \<and> encode_float x = Inr (0xfb # byte_range input c 8)"
proof -
  define x where "x = (of_nat (be_val (byte_range input c 8)) :: f64)"
  have h: "c + 8 \<le> length input" "\<not> is_nan64 x" "\<not> (is_sign_negative64 x \<and> f64_eq x 0)"
      "\<not> f64_eq (f32_to_f64 (f64_to_f32 x)) x" "v = Float x" "c' = c + 8"
    using assms by (auto simp: decode_f64_def x_def Let_def split: if_splits)
  have "be_bytes 8 (unat x) = byte_range input c 8"
    unfolding x_def using h(1) by (intro of_nat_be_val) simp_all
  then have "encode_minimal_float x = 0xfb # byte_range input c 8"
    using h(4) by (simp add: encode_minimal_float_def value_round_trips_as_f16_def Let_def)
  then show ?thesis using h by (auto simp: encode_float_def)
qed

lemma decode_simple_sound:
  assumes "decode_simple input (Suc c) (input ! c) = Inr (v, c')" "drop_bit 5 (input ! c) = 7" "c < length input"
  shows "c < c' \<and> c' \<le> length input \<and> try_encode v = Inr (byte_range input c (c' - c)) \<and> cbor_ok v \<and> cbor_depth v = 0"
proof -
  define a where "a = input ! c AND 0x1f"
  have i: "input ! c = push_bit 5 7 OR a" using head_byte_split [of "input ! c"] assms(2) by (simp add: a_def)
  note d = assms(1) [unfolded decode_simple_def Let_def, folded a_def]
  consider "a = 20" | "a = 21" | "a = 22" | "a = 25" | "a = 26" | "a = 27"
    using d by (auto split: if_splits)
  then show ?thesis
  proof cases
    case 4
    then show ?thesis using d decode_f16_sound [of input "Suc c" v c'] i assms(3)
      by (auto simp: byte_range_Suc [of c input 2, simplified])
  next
    case 5
    then show ?thesis using d decode_f32_sound [of input "Suc c" v c'] i assms(3)
      by (auto simp: byte_range_Suc [of c input 4, simplified])
  next
    case 6
    then show ?thesis using d decode_f64_sound [of input "Suc c" v c'] i assms(3)
      by (auto simp: byte_range_Suc [of c input 8, simplified])
  qed (use d i assms(3) in \<open>auto simp: byte_range_Suc [of c input 0, simplified] cbor_boolean_def cbor_null_def
        byte_range_def take_Suc_conv_app_nth hd_drop_conv_nth\<close>)
qed

lemma reads_back_step:
  assumes "reads_back input (Suc d)"
  shows "reads_back input d"
  unfolding reads_back_def
proof (intro allI impI)
  fix c v c'
  assume dv: "decode_value input c d = Inr (v, c')"
  let ?goal = "c < c' \<and> c' \<le> length input \<and> try_encode v = Inr (byte_range input c (c' - c)) \<and> cbor_ok v
     \<and> d + cbor_depth v \<le> MAX_DEPTH"
  have c: "d \<le> MAX_DEPTH" "c < length input"
    using dv by (auto simp: decode_value.simps split: if_splits)
  show ?goal
  proof (cases "drop_bit 5 (input ! c) = 7")
    case True
    then show ?thesis using dv c decode_simple_sound [of input c v c'] by (simp add: decode_value.simps)
  next
    case False
    then obtain k w c1 where h: "decode_header input c = Inr ((k, w), c1)"
      using dv c by (auto simp: decode_value.simps)
    note s = decode_header_sound [OF h]
    have r: "byte_range input c (c' - c) = cbor_major k w @ byte_range input c1 (c' - c1)" if "c1 \<le> c'"
      using byte_range_append [of c c1 c' input] that s by simp
    note dv' = dv [unfolded decode_value.simps [of input c d], simplified c h res_bind_simps split Let_def]
    consider "k = 0" | "k = 1" | "k = 2" | "k = 3" | "k = 4" | "k = 5" | "k = 6" "w \<in> set TAG_ALLOWLIST"
      using dv' c False s by (auto split: if_splits)
    then show ?thesis
    proof cases
      case 1
      then show ?thesis using dv' c False s by (auto simp: cbor_unsigned_def)
    next
      case 2
      then show ?thesis using dv' c False s by auto
    next
      case 3
      then have "v = Bytes (byte_range input c1 (unat w))" "c' = c1 + unat w" "unat w \<le> length input - c1"
        using dv' c False s by (auto split: if_splits)
      then show ?thesis using r s c 3 by (auto simp: cbor_bytes_def)
    next
      case 4
      then have "v = Text (byte_range input c1 (unat w))" "c' = c1 + unat w" "unat w \<le> length input - c1"
          "utf8_valid (byte_range input c1 (unat w))"
        using dv' c False s by (auto split: if_splits)
      then show ?thesis using r s c 4 by (auto simp: cbor_text_def)
    next
      case 5
      then obtain vs where "v = Array vs" "decode_items input c1 (Suc d) (unat w) = Inr (vs, c')"
        using dv' c False s by (auto split: if_splits)
      then show ?thesis using decode_items_sound [OF assms, of c1 "unat w" vs c'] s r c 5
        by (auto simp: cbor_array_def)
    next
      case 6
      then obtain es where es: "v = Map es" "decode_entries input c1 (Suc d) None (unat w) = Inr (es, c')"
        using dv' c False s by (auto split: if_splits)
      then obtain ps where ps: "try_encode_entries es = Inr ps"
          "concat (map (\<lambda>(k, v). k @ v) ps) = byte_range input c1 (c' - c1)"
          "sorted_wrt (<) (map (\<lambda>p. canonical_key (fst p)) ps)"
        using decode_entries_sound [OF assms es(2)] s by auto
      have "length ps = length es" using ps(1) by (simp add: try_encode_entries_Inr list_all2_lengthD)
      moreover have "distinct (map fst ps)" "sort_key (\<lambda>e. canonical_key (fst e)) ps = ps"
        using ps(3) by (auto simp: strict_sorted_iff sort_key_id_if_sorted distinct_map inj_on_def)
      ultimately have "encode_map_entries ps = Inr (cbor_map (length es) @ byte_range input c1 (c' - c1))"
        using ps(2) by (simp add: encode_map_entries_Inr)
      then show ?thesis using decode_entries_sound [OF assms es(2)] s r c 6 es(1) ps(1)
        by (auto simp: cbor_map_def)
    next
      case 7
      then show ?thesis by (simp add: TAG_ALLOWLIST_def)
    qed
  qed
qed

lemma reads_back_all: "reads_back input d"
proof (induction "Suc MAX_DEPTH - d" arbitrary: d)
  case 0
  then show ?case by (auto simp: reads_back_def decode_value.simps)
next
  case (Suc n)
  then show ?case using reads_back_step [of input d] by simp
qed

section \<open>Properties of the codec\<close>

lemma decodes_from_canonical:
  "decodes 0 bs v \<Longrightarrow> cbor_from_canonical_bytes bs = Inr v"
  using decodesD [of 0 bs v "[]" "[]"] by (simp add: cbor_from_canonical_bytes_def)

lemma from_canonical_reads:
  assumes "cbor_from_canonical_bytes bs = Inr v"
  shows "try_encode v = Inr bs \<and> cbor_ok v \<and> cbor_depth v \<le> MAX_DEPTH"
proof -
  have "decode_value bs 0 0 = Inr (v, length bs)"
    using assms by (auto simp: cbor_from_canonical_bytes_def split: if_splits)
  then show ?thesis using reads_back_all [of bs 0] by (auto simp: reads_back_def byte_range_def)
qed

lemma encode_canonical_reads:
  assumes "cbor_to_canonical_bytes v = Inr bs" "cbor_ok v" "cbor_depth v \<le> MAX_DEPTH"
  shows "cbor_from_canonical_bytes bs = Inr (canonical_form v)"
  using decodes_from_canonical [OF try_encode_decodes [of v bs 0]] assms
  by (simp add: cbor_to_canonical_bytes_def)

text \<open>
  C8: a value that the canonical encoder accepts, nested at most \<open>MAX_DEPTH\<close> deep, is decoded
  from its encoding without an error and without trailing bytes; what comes back is the value
  with the entries of its maps in canonical key order.
\<close>

theorem cbor_encode_decode:
  assumes "cbor_to_canonical_bytes v = Inr bs" "cbor_ok v" "cbor_depth v \<le> MAX_DEPTH"
  shows "cbor_from_canonical_bytes bs = Inr (canonical_form v)"
  using assms by (rule encode_canonical_reads)

theorem cbor_encode_decode_witness:
  "cbor_from_canonical_bytes [0xa2, 0x01, 0xf5, 0x61, 0x61, 0x82, 0xf9, 0x3e, 0x00, 0x20]
     = Inr (Map [(Unsigned 1, Bool True), (Text [0x61], Array [Float 0x3ff8000000000000, Negative 0])])"
proof -
  let ?v = "Map [(Text [0x61], Array [Float 0x3ff8000000000000, Negative 0]), (Unsigned 1, Bool True)]"
  have "cbor_to_canonical_bytes ?v = Inr [0xa2, 0x01, 0xf5, 0x61, 0x61, 0x82, 0xf9, 0x3e, 0x00, 0x20]"
    by (simp add: cbor_eval float_eval wire_simps)
  moreover have "cbor_ok ?v" "cbor_depth ?v \<le> MAX_DEPTH" by (simp_all add: MAX_DEPTH_def)
  moreover have "canonical_form ?v
     = Map [(Unsigned 1, Bool True), (Text [0x61], Array [Float 0x3ff8000000000000, Negative 0])]"
    by (simp add: cbor_eval)
  ultimately show ?thesis using cbor_encode_decode [of ?v] by simp
qed

text \<open>
  C9: the strict decoder accepts an input only if it is the canonical encoding of the value it
  returns. So every accepted input is the unique encoding of its value, the value is in
  canonical form and its nesting respects the limit.
\<close>

theorem cbor_decode_encode:
  assumes "cbor_from_canonical_bytes bs = Inr v"
  shows "cbor_to_canonical_bytes v = Inr bs \<and> canonical_form v = v \<and> cbor_ok v \<and> cbor_depth v \<le> MAX_DEPTH"
  using from_canonical_reads [OF assms] encode_canonical_reads [of v bs] assms
  by (simp add: cbor_to_canonical_bytes_def)

theorem cbor_decode_encode_witness:
  "cbor_to_canonical_bytes (Array [Unsigned 500, Bytes [7]]) = Inr [0x82, 0x19, 0x01, 0xf4, 0x41, 0x07]"
proof -
  have "cbor_from_canonical_bytes [0x82, 0x19, 0x01, 0xf4, 0x41, 0x07] = Inr (Array [Unsigned 500, Bytes [7]])"
    by code_simp
  then show ?thesis using cbor_decode_encode by blast
qed

text \<open>
  C30: the encoding of a map depends only on its entries, not on the order in which they are held:
  reordering the entries of an encodable map gives the same bytes.
\<close>

theorem cbor_map_order_irrelevant:
  assumes "cbor_to_canonical_bytes (Map es) = Inr bs" "mset es' = mset es"
  shows "cbor_to_canonical_bytes (Map es') = Inr bs"
proof -
  let ?R = "\<lambda>(k, v) (kb, vb). try_encode k = Inr kb \<and> try_encode v = Inr vb"
  obtain ps where ps: "list_all2 ?R es ps" "encode_map_entries ps = Inr bs"
    using assms(1) by (auto simp: cbor_to_canonical_bytes_def try_encode_entries_Inr)
  obtain ps' where ps': "list_all2 ?R es' ps'" "mset ps' = mset ps"
    using list_all2_reorder_left_invariance [OF ps(1) assms(2)] by blast
  have d: "distinct (map fst ps)" using ps(2) by (simp add: encode_map_entries_Inr)
  have s: "set ps' = set ps" using ps'(2) by (metis set_mset_mset)
  have "distinct (map fst ps')" using d ps'(2) by (metis mset_eq_imp_distinct_iff mset_map)
  moreover have "sort_key (\<lambda>e. canonical_key (fst e)) ps' = sort_key (\<lambda>e. canonical_key (fst e)) ps"
    using d s ps'(2) by (intro sort_key_inj_key_eq) (auto simp: distinct_map inj_on_def)
  moreover have "length ps' = length ps" using ps'(2) by (rule mset_eq_length)
  ultimately have "encode_map_entries ps' = Inr bs" using ps(2) by (simp add: encode_map_entries_Inr)
  then show ?thesis using ps'(1) by (auto simp: cbor_to_canonical_bytes_def simp flip: try_encode_entries_Inr)
qed

theorem cbor_map_order_irrelevant_witness:
  "cbor_to_canonical_bytes (Map [(Unsigned 1, Null), (Text [], Null)]) = Inr [0xa2, 0x01, 0xf6, 0x60, 0xf6]"
proof -
  have "cbor_to_canonical_bytes (Map [(Text [], Null), (Unsigned 1, Null)]) = Inr [0xa2, 0x01, 0xf6, 0x60, 0xf6]"
    by (simp add: cbor_eval)
  then show ?thesis by (rule cbor_map_order_irrelevant) (simp add: add_mset_commute)
qed

text \<open>
  C31: a float is written in the narrowest of the three widths that represents it exactly: three
  bytes when some half-precision pattern has its value, otherwise five when some
  single-precision pattern has it, otherwise nine.
\<close>

theorem float_width_minimal:
  assumes "encode_float v = Inr b"
  shows "length b = (if \<exists>h. f16_bits_to_f64 h = v then 3 else if \<exists>x. f32_to_f64 x = v then 5 else 9)"
proof -
  have v: "\<not> is_nan64 v" "\<not> (is_sign_negative64 v \<and> f64_eq v 0)" "b = encode_minimal_float v"
    using assms by (auto simp: encode_float_def split: if_splits)
  have half: "value_round_trips_as_f16 v = Some h \<longleftrightarrow> f16_bits_to_f64 h = v" for h
    using value_round_trips_f16_bits [of h] value_round_trips_SomeD [OF _ v(2)] v(1) by blast
  have single: "f32_to_f64 (f64_to_f32 v) = v" if "f32_to_f64 x = v" for x
    using f64_to_f32_to_f64 [of x] is_nan_f32_to_f64 [of x] v(1) that by auto
  show ?thesis
  proof (cases "value_round_trips_as_f16 v")
    case (Some h)
    then show ?thesis using half [of h] v(3) by (auto simp: encode_minimal_float_def)
  next
    case None
    then have n: "\<nexists>h. f16_bits_to_f64 h = v" using half by auto
    show ?thesis
    proof (cases "f64_eq (f32_to_f64 (f64_to_f32 v)) v")
      case True
      then show ?thesis using n single_eq_canonical [OF True None v(2)] v(3) None
        by (auto simp: encode_minimal_float_def)
    next
      case False
      then have "\<nexists>x. f32_to_f64 x = v" using single f64_eq_refl [OF v(1)] by metis
      then show ?thesis using n v(3) None False by (simp add: encode_minimal_float_def)
    qed
  qed
qed

theorem float_width_minimal_witness:
  "\<exists>b. encode_float 0x40f86a0000000000 = Inr b \<and> length b = 5 \<and> (\<nexists>h. f16_bits_to_f64 h = 0x40f86a0000000000)"
proof -
  have "encode_float 0x40f86a0000000000 = Inr [0xfa, 0x47, 0xc3, 0x50, 0x00]"
    by (simp add: cbor_eval float_eval wire_simps)
  from float_width_minimal [OF this] this show ?thesis by (auto split: if_splits)
qed

end
