(* ===== verification/Cbor_Items.thy ===== *)
theory Cbor_Items
  imports Cbor_Roundtrip
begin

unbundle bit_operations_syntax

text \<open>
  The borrowed item reader of \<open>cbor/items.rs\<close> and the algebra of decoders built from it. A
  decoder takes a reader and gives an error, or a value and the advanced reader; every caller
  gives up the reader when an error is returned, so an error carries no reader.

  The locale \<open>codec\<close> is the contract between an encoder and a decoder: what was encoded is read
  back wherever it stands, consuming exactly its own bytes. Sequences, lists and prefix-freeness
  are proved once in it; the entry, snapshot and manifest formats interpret it.
\<close>

section \<open>The reader\<close>

datatype item =
    ItemUnsigned u64
  | ItemNegative u64
  | ItemBytes bytes
  | ItemText bytes
  | ItemArray nat
  | ItemMap nat
  | ItemBool bool
  | ItemNull
  | ItemFloat f64

record item_reader =
  rd_input :: bytes
  rd_cursor :: nat
  rd_depth :: nat

type_synonym ('e, 'a) decoder = "item_reader \<Rightarrow> 'e + 'a \<times> item_reader"

definition new_reader :: "bytes \<Rightarrow> item_reader" where
  "new_reader inp = \<lparr>rd_input = inp, rd_cursor = 0, rd_depth = 0\<rparr>"

definition remaining :: "item_reader \<Rightarrow> nat" where
  "remaining r = length (rd_input r) - rd_cursor r"

definition at_end :: "item_reader \<Rightarrow> bool" where
  "at_end r \<longleftrightarrow> rd_cursor r = length (rd_input r)"

text \<open>Sequencing with the question mark operator.\<close>

definition rd_return :: "'a \<Rightarrow> ('e, 'a) decoder" where
  "rd_return v r = Inr (v, r)"

definition rd_fail :: "'e \<Rightarrow> ('e, 'a) decoder" where
  "rd_fail e r = Inl e"

definition rd_bind :: "('e, 'a) decoder \<Rightarrow> ('a \<Rightarrow> ('e, 'b) decoder) \<Rightarrow> ('e, 'b) decoder" where
  "rd_bind m f r = res_bind (m r) (\<lambda>(v, r'). f v r')"

definition rd_map_err :: "('e \<Rightarrow> 'f) \<Rightarrow> ('e, 'a) decoder \<Rightarrow> ('f, 'a) decoder" where
  "rd_map_err g m r = map_err g (m r)"

definition rd_lift :: "'e + 'a \<Rightarrow> ('e, 'a) decoder" where
  "rd_lift x r = res_map (\<lambda>v. (v, r)) x"

text \<open>\<open>for _ in 0..n { out.push(read()?) }\<close>\<close>

primrec rd_repeat :: "('e, 'a) decoder \<Rightarrow> nat \<Rightarrow> ('e, 'a list) decoder" where
  "rd_repeat m 0 = rd_return []"
| "rd_repeat m (Suc n) = rd_bind m (\<lambda>v. rd_bind (rd_repeat m n) (\<lambda>vs. rd_return (v # vs)))"

definition checked_len :: "u64 \<Rightarrow> item_reader \<Rightarrow> cbor_error + nat" where
  "checked_len declared r = (if unat declared > remaining r then Inl LengthOverflow else Inr (unat declared))"

definition read_f16 :: "(cbor_error, f64) decoder" where
  "read_f16 r =
     (if rd_cursor r + 2 > length (rd_input r) then Inl UnexpectedEof
      else let v = f16_bits_to_f64 (of_nat (be_val (byte_range (rd_input r) (rd_cursor r) 2)))
           in if is_nan64 v then Inl NonCanonicalFloat
              else if is_sign_negative64 v \<and> f64_eq v 0 then Inl NonCanonicalFloat
              else Inr (v, r\<lparr>rd_cursor := rd_cursor r + 2\<rparr>))"

definition read_f32 :: "(cbor_error, f64) decoder" where
  "read_f32 r =
     (if rd_cursor r + 4 > length (rd_input r) then Inl UnexpectedEof
      else let v = (of_nat (be_val (byte_range (rd_input r) (rd_cursor r) 4)) :: f32)
           in if is_nan32 v then Inl NonCanonicalFloat
              else if is_sign_negative32 v \<and> is_zero32 v then Inl NonCanonicalFloat
              else if f64_eq (f16_bits_to_f64 (f32_bits_to_f16 v)) (f32_to_f64 v)
              then Inl NonCanonicalFloat
              else Inr (f32_to_f64 v, r\<lparr>rd_cursor := rd_cursor r + 4\<rparr>))"

definition read_f64 :: "(cbor_error, f64) decoder" where
  "read_f64 r =
     (if rd_cursor r + 8 > length (rd_input r) then Inl UnexpectedEof
      else let v = (of_nat (be_val (byte_range (rd_input r) (rd_cursor r) 8)) :: f64)
           in if is_nan64 v then Inl NonCanonicalFloat
              else if is_sign_negative64 v \<and> f64_eq v 0 then Inl NonCanonicalFloat
              else if f64_eq (f32_to_f64 (f64_to_f32 v)) v then Inl NonCanonicalFloat
              else Inr (v, r\<lparr>rd_cursor := rd_cursor r + 8\<rparr>))"

text \<open>Major type 7; the reader is already past the initial byte.\<close>

definition read_simple :: "u8 \<Rightarrow> (cbor_error, item) decoder" where
  "read_simple initial r =
     (let additional = initial AND 0x1f
      in if additional = 20 then Inr (ItemBool False, r)
         else if additional = 21 then Inr (ItemBool True, r)
         else if additional = 22 then Inr (ItemNull, r)
         else if additional = 25 then res_map (map_prod ItemFloat id) (read_f16 r)
         else if additional = 26 then res_map (map_prod ItemFloat id) (read_f32 r)
         else if additional = 27 then res_map (map_prod ItemFloat id) (read_f64 r)
         else if additional = 24 then
           if rd_cursor r \<ge> length (rd_input r) then Inl UnexpectedEof
           else let v = rd_input r ! rd_cursor r
                in if v < 24 then Inl NonCanonicalIntegerEncoding
                   else Inr (ItemUnsigned (ucast v), r\<lparr>rd_cursor := rd_cursor r + 1\<rparr>)
         else if additional = 31 then Inl IndefiniteLengthForbidden
         else Inl (UnsupportedType initial))"

definition read_item_inner :: "(cbor_error, item) decoder" where
  "read_item_inner r =
     (if rd_cursor r \<ge> length (rd_input r) then Inl UnexpectedEof
      else let initial = rd_input r ! rd_cursor r
      in if drop_bit 5 initial = 7 then read_simple initial (r\<lparr>rd_cursor := rd_cursor r + 1\<rparr>)
      else res_bind (decode_header (rd_input r) (rd_cursor r)) (\<lambda>((major, val), c).
        let r' = r\<lparr>rd_cursor := c\<rparr>
        in if major = 0 then Inr (ItemUnsigned val, r')
           else if major = 1 then Inr (ItemNegative val, r')
           else if major = 2 then res_map (\<lambda>len. (ItemBytes (byte_range (rd_input r) c len), r'\<lparr>rd_cursor := c + len\<rparr>))
                                    (checked_len val r')
           else if major = 3 then res_bind (checked_len val r') (\<lambda>len.
                if \<not> utf8_valid (byte_range (rd_input r) c len) then Inl InvalidUtf8
                else Inr (ItemText (byte_range (rd_input r) c len), r'\<lparr>rd_cursor := c + len\<rparr>))
           else if major = 4 then res_map (\<lambda>n. (ItemArray n, r')) (checked_len val r')
           else if major = 5 then res_map (\<lambda>n. (ItemMap n, r')) (checked_len val r')
           else Inl (UnsupportedType initial)))"

definition read_item :: "(cbor_error, item) decoder" where
  "read_item r =
     (let r' = r\<lparr>rd_depth := rd_depth r + 1\<rparr>
      in if rd_depth r' > MAX_DEPTH then Inl DepthLimitExceeded
         else res_map (\<lambda>(it, r''). (it, r''\<lparr>rd_depth := rd_depth r'' - 1\<rparr>)) (read_item_inner r'))"

definition read_unsigned :: "(cbor_error, u64) decoder" where
  "read_unsigned = rd_bind read_item (\<lambda>it. case it of ItemUnsigned v \<Rightarrow> rd_return v | _ \<Rightarrow> rd_fail (UnsupportedType 0))"

definition read_bytes :: "(cbor_error, bytes) decoder" where
  "read_bytes = rd_bind read_item (\<lambda>it. case it of ItemBytes b \<Rightarrow> rd_return b | _ \<Rightarrow> rd_fail (UnsupportedType 0))"

definition read_text :: "(cbor_error, bytes) decoder" where
  "read_text = rd_bind read_item (\<lambda>it. case it of ItemText t \<Rightarrow> rd_return t | _ \<Rightarrow> rd_fail (UnsupportedType 0))"

definition read_bool :: "(cbor_error, bool) decoder" where
  "read_bool = rd_bind read_item (\<lambda>it. case it of ItemBool b \<Rightarrow> rd_return b | _ \<Rightarrow> rd_fail (UnsupportedType 0))"

definition read_array :: "(cbor_error, nat) decoder" where
  "read_array = rd_bind read_item (\<lambda>it. case it of ItemArray n \<Rightarrow> rd_return n | _ \<Rightarrow> rd_fail (UnsupportedType 0))"

definition read_null :: "(cbor_error, unit) decoder" where
  "read_null = rd_bind read_item (\<lambda>it. case it of ItemNull \<Rightarrow> rd_return () | _ \<Rightarrow> rd_fail (UnsupportedType 0))"

definition item_to_owned :: "item \<Rightarrow> cbor_error + cbor_value" where
  "item_to_owned it =
     (case it of
        ItemUnsigned v \<Rightarrow> Inr (Unsigned v)
      | ItemNegative v \<Rightarrow> Inr (Negative v)
      | ItemBytes b \<Rightarrow> Inr (Bytes b)
      | ItemText t \<Rightarrow> Inr (Text t)
      | ItemArray _ \<Rightarrow> Inl (UnsupportedType 0)
      | ItemMap _ \<Rightarrow> Inl (UnsupportedType 0)
      | ItemBool b \<Rightarrow> Inr (Bool b)
      | ItemNull \<Rightarrow> Inr Null
      | ItemFloat f \<Rightarrow> Inr (Float f))"

section \<open>What a decoder reads\<close>

text \<open>\<open>reads m b v\<close>: wherever \<open>b\<close> stands in the input, \<open>m\<close> consumes exactly \<open>b\<close> and returns \<open>v\<close>.\<close>

abbreviation reader_at :: "bytes \<Rightarrow> nat \<Rightarrow> item_reader" where
  "reader_at inp c \<equiv> \<lparr>rd_input = inp, rd_cursor = c, rd_depth = 0\<rparr>"

definition reads :: "('e, 'a) decoder \<Rightarrow> bytes \<Rightarrow> 'a \<Rightarrow> bool" where
  "reads m b v \<longleftrightarrow> (\<forall>pre rest. m (reader_at (pre @ b @ rest) (length pre))
     = Inr (v, reader_at (pre @ b @ rest) (length pre + length b)))"

lemma readsD: "reads m b v \<Longrightarrow> m (reader_at (pre @ b @ rest) (length pre))
    = Inr (v, reader_at (pre @ b @ rest) (length pre + length b))"
  by (simp add: reads_def)

lemma reads_return: "reads (rd_return v) [] v"
  by (simp add: reads_def rd_return_def)

lemma reads_return_eq: "v = w \<Longrightarrow> reads (rd_return v) [] w"
  by (simp add: reads_return)

lemma reads_bind:
  assumes "reads m a x" "reads (f x) b y"
  shows "reads (rd_bind m f) (a @ b) y"
  unfolding reads_def
proof (intro allI)
  fix pre rest
  show "rd_bind m f (reader_at (pre @ (a @ b) @ rest) (length pre))
      = Inr (y, reader_at (pre @ (a @ b) @ rest) (length pre + length (a @ b)))"
    using readsD [OF assms(1), of pre "b @ rest"] readsD [OF assms(2), of "pre @ a" rest]
    by (simp add: rd_bind_def)
qed

lemma reads_map_err: "reads m b v \<Longrightarrow> reads (rd_map_err g m) b v"
  by (simp add: reads_def rd_map_err_def)

lemma reads_lift: "x = Inr v \<Longrightarrow> reads (rd_lift x) [] v"
  by (simp add: reads_def rd_lift_def)

lemma reads_bind_last: "reads m a x \<Longrightarrow> reads (f x) [] y \<Longrightarrow> reads (rd_bind m f) a y"
  using reads_bind [of m a x f "[]"] by simp

lemma reads_bind_return: "reads m a x \<Longrightarrow> reads (rd_bind m (\<lambda>x. rd_return (g x))) a (g x)"
  using reads_bind [of m a x "\<lambda>x. rd_return (g x)" "[]"] by (simp add: reads_return)

lemma reads_inj: "reads m b v \<Longrightarrow> reads m b w \<Longrightarrow> v = w"
  using readsD [of m b v "[]" "[]"] readsD [of m b w "[]" "[]"] by simp

text \<open>The strict decoder and the item reader agree on what the strict decoder accepts.\<close>

lemma decode_float_read:
  "decode_f16 inp c = Inr (v, c') \<Longrightarrow> \<exists>x. v = Float x \<and>
     read_f16 \<lparr>rd_input = inp, rd_cursor = c, rd_depth = d\<rparr> = Inr (x, \<lparr>rd_input = inp, rd_cursor = c', rd_depth = d\<rparr>)"
  "decode_f32 inp c = Inr (v, c') \<Longrightarrow> \<exists>x. v = Float x \<and>
     read_f32 \<lparr>rd_input = inp, rd_cursor = c, rd_depth = d\<rparr> = Inr (x, \<lparr>rd_input = inp, rd_cursor = c', rd_depth = d\<rparr>)"
  "decode_f64 inp c = Inr (v, c') \<Longrightarrow> \<exists>x. v = Float x \<and>
     read_f64 \<lparr>rd_input = inp, rd_cursor = c, rd_depth = d\<rparr> = Inr (x, \<lparr>rd_input = inp, rd_cursor = c', rd_depth = d\<rparr>)"
  unfolding decode_f16_def read_f16_def decode_f32_def read_f32_def decode_f64_def read_f64_def Let_def
    item_reader.simps
  by (auto split: if_splits)

lemma decode_simple_read:
  assumes "decode_simple inp c i = Inr (v, c')"
  shows "\<exists>it. read_simple i \<lparr>rd_input = inp, rd_cursor = c, rd_depth = d\<rparr>
     = Inr (it, \<lparr>rd_input = inp, rd_cursor = c', rd_depth = d\<rparr>) \<and> item_to_owned it = Inr v"
proof -
  define a where "a = i AND 0x1f"
  note e = assms [unfolded decode_simple_def Let_def, folded a_def]
  note s = read_simple_def [of i, unfolded Let_def, folded a_def]
  consider "a = 20" | "a = 21" | "a = 22" | "a = 25" | "a = 26" | "a = 27"
    using e by (auto split: if_splits)
  then show ?thesis
  proof cases
    case 4 then show ?thesis using e decode_float_read(1) [of inp c v c' d] by (auto simp: s item_to_owned_def)
  next
    case 5 then show ?thesis using e decode_float_read(2) [of inp c v c' d] by (auto simp: s item_to_owned_def)
  next
    case 6 then show ?thesis using e decode_float_read(3) [of inp c v c' d] by (auto simp: s item_to_owned_def)
  qed (use e in \<open>auto simp: s item_to_owned_def\<close>)
qed

lemma decode_value_read_item:
  assumes "decode_value inp c d = Inr (v, c')"
  shows "(\<exists>it. read_item (reader_at inp c) = Inr (it, reader_at inp c') \<and> item_to_owned it = Inr v)
    \<or> (\<exists>vs c1. v = Array vs \<and> read_item (reader_at inp c) = Inr (ItemArray (length vs), reader_at inp c1)
        \<and> decode_items inp c1 (Suc d) (length vs) = Inr (vs, c'))
    \<or> (\<exists>es c1. v = Map es \<and> read_item (reader_at inp c) = Inr (ItemMap (length es), reader_at inp c1)
        \<and> decode_entries inp c1 (Suc d) None (length es) = Inr (es, c'))"
proof -
  have c: "c < length inp"
    using assms unfolding decode_value.simps [of inp c d] by (auto split: if_splits)
  show ?thesis
  proof (cases "drop_bit 5 (inp ! c) = 7")
    case True
    then have "decode_simple inp (Suc c) (inp ! c) = Inr (v, c')"
      using assms c unfolding decode_value.simps [of inp c d] by (simp split: if_splits)
    from decode_simple_read [OF this, of 1] show ?thesis
      using True c by (auto simp: read_item_def read_item_inner_def MAX_DEPTH_def)
  next
    case False
    obtain k w c1 where h: "decode_header inp c = Inr ((k, w), c1)"
      using assms False c unfolding decode_value.simps [of inp c d] by (auto split: if_splits)
    have len: "decode_items inp c1 (Suc d) n = Inr (vs, c') \<Longrightarrow> length vs = n"
         "decode_entries inp c1 (Suc d) None n = Inr (es, c') \<Longrightarrow> length es = n" for n vs es
      using decode_items_sound [OF reads_back_all] decode_entries_sound [OF reads_back_all]
        decode_header_sound [OF h] by blast+
    have d: "d \<le> MAX_DEPTH"
      using assms unfolding decode_value.simps [of inp c d] by (simp split: if_splits)
    note dv = assms [unfolded decode_value.simps [of inp c d], simplified c d h res_bind_simps split Let_def]
    have dep: "Suc 0 \<le> MAX_DEPTH" by (simp add: MAX_DEPTH_def)
    note rd = read_item_def read_item_inner_def checked_len_def remaining_def Let_def h item_to_owned_def
    consider "k = 0" | "k = 1" | "k = 2" | "k = 3" | "k = 4" | "k = 5" | "k = 6" "w \<in> set TAG_ALLOWLIST"
      using dv c False by (auto split: if_splits)
    then show ?thesis
    proof cases
      case 1 then show ?thesis using dv c d dep False by (simp add: rd)
    next
      case 2 then show ?thesis using dv c d dep False by (simp add: rd)
    next
      case 3 then show ?thesis using dv c d dep False by (simp add: rd split: if_splits)
    next
      case 4 then show ?thesis using dv c d dep False by (simp add: rd split: if_splits)
    next
      case 5
      then obtain vs where "v = Array vs" "decode_items inp c1 (Suc d) (unat w) = Inr (vs, c')"
          "unat w \<le> length inp - c1"
        using dv c d False by (auto split: if_splits)
      then show ?thesis using 5 c dep False len(1) by (simp add: rd)
    next
      case 6
      then obtain es where "v = Map es" "decode_entries inp c1 (Suc d) None (unat w) = Inr (es, c')"
          "unat w \<le> length inp - c1"
        using dv c d False by (auto split: if_splits)
      then show ?thesis using 6 c dep False len(2) by (simp add: rd)
    next
      case 7 then show ?thesis by (simp add: TAG_ALLOWLIST_def)
    qed
  qed
qed


lemma item_to_owned_inj: "item_to_owned a = Inr v \<Longrightarrow> item_to_owned b = Inr v \<Longrightarrow> a = b"
  by (cases a; cases b) (auto simp: item_to_owned_def)

lemma item_to_owned_scalar [simp]:
  "item_to_owned it \<noteq> Inr (Array vs)" "item_to_owned it \<noteq> Inr (Map es)"
  by (cases it; auto simp: item_to_owned_def)+

lemma reads_item:
  assumes "decodes d b v" "item_to_owned it = Inr v"
  shows "reads read_item b it"
  unfolding reads_def
proof (intro allI)
  fix pre rest
  obtain it' where "read_item (reader_at (pre @ b @ rest) (length pre))
      = Inr (it', reader_at (pre @ b @ rest) (length pre + length b))" "item_to_owned it' = Inr v"
    using decode_value_read_item [OF decodesD [OF assms(1), of pre rest]] assms(2) by auto
  then show "read_item (reader_at (pre @ b @ rest) (length pre))
      = Inr (it, reader_at (pre @ b @ rest) (length pre + length b))"
    using item_to_owned_inj [OF assms(2), of it'] by simp
qed

lemma reads_unsigned: "reads read_unsigned (cbor_unsigned v) v"
proof -
  have "reads read_item (cbor_unsigned v) (ItemUnsigned v)"
    by (rule reads_item [OF decodes_scalar(1) [of 0]]) (simp_all add: item_to_owned_def)
  then show ?thesis unfolding read_unsigned_def by (rule reads_bind_last) (simp add: reads_return)
qed

lemma reads_bytes:
  assumes "length b < 2 ^ 64"
  shows "reads read_bytes (cbor_bytes b) b"
proof -
  have "reads read_item (cbor_bytes b) (ItemBytes b)"
    by (rule reads_item [OF decodes_scalar(3) [of 0]]) (use assms in \<open>simp_all add: item_to_owned_def\<close>)
  then show ?thesis unfolding read_bytes_def by (rule reads_bind_last) (simp add: reads_return)
qed

lemma reads_text:
  assumes "length b < 2 ^ 64" "utf8_valid b"
  shows "reads read_text (cbor_text b) b"
proof -
  have "reads read_item (cbor_text b) (ItemText b)"
    by (rule reads_item [OF decodes_scalar(4) [of 0]]) (use assms in \<open>simp_all add: item_to_owned_def\<close>)
  then show ?thesis unfolding read_text_def by (rule reads_bind_last) (simp add: reads_return)
qed

lemma reads_null_item: "reads read_item cbor_null ItemNull"
  by (rule reads_item [OF decodes_simple(2) [of 0]]) (simp_all add: item_to_owned_def)

lemma reads_bytes_item: "length b < 2 ^ 64 \<Longrightarrow> reads read_item (cbor_bytes b) (ItemBytes b)"
  by (rule reads_item [OF decodes_scalar(3) [of 0]]) (simp_all add: item_to_owned_def)

lemma reads_bool: "reads read_bool (cbor_boolean b) b"
proof -
  have "reads read_item (cbor_boolean b) (ItemBool b)"
    by (rule reads_item [OF decodes_simple(1) [of 0]]) (simp_all add: item_to_owned_def)
  then show ?thesis unfolding read_bool_def by (rule reads_bind_last) (simp add: reads_return)
qed

text \<open>An array head is only accepted in front of at least as many bytes as it announces items.\<close>

lemma reads_array_bind:
  assumes "n < 2 ^ 64" "n \<le> length b" "reads (f n) b y"
  shows "reads (rd_bind read_array f) (cbor_array n @ b) y"
  unfolding reads_def
proof (intro allI)
  fix pre rest
  let ?inp = "pre @ cbor_array n @ b @ rest"
  obtain h hs where h: "cbor_array n = h # hs"
    using cbor_major_not_Nil [of 4 "of_nat n"] by (cases "cbor_array n") (auto simp: cbor_array_def)
  have "drop_bit 5 h = 4" using cbor_major_hd [of 4 "of_nat n"] h by (simp add: cbor_array_def)
  moreover have "decode_header ?inp (length pre) = Inr ((4, of_nat n), length pre + length (cbor_array n))"
    using decode_header_major [of 4 pre "of_nat n" "b @ rest"] by (simp add: cbor_array_def)
  ultimately have "read_item (reader_at ?inp (length pre))
      = Inr (ItemArray n, reader_at ?inp (length pre + length (cbor_array n)))"
    using assms(1,2) h
    by (simp add: read_item_def read_item_inner_def nth_append checked_len_def remaining_def MAX_DEPTH_def)
  then show "rd_bind read_array f (reader_at (pre @ (cbor_array n @ b) @ rest) (length pre))
      = Inr (y, reader_at (pre @ (cbor_array n @ b) @ rest) (length pre + length (cbor_array n @ b)))"
    using readsD [OF assms(3), of "pre @ cbor_array n" rest]
    by (simp add: rd_bind_def read_array_def rd_return_def add.assoc)
qed

section \<open>Codecs\<close>

text \<open>
  A partial codec: when the encoder succeeds on a well-formed value, the decoder reads the value
  back from its bytes.
\<close>

locale partial_codec =
  fixes enc :: "'a \<Rightarrow> 'x + bytes" and dec :: "('e, 'a) decoder" and wf :: "'a \<Rightarrow> bool"
  assumes reads_enc: "wf x \<Longrightarrow> enc x = Inr b \<Longrightarrow> reads dec b x"
begin

lemma prefix_free:
  assumes "wf x" "wf y" "enc x = Inr a" "enc y = Inr b" "a @ r = b @ s"
  shows "x = y \<and> r = s"
proof -
  have "dec (reader_at (a @ r) 0) = Inr (x, reader_at (a @ r) (length a))"
    using readsD [OF reads_enc [OF assms(1,3)], of "[]" r] by simp
  moreover have "dec (reader_at (b @ s) 0) = Inr (y, reader_at (b @ s) (length b))"
    using readsD [OF reads_enc [OF assms(2,4)], of "[]" s] by simp
  ultimately show ?thesis using assms(3-5) by auto
qed

lemma enc_inj:
  "wf x \<Longrightarrow> wf y \<Longrightarrow> enc x = Inr b \<Longrightarrow> enc y = Inr b \<Longrightarrow> x = y"
  using prefix_free [of x y b b "[]" "[]"] by simp

end

locale codec =
  fixes enc :: "'a \<Rightarrow> bytes" and dec :: "('e, 'a) decoder" and wf :: "'a \<Rightarrow> bool"
  assumes reads_enc_total: "wf x \<Longrightarrow> reads dec (enc x) x"
begin

lemma reads_list:
  "list_all wf xs \<Longrightarrow> reads (rd_repeat dec (length xs)) (concat (map enc xs)) xs"
proof (induction xs)
  case Nil
  then show ?case by (simp add: reads_return)
next
  case (Cons x xs)
  then have "reads dec (enc x) x" "reads (rd_repeat dec (length xs)) (concat (map enc xs)) xs"
    using reads_enc_total by simp_all
  then show ?case by (simp add: reads_bind reads_bind_return)
qed

end

sublocale codec \<subseteq> part: partial_codec "\<lambda>x. Inr (enc x)" dec wf
  by unfold_locales (auto intro: reads_enc_total)

interpretation unsigned_codec: codec cbor_unsigned read_unsigned "\<lambda>_. True"
  by unfold_locales (rule reads_unsigned)

interpretation bytes_codec: codec cbor_bytes read_bytes "\<lambda>b. length b < 2 ^ 64"
  by unfold_locales (rule reads_bytes)

end
