(* ===== verification/Canonical_Value.thy ===== *)
theory Canonical_Value
  imports Cbor_Items
begin

unbundle bit_operations_syntax

text \<open>
  Bounded canonical values (\<open>value.rs\<close>) and their reader (\<open>ItemReader::read_value\<close> in
  \<open>cbor/items.rs\<close>).

  \<open>Budget::visit\<close> only ever counts up, so every call of the encoder or of the reader for a nested
  value finds a larger count. The recursion is bounded by that count: the fuel
  \<open>MAX_CANONICAL_VALUE_DEPTH + 1\<close> of the model is never used up before \<open>visit\<close> fails.
\<close>

section \<open>Values and budgets\<close>

definition MAX_CANONICAL_VALUE_DEPTH :: nat where
  "MAX_CANONICAL_VALUE_DEPTH = 32"

definition MAX_CANONICAL_VALUE_ITEMS :: nat where
  "MAX_CANONICAL_VALUE_ITEMS = 65536"

definition MAX_CANONICAL_VALUE_STRING_BYTES :: nat where
  "MAX_CANONICAL_VALUE_STRING_BYTES = 1024 * 1024"

datatype canonical_value =
    CvUnsigned u64
  | CvNegative u64
  | CvBytes bytes
  | CvText bytes
  | CvArray "canonical_value list"
  | CvMap "(canonical_value \<times> canonical_value) list"
  | CvBool bool
  | CvNull
  | CvFloat f64

datatype value_error = BoundsExceeded string | Cbor cbor_error

record budget =
  bdepth :: nat
  bitems :: nat

definition budget_new :: budget where
  "budget_new = \<lparr>bdepth = 0, bitems = 0\<rparr>"

definition visit :: "budget \<Rightarrow> value_error + budget" where
  "visit b =
     (let b = b\<lparr>bdepth := bdepth b + 1\<rparr>
      in if bdepth b > MAX_CANONICAL_VALUE_DEPTH then Inl (BoundsExceeded ''nesting depth'')
         else let b = b\<lparr>bitems := bitems b + 1\<rparr>
              in if bitems b > MAX_CANONICAL_VALUE_ITEMS then Inl (BoundsExceeded ''collection item count'')
                 else Inr b)"

definition collection :: "nat \<Rightarrow> budget \<Rightarrow> value_error + budget" where
  "collection len b =
     (let b = b\<lparr>bitems := bitems b + len\<rparr>
      in if bitems b > MAX_CANONICAL_VALUE_ITEMS then Inl (BoundsExceeded ''collection item count'') else Inr b)"

definition check_string :: "nat \<Rightarrow> value_error + unit" where
  "check_string len =
     (if len > MAX_CANONICAL_VALUE_STRING_BYTES then Inl (BoundsExceeded ''string size'') else Inr ())"

section \<open>The encoder\<close>

text \<open>The loops of \<open>encode_into\<close> over array items, map keys and map values, with their recursive call.\<close>

type_synonym cv_encoder = "canonical_value \<Rightarrow> budget \<Rightarrow> value_error + bytes \<times> budget"

primrec encode_array_items :: "cv_encoder \<Rightarrow> canonical_value list \<Rightarrow> budget \<Rightarrow> value_error + bytes \<times> budget" where
  "encode_array_items enc [] b = Inr ([], b)"
| "encode_array_items enc (v # vs) b =
     res_bind (enc v b) (\<lambda>(x, b). res_map (\<lambda>(y, b). (x @ y, b)) (encode_array_items enc vs b))"

primrec encode_keys :: "cv_encoder \<Rightarrow> (canonical_value \<times> canonical_value) list \<Rightarrow> budget
    \<Rightarrow> value_error + (bytes \<times> canonical_value) list \<times> budget" where
  "encode_keys enc [] b = Inr ([], b)"
| "encode_keys enc (e # es) b =
     res_bind (enc (fst e) b) (\<lambda>(x, b). res_map (\<lambda>(ks, b). ((x, snd e) # ks, b)) (encode_keys enc es b))"

primrec encode_values :: "cv_encoder \<Rightarrow> (bytes \<times> canonical_value) list \<Rightarrow> budget
    \<Rightarrow> value_error + bytes \<times> budget" where
  "encode_values enc [] b = Inr ([], b)"
| "encode_values enc (e # es) b =
     res_bind (enc (snd e) b) (\<lambda>(x, b). res_map (\<lambda>(y, b). (fst e @ x @ y, b)) (encode_values enc es b))"

definition encode_sorted_map :: "cv_encoder \<Rightarrow> (bytes \<times> canonical_value) list \<Rightarrow> budget
    \<Rightarrow> value_error + bytes \<times> budget" where
  "encode_sorted_map enc encoded_keys b =
     (let sorted = sort_by (\<lambda>x y. compare_canonical_keys (fst x) (fst y)) encoded_keys
      in if adjacent_equal sorted then Inl (BoundsExceeded ''duplicate map key'')
         else res_map (\<lambda>(body, b). (cbor_map (length sorted) @ body, b)) (encode_values enc sorted b))"

primrec encode_value :: "nat \<Rightarrow> cv_encoder" where
  "encode_value 0 v b = Inl (BoundsExceeded ''nesting depth'')"
| "encode_value (Suc fuel) v b = res_bind (visit b) (\<lambda>b.
     case v of
       CvUnsigned n \<Rightarrow> Inr (cbor_unsigned n, b)
     | CvNegative n \<Rightarrow> Inr (cbor_major 1 n, b)
     | CvBytes s \<Rightarrow> res_map (\<lambda>_. (cbor_bytes s, b)) (check_string (length s))
     | CvText s \<Rightarrow> res_map (\<lambda>_. (cbor_text s, b)) (check_string (length s))
     | CvArray vs \<Rightarrow> res_bind (collection (length vs) b) (\<lambda>b.
         res_map (\<lambda>(body, b). (cbor_array (length vs) @ body, b)) (encode_array_items (encode_value fuel) vs b))
     | CvMap es \<Rightarrow> res_bind (collection (length es) b) (\<lambda>b.
         res_bind (encode_keys (encode_value fuel) es b) (\<lambda>(ks, b). encode_sorted_map (encode_value fuel) ks b))
     | CvBool x \<Rightarrow> Inr (cbor_boolean x, b)
     | CvNull \<Rightarrow> Inr (cbor_null, b)
     | CvFloat x \<Rightarrow>
         if is_nan64 x \<or> is_sign_negative64 x \<and> f64_eq x 0
         then Inl (BoundsExceeded ''floats must not be NaN or negative zero'')
         else Inr (encode_minimal_float x, b))"

definition value_try_encode :: "canonical_value \<Rightarrow> value_error + bytes" where
  "value_try_encode v = res_map fst (encode_value (MAX_CANONICAL_VALUE_DEPTH + 1) v budget_new)"

definition value_to_canonical_bytes :: "canonical_value \<Rightarrow> value_error + bytes" where
  "value_to_canonical_bytes v = value_try_encode v"

section \<open>Decoding\<close>

function (sequential) from_cbor :: "cbor_value \<Rightarrow> budget \<Rightarrow> value_error + canonical_value \<times> budget"
  and from_cbor_items :: "cbor_value list \<Rightarrow> budget \<Rightarrow> value_error + canonical_value list \<times> budget"
  and from_cbor_entries :: "(cbor_value \<times> cbor_value) list \<Rightarrow> budget
        \<Rightarrow> value_error + (canonical_value \<times> canonical_value) list \<times> budget"
where
  "from_cbor v b = res_bind (visit b) (\<lambda>b.
     case v of
       Unsigned n \<Rightarrow> Inr (CvUnsigned n, b)
     | Negative n \<Rightarrow> Inr (CvNegative n, b)
     | Bytes s \<Rightarrow> res_map (\<lambda>_. (CvBytes s, b)) (check_string (length s))
     | Text s \<Rightarrow> res_map (\<lambda>_. (CvText s, b)) (check_string (length s))
     | Array vs \<Rightarrow> res_bind (collection (length vs) b) (\<lambda>b.
         res_map (\<lambda>(ws, b). (CvArray ws, b)) (from_cbor_items vs b))
     | Map es \<Rightarrow> res_bind (collection (length es) b) (\<lambda>b.
         res_map (\<lambda>(ws, b). (CvMap ws, b)) (from_cbor_entries es b))
     | Bool x \<Rightarrow> Inr (CvBool x, b)
     | Null \<Rightarrow> Inr (CvNull, b)
     | Float x \<Rightarrow>
         if is_nan64 x \<or> is_sign_negative64 x \<and> f64_eq x 0
         then Inl (BoundsExceeded ''floats must not be NaN or negative zero'')
         else Inr (CvFloat x, b)
     | Tag t w \<Rightarrow> Inl (BoundsExceeded ''canonical values must not carry semantic tags''))"
| "from_cbor_items [] b = Inr ([], b)"
| "from_cbor_items (v # vs) b =
     res_bind (from_cbor v b) (\<lambda>(w, b). res_map (\<lambda>(ws, b). (w # ws, b)) (from_cbor_items vs b))"
| "from_cbor_entries [] b = Inr ([], b)"
| "from_cbor_entries ((k, v) # es) b =
     res_bind (from_cbor k b) (\<lambda>(k', b). res_bind (from_cbor v b) (\<lambda>(v', b).
       res_map (\<lambda>(ws, b). ((k', v') # ws, b)) (from_cbor_entries es b)))"
  by pat_completeness auto
termination
  by (relation "measure (\<lambda>x. case x of Inl (v, _) \<Rightarrow> size v
        | Inr (Inl (vs, _)) \<Rightarrow> size_list size vs
        | Inr (Inr (es, _)) \<Rightarrow> size_list (size_prod size size) es)") simp_all

declare from_cbor.simps [simp del]

definition value_from_canonical_bytes :: "bytes \<Rightarrow> value_error + canonical_value" where
  "value_from_canonical_bytes inp =
     res_bind (map_err Cbor (cbor_from_canonical_bytes inp)) (\<lambda>v. res_map fst (from_cbor v budget_new))"

text \<open>The reader's version, over an item reader and a budget.\<close>

type_synonym cv_reader =
  "item_reader \<times> budget \<Rightarrow> value_error + canonical_value \<times> item_reader \<times> budget"

primrec read_value_items :: "cv_reader \<Rightarrow> nat \<Rightarrow> item_reader \<times> budget
    \<Rightarrow> value_error + canonical_value list \<times> item_reader \<times> budget" where
  "read_value_items rd 0 s = Inr ([], s)"
| "read_value_items rd (Suc n) s =
     res_bind (rd s) (\<lambda>(v, s). res_map (\<lambda>(vs, s). (v # vs, s)) (read_value_items rd n s))"

primrec read_value_entries :: "cv_reader \<Rightarrow> nat \<Rightarrow> bytes option \<Rightarrow> item_reader \<times> budget
    \<Rightarrow> value_error + (canonical_value \<times> canonical_value) list \<times> item_reader \<times> budget" where
  "read_value_entries rd 0 prev s = Inr ([], s)"
| "read_value_entries rd (Suc n) prev s =
     res_bind (rd s) (\<lambda>(key, s').
     let raw_key = byte_range (rd_input (fst s)) (rd_cursor (fst s)) (rd_cursor (fst s') - rd_cursor (fst s))
     in res_bind (map_err Cbor (check_key_order prev raw_key)) (\<lambda>_.
        res_bind (rd s') (\<lambda>(val, s''). res_map (\<lambda>(es, s). ((key, val) # es, s))
          (read_value_entries rd n (Some raw_key) s''))))"

primrec read_value :: "nat \<Rightarrow> cv_reader" where
  "read_value 0 s = Inl (BoundsExceeded ''nesting depth'')"
| "read_value (Suc fuel) s = res_bind (visit (snd s)) (\<lambda>b.
     res_bind (map_err Cbor (read_item (fst s))) (\<lambda>(it, r).
     case it of
       ItemUnsigned n \<Rightarrow> Inr (CvUnsigned n, r, b)
     | ItemNegative n \<Rightarrow> Inr (CvNegative n, r, b)
     | ItemBytes s \<Rightarrow> res_map (\<lambda>_. (CvBytes s, r, b)) (check_string (length s))
     | ItemText s \<Rightarrow> res_map (\<lambda>_. (CvText s, r, b)) (check_string (length s))
     | ItemArray n \<Rightarrow> res_bind (collection n b) (\<lambda>b.
         res_map (\<lambda>(vs, s). (CvArray vs, s)) (read_value_items (read_value fuel) n (r, b)))
     | ItemMap n \<Rightarrow> res_bind (collection n b) (\<lambda>b.
         res_map (\<lambda>(es, s). (CvMap es, s)) (read_value_entries (read_value fuel) n None (r, b)))
     | ItemBool x \<Rightarrow> Inr (CvBool x, r, b)
     | ItemNull \<Rightarrow> Inr (CvNull, r, b)
     | ItemFloat x \<Rightarrow>
         if is_nan64 x \<or> is_sign_negative64 x \<and> f64_eq x 0
         then Inl (BoundsExceeded ''floats must not be NaN or negative zero'')
         else Inr (CvFloat x, r, b)))"

definition read_canonical_value :: "(value_error, canonical_value) decoder" where
  "read_canonical_value r =
     res_map (\<lambda>(v, r, b). (v, r)) (read_value (MAX_CANONICAL_VALUE_DEPTH + 1) (r, budget_new))"

section \<open>Sizes and the embedding into CBOR values\<close>

text \<open>\<open>cv_nodes\<close> counts the visits of a traversal, \<open>cv_items\<close> the items it charges.\<close>

primrec to_cbor :: "canonical_value \<Rightarrow> cbor_value" where
  "to_cbor (CvUnsigned n) = Unsigned n"
| "to_cbor (CvNegative n) = Negative n"
| "to_cbor (CvBytes s) = Bytes s"
| "to_cbor (CvText s) = Text s"
| "to_cbor (CvArray vs) = Array (map to_cbor vs)"
| "to_cbor (CvMap es) = Map (map (map_prod to_cbor to_cbor) es)"
| "to_cbor (CvBool x) = Bool x"
| "to_cbor CvNull = Null"
| "to_cbor (CvFloat x) = Float x"

primrec cv_nodes :: "canonical_value \<Rightarrow> nat" where
  "cv_nodes (CvUnsigned n) = 1"
| "cv_nodes (CvNegative n) = 1"
| "cv_nodes (CvBytes s) = 1"
| "cv_nodes (CvText s) = 1"
| "cv_nodes (CvArray vs) = Suc (sum_list (map cv_nodes vs))"
| "cv_nodes (CvMap es) = Suc (sum_list (map (\<lambda>p. fst p + snd p) (map (map_prod cv_nodes cv_nodes) es)))"
| "cv_nodes (CvBool x) = 1"
| "cv_nodes CvNull = 1"
| "cv_nodes (CvFloat x) = 1"

primrec cv_items :: "canonical_value \<Rightarrow> nat" where
  "cv_items (CvUnsigned n) = 1"
| "cv_items (CvNegative n) = 1"
| "cv_items (CvBytes s) = 1"
| "cv_items (CvText s) = 1"
| "cv_items (CvArray vs) = Suc (length vs + sum_list (map cv_items vs))"
| "cv_items (CvMap es) = Suc (length es + sum_list (map (\<lambda>p. fst p + snd p) (map (map_prod cv_items cv_items) es)))"
| "cv_items (CvBool x) = 1"
| "cv_items CvNull = 1"
| "cv_items (CvFloat x) = 1"

primrec cv_scalars_ok :: "canonical_value \<Rightarrow> bool" where
  "cv_scalars_ok (CvUnsigned n) \<longleftrightarrow> True"
| "cv_scalars_ok (CvNegative n) \<longleftrightarrow> True"
| "cv_scalars_ok (CvBytes s) \<longleftrightarrow> length s \<le> MAX_CANONICAL_VALUE_STRING_BYTES"
| "cv_scalars_ok (CvText s) \<longleftrightarrow> length s \<le> MAX_CANONICAL_VALUE_STRING_BYTES"
| "cv_scalars_ok (CvArray vs) \<longleftrightarrow> list_all id (map cv_scalars_ok vs)"
| "cv_scalars_ok (CvMap es) \<longleftrightarrow> list_all (\<lambda>p. fst p \<and> snd p) (map (map_prod cv_scalars_ok cv_scalars_ok) es)"
| "cv_scalars_ok (CvBool x) \<longleftrightarrow> True"
| "cv_scalars_ok CvNull \<longleftrightarrow> True"
| "cv_scalars_ok (CvFloat x) \<longleftrightarrow> \<not> is_nan64 x \<and> \<not> (is_sign_negative64 x \<and> f64_eq x 0)"

definition spend :: "nat \<Rightarrow> nat \<Rightarrow> budget \<Rightarrow> budget" where
  "spend n i b = \<lparr>bdepth = bdepth b + n, bitems = bitems b + i\<rparr>"

definition within :: "budget \<Rightarrow> bool" where
  "within b \<longleftrightarrow> bdepth b \<le> MAX_CANONICAL_VALUE_DEPTH \<and> bitems b \<le> MAX_CANONICAL_VALUE_ITEMS"

definition encodes :: "cv_encoder \<Rightarrow> bool" where
  "encodes enc \<longleftrightarrow> (\<forall>v b x b'. enc v b = Inr (x, b') \<longrightarrow>
     try_encode (to_cbor v) = Inr x \<and> b' = spend (cv_nodes v) (cv_items v) b \<and> within b' \<and> cv_scalars_ok v)"

definition cv_wf :: "canonical_value \<Rightarrow> bool" where
  "cv_wf v \<longleftrightarrow> canonical_form (to_cbor v) = to_cbor v \<and> cbor_ok (to_cbor v)"

section \<open>The encoder refines the canonical CBOR encoder\<close>

lemma spend_simps [simp]:
  "spend n i (spend n' i' b) = spend (n' + n) (i' + i) b" "spend 0 0 b = b"
  "bdepth (spend n i b) = bdepth b + n" "bitems (spend n i b) = bitems b + i"
  by (simp_all add: spend_def)

lemma visit_Inr: "visit b = Inr b' \<longleftrightarrow> b' = spend 1 1 b \<and> within b'"
  by (auto simp: visit_def within_def spend_def Let_def)

lemma collection_Inr: "within b \<Longrightarrow> collection n b = Inr b' \<longleftrightarrow> b' = spend 0 n b \<and> within b'"
  by (auto simp: collection_def within_def spend_def Let_def)

lemma check_string_Inr: "check_string n = Inr u \<longleftrightarrow> n \<le> MAX_CANONICAL_VALUE_STRING_BYTES"
  by (auto simp: check_string_def)

lemma encodesD:
  "encodes enc \<Longrightarrow> enc v b = Inr (x, b') \<Longrightarrow>
   try_encode (to_cbor v) = Inr x \<and> b' = spend (cv_nodes v) (cv_items v) b \<and> within b' \<and> cv_scalars_ok v"
  by (simp add: encodes_def)

lemma encode_array_items_encodes:
  assumes "encodes enc"
  shows "encode_array_items enc vs b = Inr (x, b') \<Longrightarrow> within b \<Longrightarrow>
     try_encode_items (map to_cbor vs) = Inr x
     \<and> b' = spend (sum_list (map cv_nodes vs)) (sum_list (map cv_items vs)) b \<and> within b'
     \<and> list_all cv_scalars_ok vs"
proof (induction vs arbitrary: b x)
  case (Cons v vs)
  then obtain y b1 z where y: "enc v b = Inr (y, b1)" "encode_array_items enc vs b1 = Inr (z, b')" "x = y @ z"
    by auto
  show ?case using encodesD [OF assms y(1)] Cons.IH [OF y(2)] y(3) by auto
qed simp

lemma encode_keys_encodes:
  assumes "encodes enc"
  shows "encode_keys enc es b = Inr (ks, b') \<Longrightarrow> within b \<Longrightarrow>
     list_all2 (\<lambda>(k, v) (x, w). try_encode (to_cbor k) = Inr x \<and> v = w) es ks
     \<and> b' = spend (sum_list (map (\<lambda>e. cv_nodes (fst e)) es)) (sum_list (map (\<lambda>e. cv_items (fst e)) es)) b
     \<and> within b' \<and> list_all (\<lambda>e. cv_scalars_ok (fst e)) es"
proof (induction es arbitrary: b ks)
  case (Cons e es)
  then obtain y b1 z where y: "enc (fst e) b = Inr (y, b1)" "encode_keys enc es b1 = Inr (z, b')"
      "ks = (y, snd e) # z"
    by auto
  show ?case using encodesD [OF assms y(1)] Cons.IH [OF y(2)] y(3) by (auto simp: case_prod_beta)
qed simp

lemma encode_values_encodes:
  assumes "encodes enc"
  shows "encode_values enc ks b = Inr (x, b') \<Longrightarrow> within b \<Longrightarrow>
     (\<exists>ps. list_all2 (\<lambda>(k, v) (kb, vb). kb = k \<and> try_encode (to_cbor v) = Inr vb) ks ps
        \<and> x = concat (map (\<lambda>(k, v). k @ v) ps))
     \<and> b' = spend (sum_list (map (\<lambda>e. cv_nodes (snd e)) ks)) (sum_list (map (\<lambda>e. cv_items (snd e)) ks)) b
     \<and> within b' \<and> list_all (\<lambda>e. cv_scalars_ok (snd e)) ks"
proof (induction ks arbitrary: b x)
  case (Cons e ks)
  then obtain y b1 z where y: "enc (snd e) b = Inr (y, b1)" "encode_values enc ks b1 = Inr (z, b')"
      "x = fst e @ y @ z"
    by auto
  have h: "try_encode (to_cbor (snd e)) = Inr y" "b1 = spend (cv_nodes (snd e)) (cv_items (snd e)) b" "within b1"
      "cv_scalars_ok (snd e)"
    using encodesD [OF assms y(1)] by auto
  obtain ps where ps: "list_all2 (\<lambda>(k, v) (kb, vb). kb = k \<and> try_encode (to_cbor v) = Inr vb) ks ps"
      "z = concat (map (\<lambda>(k, v). k @ v) ps)"
    using Cons.IH [OF y(2) h(3)] by blast
  have "list_all2 (\<lambda>(k, v) (kb, vb). kb = k \<and> try_encode (to_cbor v) = Inr vb) (e # ks) ((fst e, y) # ps)"
    using ps(1) h(1) by (simp add: case_prod_beta)
  moreover have "x = concat (map (\<lambda>(k, v). k @ v) ((fst e, y) # ps))" using ps(2) y(3) by simp
  ultimately show ?case using Cons.IH [OF y(2) h(3)] h by (auto intro: exI [of _ "(fst e, y) # ps"])
qed auto


lemma encode_sorted_map_encodes:
  assumes "encodes enc" "encode_keys enc es b = Inr (ks, b1)" "encode_sorted_map enc ks b1 = Inr (x, b')" "within b"
  shows "try_encode (to_cbor (CvMap es)) = Inr x \<and> within b' \<and> cv_scalars_ok (CvMap es)
    \<and> b' = spend (cv_nodes (CvMap es) - 1) (cv_items (CvMap es) - 1 - length es) b"
proof -
  let ?sorted = "sort_key (\<lambda>e. canonical_key (fst e)) ks"
  have s: "sort_by (\<lambda>x y. compare_canonical_keys (fst x) (fst y)) ks = ?sorted"
    by (rule sort_by_key) (rule compare_canonical_keys_cmp)
  have "sorted (map (\<lambda>e. canonical_key (fst e)) ?sorted)" by simp
  from adjacent_equal_sorted [OF this] obtain y where y: "distinct (map fst ?sorted)"
      "encode_values enc ?sorted b1 = Inr (y, b')" "x = cbor_map (length ks) @ y"
    using assms(3) by (auto simp: encode_sorted_map_def s Let_def split: if_splits)
  note k = encode_keys_encodes [OF assms(1,2,4)]
  have "within b1" using k by blast
  note v = encode_values_encodes [OF assms(1) y(2) this]
  obtain ps where ps: "list_all2 (\<lambda>(k, v) (kb, vb). kb = k \<and> try_encode (to_cbor v) = Inr vb) ?sorted ps"
      "y = concat (map (\<lambda>(k, v). k @ v) ps)"
    using v k by blast
  obtain qs where qs: "list_all2 (\<lambda>(k, v) (kb, vb). kb = k \<and> try_encode (to_cbor v) = Inr vb) ks qs"
      "mset qs = mset ps"
    using list_all2_reorder_left_invariance [OF ps(1)] by (metis mset_sort)
  have "list_all2 (\<lambda>(k, v) (kb, vb). try_encode k = Inr kb \<and> try_encode v = Inr vb)
      (map (map_prod to_cbor to_cbor) es) qs"
    using k qs(1) by (fastforce simp: list_all2_conv_all_nth)
  then have "try_encode_entries (map (map_prod to_cbor to_cbor) es) = Inr qs"
    by (simp add: try_encode_entries_Inr)
  moreover have "encode_map_entries qs = Inr x"
  proof -
    have f: "map fst ps = map fst ?sorted" "map fst qs = map fst ks"
      by (rule list_all2_map_eq [OF ps(1), symmetric], force)
        (rule list_all2_map_eq [OF qs(1), symmetric], force)
    have "sorted (map (\<lambda>e. canonical_key (fst e)) ps)"
      using f(1) by (metis (mono_tags, lifting) map_map comp_def map_eq_conv sorted_sort_key)
    moreover have d: "distinct (map fst qs)"
      using y(1) qs(2) f by (metis mset_eq_imp_distinct_iff mset_map)
    ultimately have "sort_key (\<lambda>e. canonical_key (fst e)) qs = ps"
      using qs(2) by (intro sort_key_inj_key_eq) (auto simp: distinct_map inj_on_def)
    moreover have "length qs = length ks" using f(2) by (metis length_map)
    ultimately show ?thesis using d y(3) ps(2) by (simp add: encode_map_entries_Inr)
  qed
  ultimately have "try_encode (to_cbor (CvMap es)) = Inr x" by simp
  moreover have m: "map snd ks = map snd es"
    by (rule list_all2_map_eq [OF conjunct1 [OF k], symmetric]) auto
  have s: "sum_list (map (\<lambda>e. f (snd e)) ?sorted) = (sum_list (map (\<lambda>e. f (snd e)) es) :: nat)" for f
    unfolding sum_list_map_sort using arg_cong [OF m, of "\<lambda>l. sum_list (map f l)"] by (simp add: comp_def)
  have "b' = spend (cv_nodes (CvMap es) - 1) (cv_items (CvMap es) - 1 - length es) b"
    using k v by (simp add: s comp_def sum_list_addf)
  moreover have "cv_scalars_ok (CvMap es)"
  proof -
    have "list_all cv_scalars_ok (map snd ks)" using v k by (simp add: list_all_iff)
    then show ?thesis using k unfolding m by (auto simp: list_all_iff)
  qed
  ultimately show ?thesis using v k by blast
qed

lemma encodes_encode_value: "encodes (encode_value k)"
proof (induction k)
  case (Suc k)
  show ?case
    unfolding encodes_def
  proof (intro allI impI)
    fix v b x b'
    assume e: "encode_value (Suc k) v b = Inr (x, b')"
    then obtain b0 where b0: "visit b = Inr b0" by auto
    then have v: "b0 = spend 1 1 b" "within b0" by (auto simp: visit_Inr)
    show "try_encode (to_cbor v) = Inr x \<and> b' = spend (cv_nodes v) (cv_items v) b \<and> within b' \<and> cv_scalars_ok v"
    proof (cases v)
      case (CvArray vs)
      then obtain b1 y where y: "collection (length vs) b0 = Inr b1"
          "encode_array_items (encode_value k) vs b1 = Inr (y, b')" "x = cbor_array (length vs) @ y"
        using e b0 by auto
      then have b1: "b1 = spend 0 (length vs) b0" "within b1" using v(2) by (auto simp: collection_Inr)
      show ?thesis using encode_array_items_encodes [OF Suc y(2) b1(2)] y(3) b1(1) v(1) CvArray
        by (auto simp: list.pred_map)
    next
      case (CvMap es)
      then obtain b1 ks b2 where y: "collection (length es) b0 = Inr b1"
          "encode_keys (encode_value k) es b1 = Inr (ks, b2)" "encode_sorted_map (encode_value k) ks b2 = Inr (x, b')"
        using e b0 by auto
      then have b1: "b1 = spend 0 (length es) b0" "within b1" using v(2) by (auto simp: collection_Inr)
      show ?thesis using encode_sorted_map_encodes [OF Suc y(2,3) b1(2)] b1(1) v(1) CvMap by auto
    qed (use e b0 v in \<open>auto simp: check_string_Inr encode_float_def split: if_splits\<close>)
  qed
qed (simp add: encodes_def)


lemma within_spend_mono: "within (spend n i b) \<Longrightarrow> n' \<le> n \<Longrightarrow> i' \<le> i \<Longrightarrow> within (spend n' i' b)"
  by (simp add: within_def)

lemma cv_nodes_le: "v \<in> set vs \<Longrightarrow> cv_nodes v \<le> sum_list (map cv_nodes vs)"
  by (simp add: member_le_sum_list)

lemma visit_ok: "within (spend (Suc n) (Suc i) b) \<Longrightarrow> visit b = Inr (spend 1 1 b)"
  unfolding visit_Inr using within_spend_mono [of "Suc n" "Suc i" b 1 1] by simp

lemma collection_ok:
  "within (spend (Suc n) (Suc (len + i)) b) \<Longrightarrow> collection len (spend (Suc 0) (Suc 0) b) = Inr (spend 1 (Suc len) b)"
  by (subst collection_Inr) (auto intro: within_spend_mono)

text \<open>Reading a value back through the strict decoder or through the item reader.\<close>

lemma from_cbor_to_cbor:
  "within (spend (cv_nodes v) (cv_items v) b) \<Longrightarrow> cv_scalars_ok v \<Longrightarrow>
   from_cbor (to_cbor v) b = Inr (v, spend (cv_nodes v) (cv_items v) b)"
proof (induction v arbitrary: b)
  case (CvArray vs)
  have "from_cbor_items (map to_cbor ws) b'
      = Inr (ws, spend (sum_list (map cv_nodes ws)) (sum_list (map cv_items ws)) b')"
    if "set ws \<subseteq> set vs" "within (spend (sum_list (map cv_nodes ws)) (sum_list (map cv_items ws)) b')" for ws b'
    using that
  proof (induction ws arbitrary: b')
    case (Cons w ws)
    have "within (spend (cv_nodes w) (cv_items w) b')"
      using Cons.prems(2) by (rule within_spend_mono) simp_all
    moreover have "cv_scalars_ok w" using CvArray.prems(2) Cons.prems(1) by (auto simp: list_all_iff)
    ultimately show ?case using CvArray.IH [of w b'] Cons by simp
  qed simp
  from this [of vs] show ?case
    using CvArray.prems(1) visit_ok [of _ _ b] collection_ok [of _ "length vs" _ b]
    by (simp add: from_cbor.simps)
next
  case (CvMap es)
  let ?f = "\<lambda>n. \<lambda>es. sum_list (map (\<lambda>p. fst p + snd p) (map (map_prod n n) es))"
  have "from_cbor_entries (map (map_prod to_cbor to_cbor) ws) b' = Inr (ws, spend (?f cv_nodes ws) (?f cv_items ws) b')"
    if "set ws \<subseteq> set es" "within (spend (?f cv_nodes ws) (?f cv_items ws) b')" for ws b'
    using that
  proof (induction ws arbitrary: b')
    case (Cons w ws)
    obtain k v where w: "w = (k, v)" by (cases w)
    have m: "(k, v) \<in> set es" using Cons.prems(1) w by simp
    have "within (spend (cv_nodes k) (cv_items k) b')" "within (spend (cv_nodes k + cv_nodes v) (cv_items k + cv_items v) b')"
      using Cons.prems(2) w by (auto elim!: within_spend_mono)
    moreover have "cv_scalars_ok k" "cv_scalars_ok v" using CvMap.prems(2) m by (auto simp: list_all_iff)
    ultimately show ?case
      using CvMap.IH(1) [OF m, of k b'] CvMap.IH(2) [OF m, of v "spend (cv_nodes k) (cv_items k) b'"] Cons w
      by (simp add: add.assoc)
  qed simp
  from this [of es] show ?case
    using CvMap.prems(1) visit_ok [of _ _ b] collection_ok [of _ "length es" _ b]
    by (simp add: from_cbor.simps)
qed (auto simp: from_cbor.simps visit_ok check_string_def)


lemma read_value_items_reads:
  assumes "\<And>w c c' b. w \<in> set ws \<Longrightarrow> decode_value inp c d = Inr (to_cbor w, c') \<Longrightarrow>
      within (spend (cv_nodes w) (cv_items w) b) \<Longrightarrow> n0 \<le> bdepth b \<Longrightarrow>
      rd (reader_at inp c, b) = Inr (w, reader_at inp c', spend (cv_nodes w) (cv_items w) b)"
    and "decode_items inp c d (length ws) = Inr (map to_cbor ws, c')"
    and "within (spend (sum_list (map cv_nodes ws)) (sum_list (map cv_items ws)) b)" "n0 \<le> bdepth b"
  shows "read_value_items rd (length ws) (reader_at inp c, b)
    = Inr (ws, reader_at inp c', spend (sum_list (map cv_nodes ws)) (sum_list (map cv_items ws)) b)"
  using assms
proof (induction ws arbitrary: c b)
  case (Cons w ws)
  obtain c1 where c1: "decode_value inp c d = Inr (to_cbor w, c1)" "decode_items inp c1 d (length ws) = Inr (map to_cbor ws, c')"
    using Cons.prems(2) by auto
  have "within (spend (cv_nodes w) (cv_items w) b)" using Cons.prems(3) by (rule within_spend_mono) simp_all
  then have "rd (reader_at inp c, b) = Inr (w, reader_at inp c1, spend (cv_nodes w) (cv_items w) b)"
    using Cons.prems(1) [of w] c1(1) Cons.prems(4) by simp
  moreover have "read_value_items rd (length ws) (reader_at inp c1, spend (cv_nodes w) (cv_items w) b)
      = Inr (ws, reader_at inp c', spend (sum_list (map cv_nodes (w # ws))) (sum_list (map cv_items (w # ws))) b)"
    using Cons.IH [OF _ c1(2), of "spend (cv_nodes w) (cv_items w) b"] Cons.prems(1,3,4) by simp
  ultimately show ?case by simp
qed simp

lemma read_value_entries_reads:
  assumes "\<And>w c c' b. w \<in> fst ` set ws \<union> snd ` set ws \<Longrightarrow> decode_value inp c d = Inr (to_cbor w, c') \<Longrightarrow>
      within (spend (cv_nodes w) (cv_items w) b) \<Longrightarrow> n0 \<le> bdepth b \<Longrightarrow>
      rd (reader_at inp c, b) = Inr (w, reader_at inp c', spend (cv_nodes w) (cv_items w) b)"
    and "decode_entries inp c d prev (length ws) = Inr (map (map_prod to_cbor to_cbor) ws, c')"
    and "within (spend (sum_list (map (\<lambda>p. cv_nodes (fst p) + cv_nodes (snd p)) ws))
        (sum_list (map (\<lambda>p. cv_items (fst p) + cv_items (snd p)) ws)) b)" "n0 \<le> bdepth b"
  shows "read_value_entries rd (length ws) prev (reader_at inp c, b)
    = Inr (ws, reader_at inp c', spend (sum_list (map (\<lambda>p. cv_nodes (fst p) + cv_nodes (snd p)) ws))
        (sum_list (map (\<lambda>p. cv_items (fst p) + cv_items (snd p)) ws)) b)"
  using assms
proof (induction ws arbitrary: c b prev)
  case (Cons w ws)
  obtain k v where w: "w = (k, v)" by (cases w)
  obtain c1 c2 where c1: "decode_value inp c d = Inr (to_cbor k, c1)"
      "check_key_order prev (byte_range inp c (c1 - c)) = Inr ()" "decode_value inp c1 d = Inr (to_cbor v, c2)"
      "decode_entries inp c2 d (Some (byte_range inp c (c1 - c))) (length ws) = Inr (map (map_prod to_cbor to_cbor) ws, c')"
    using Cons.prems(2) w by (auto simp: Let_def)
  let ?b1 = "spend (cv_nodes k) (cv_items k) b"
  let ?b2 = "spend (cv_nodes k + cv_nodes v) (cv_items k + cv_items v) b"
  have wi: "within ?b1" "within ?b2" using Cons.prems(3) w by (auto elim!: within_spend_mono)
  have "rd (reader_at inp c, b) = Inr (k, reader_at inp c1, ?b1)"
    using Cons.prems(1) [of k] c1(1) Cons.prems(4) wi w by simp
  moreover have "rd (reader_at inp c1, ?b1) = Inr (v, reader_at inp c2, ?b2)"
    using Cons.prems(1) [of v c1 c2 ?b1] c1(3) Cons.prems(4) wi w by simp
  moreover have "within (spend (sum_list (map (\<lambda>p. cv_nodes (fst p) + cv_nodes (snd p)) ws))
        (sum_list (map (\<lambda>p. cv_items (fst p) + cv_items (snd p)) ws)) ?b2)" "n0 \<le> bdepth ?b2"
    using Cons.prems(3,4) w by (simp_all add: add.assoc)
  ultimately show ?case
    using Cons.IH [OF _ c1(4), of ?b2] Cons.prems(1) c1(2) w by (simp add: add.assoc)
qed simp

lemma item_to_owned_cases:
  "item_to_owned it = Inr (Unsigned n) \<longleftrightarrow> it = ItemUnsigned n"
  "item_to_owned it = Inr (Negative n) \<longleftrightarrow> it = ItemNegative n"
  "item_to_owned it = Inr (Bytes s) \<longleftrightarrow> it = ItemBytes s"
  "item_to_owned it = Inr (Text s) \<longleftrightarrow> it = ItemText s"
  "item_to_owned it = Inr (Bool x) \<longleftrightarrow> it = ItemBool x"
  "item_to_owned it = Inr Null \<longleftrightarrow> it = ItemNull"
  "item_to_owned it = Inr (Float f) \<longleftrightarrow> it = ItemFloat f"
  by (cases it; auto simp: item_to_owned_def)+

lemma read_value_scalar_reads:
  assumes "decode_value inp c d = Inr (to_cbor v, c')" "within (spend (Suc 0) (Suc 0) b)" "cv_scalars_ok v"
    "MAX_CANONICAL_VALUE_DEPTH < k + bdepth b" "\<forall>vs. v \<noteq> CvArray vs" "\<forall>es. v \<noteq> CvMap es"
  shows "read_value k (reader_at inp c, b) = Inr (v, reader_at inp c', spend (Suc 0) (Suc 0) b)"
proof -
  obtain k' where k: "k = Suc k'" using assms(2,4) by (cases k) (auto simp: within_def)
  have "visit b = Inr (spend (Suc 0) (Suc 0) b)" using visit_ok [of 0 0 b] assms(2) by simp
  then show ?thesis
    using decode_value_read_item [OF assms(1)] assms(3,5,6) k
    by (cases v) (auto simp: check_string_def item_to_owned_cases)
qed

lemma read_value_reads:
  "decode_value inp c d = Inr (to_cbor v, c') \<Longrightarrow> within (spend (cv_nodes v) (cv_items v) b) \<Longrightarrow> cv_scalars_ok v \<Longrightarrow>
   MAX_CANONICAL_VALUE_DEPTH < k + bdepth b \<Longrightarrow>
   read_value k (reader_at inp c, b) = Inr (v, reader_at inp c', spend (cv_nodes v) (cv_items v) b)"
proof (induction v arbitrary: c c' d b k)
  case (CvArray vs)
  then obtain k' where k: "k = Suc k'" by (cases k) (auto simp: within_def)
  obtain c1 where c1: "read_item (reader_at inp c) = Inr (ItemArray (length vs), reader_at inp c1)"
      "decode_items inp c1 (Suc d) (length vs) = Inr (map to_cbor vs, c')"
    using decode_value_read_item [OF CvArray.prems(1)] by auto
  have "read_value_items (read_value k') (length vs) (reader_at inp c1, spend 1 (Suc (length vs)) b)
    = Inr (vs, reader_at inp c', spend (cv_nodes (CvArray vs)) (cv_items (CvArray vs)) b)"
    using CvArray.prems(2-4) CvArray.IH k
    by (subst read_value_items_reads [OF _ c1(2), of "Suc MAX_CANONICAL_VALUE_DEPTH - k'"])
      (auto simp: list_all_iff)
  then show ?case
    using c1(1) k CvArray.prems(2) visit_ok [of _ _ b] collection_ok [of _ "length vs" _ b] by simp
next
  case (CvMap es)
  then obtain k' where k: "k = Suc k'" by (cases k) (auto simp: within_def)
  obtain c1 where c1: "read_item (reader_at inp c) = Inr (ItemMap (length es), reader_at inp c1)"
      "decode_entries inp c1 (Suc d) None (length es) = Inr (map (map_prod to_cbor to_cbor) es, c')"
    using decode_value_read_item [OF CvMap.prems(1)] by auto
  have "read_value_entries (read_value k') (length es) None (reader_at inp c1, spend 1 (Suc (length es)) b)
    = Inr (es, reader_at inp c', spend (cv_nodes (CvMap es)) (cv_items (CvMap es)) b)"
    using CvMap.prems(2-4) CvMap.IH k
    by (subst read_value_entries_reads [OF _ c1(2), of "Suc MAX_CANONICAL_VALUE_DEPTH - k'"])
      (auto simp: list_all_iff comp_def)
  then show ?case
    using c1(1) k CvMap.prems(2) visit_ok [of _ _ b] collection_ok [of _ "length es" _ b] by simp
qed (simp_all add: read_value_scalar_reads)


lemma cbor_depth_nodes: "cbor_depth (to_cbor v) < cv_nodes v"
proof (induction v)
  case (CvArray vs)
  then have "cbor_depth_items (map to_cbor vs) \<le> sum_list (map cv_nodes vs)"
  proof (induction vs)
    case (Cons w vs)
    have "cbor_depth (to_cbor w) < cv_nodes w" "cbor_depth_items (map to_cbor vs) \<le> sum_list (map cv_nodes vs)"
      using Cons by simp_all
    then show ?case by simp
  qed simp
  then show ?case by simp
next
  case (CvMap es)
  then have "cbor_depth_entries (map (map_prod to_cbor to_cbor) es)
      \<le> sum_list (map (\<lambda>p. fst p + snd p) (map (map_prod cv_nodes cv_nodes) es))"
  proof (induction es)
    case (Cons e es)
    obtain k v where e: "e = (k, v)" by (cases e)
    have "cbor_depth (to_cbor k) < cv_nodes k" "cbor_depth (to_cbor v) < cv_nodes v"
      using Cons.prems(1) [of e k] Cons.prems(2) [of e v] e by simp_all
    moreover have "cbor_depth_entries (map (map_prod to_cbor to_cbor) es)
        \<le> sum_list (map (\<lambda>p. fst p + snd p) (map (map_prod cv_nodes cv_nodes) es))"
      using Cons by (metis list.set_intros(2))
    ultimately show ?case using e by simp
  qed simp
  then show ?case by simp
qed simp_all

lemma value_try_encode_Inr:
  assumes "value_try_encode v = Inr x"
  shows "try_encode (to_cbor v) = Inr x" "within (spend (cv_nodes v) (cv_items v) budget_new)" "cv_scalars_ok v"
proof -
  obtain b where "encode_value (Suc MAX_CANONICAL_VALUE_DEPTH) v budget_new = Inr (x, b)"
    using assms by (auto simp: value_try_encode_def simp del: encode_value.simps)
  from encodesD [OF encodes_encode_value this]
  show "try_encode (to_cbor v) = Inr x" "within (spend (cv_nodes v) (cv_items v) budget_new)" "cv_scalars_ok v"
    by auto
qed

lemma value_decodes:
  assumes "value_try_encode v = Inr x" "cv_wf v" "d + cv_nodes v \<le> Suc MAX_DEPTH"
  shows "decodes d x (to_cbor v)"
proof -
  have "d + cbor_depth (to_cbor v) \<le> MAX_DEPTH" using assms(3) cbor_depth_nodes [of v] by simp
  then show ?thesis
    using try_encode_decodes [OF value_try_encode_Inr(1) [OF assms(1)]] assms(2) by (auto simp: cv_wf_def)
qed

lemma value_nodes_le: "value_try_encode v = Inr x \<Longrightarrow> cv_nodes v \<le> MAX_CANONICAL_VALUE_DEPTH"
  using value_try_encode_Inr(2) [of v x] by (simp add: within_def budget_new_def)

lemma reads_canonical_value:
  assumes "value_try_encode v = Inr x" "cv_wf v"
  shows "reads read_canonical_value x v"
  unfolding reads_def
proof (intro allI)
  fix pre rest
  have "decodes 0 x (to_cbor v)"
    using value_nodes_le [OF assms(1)]
    by (intro value_decodes [OF assms]) (simp add: MAX_DEPTH_def MAX_CANONICAL_VALUE_DEPTH_def)
  from read_value_reads [OF decodesD [OF this, of pre rest] value_try_encode_Inr(2,3) [OF assms(1)]]
  show "read_canonical_value (reader_at (pre @ x @ rest) (length pre))
      = Inr (v, reader_at (pre @ x @ rest) (length pre + length x))"
    by (simp add: read_canonical_value_def del: read_value.simps)
qed

interpretation value_codec: partial_codec value_try_encode read_canonical_value cv_wf
  by unfold_locales (rule reads_canonical_value)

lemmas encode_value_numeral = encode_value.simps(2) [of "pred_numeral k" for k, folded numeral_eq_Suc]

lemmas value_eval = value_to_canonical_bytes_def value_try_encode_def MAX_CANONICAL_VALUE_DEPTH_def
  encode_value_numeral visit_def collection_def check_string_def budget_new_def MAX_CANONICAL_VALUE_ITEMS_def
  MAX_CANONICAL_VALUE_STRING_BYTES_def encode_sorted_map_def

text \<open>
  C25: a bounded canonical value that was encoded is decoded from its bytes, by the strict decoder
  followed by the bounds check; no bound that the encoder accepted is rejected on the way back.
\<close>

theorem canonical_value_roundtrip:
  assumes "value_to_canonical_bytes v = Inr b" "cv_wf v"
  shows "value_from_canonical_bytes b = Inr v"
proof -
  have e: "value_try_encode v = Inr b" using assms(1) by (simp add: value_to_canonical_bytes_def)
  have "decodes 0 b (to_cbor v)"
    using value_nodes_le [OF e]
    by (intro value_decodes [OF e assms(2)]) (simp add: MAX_DEPTH_def MAX_CANONICAL_VALUE_DEPTH_def)
  then have "cbor_from_canonical_bytes b = Inr (to_cbor v)" by (rule decodes_from_canonical)
  then show ?thesis
    using from_cbor_to_cbor [OF value_try_encode_Inr(2,3) [OF e]] by (simp add: value_from_canonical_bytes_def)
qed

theorem canonical_value_roundtrip_witness:
  "value_from_canonical_bytes [0xa1, 0x01, 0x82, 0xf6, 0x41, 0x07]
     = Inr (CvMap [(CvUnsigned 1, CvArray [CvNull, CvBytes [7]])])"
proof -
  let ?v = "CvMap [(CvUnsigned 1, CvArray [CvNull, CvBytes [7]])]"
  have "value_to_canonical_bytes ?v = Inr [0xa1, 0x01, 0x82, 0xf6, 0x41, 0x07]"
    by (simp add: value_eval cbor_eval)
  moreover have "cv_wf ?v" by (simp add: cv_wf_def cbor_eval)
  ultimately show ?thesis by (rule canonical_value_roundtrip)
qed

text \<open>
  C37: the depth counter of the budget is never decremented, so an encodable value has at most
  \<open>MAX_CANONICAL_VALUE_DEPTH\<close> nodes in total, however flat it is.
\<close>

theorem canonical_value_node_bound:
  assumes "value_to_canonical_bytes v = Inr b"
  shows "cv_nodes v \<le> MAX_CANONICAL_VALUE_DEPTH"
  using value_nodes_le [of v b] assms by (simp add: value_to_canonical_bytes_def)


theorem canonical_value_node_bound_witness:
  "cv_nodes (CvArray [CvNull, CvBool True]) \<le> MAX_CANONICAL_VALUE_DEPTH"
proof -
  have "value_to_canonical_bytes (CvArray [CvNull, CvBool True]) = Inr [0x82, 0xf6, 0xf5]"
    by (simp add: value_eval cbor_eval)
  then show ?thesis by (rule canonical_value_node_bound)
qed

end
