(* ===== verification/Wire_Primitives.thy ===== *)
theory Wire_Primitives
  imports Cbor_Items
begin

unbundle bit_operations_syntax

text \<open>
  The small wire types of \<open>ledger-format\<close>: content addresses and their framed form
  (\<open>entry.rs\<close>), identifiers, hexadecimal form (\<open>hex.rs\<close>), the outer frame prefix
  (\<open>frame.rs\<close>) and canonical paths (\<open>path.rs\<close>), with the limits of \<open>limits.rs\<close>.
\<close>

section \<open>Limits\<close>

definition FORMAT_VERSION :: u32 where "FORMAT_VERSION = 3"
definition MAX_HEADER_BYTES :: nat where "MAX_HEADER_BYTES = 1024 * 1024"
definition MAX_ENTRY_BYTES :: nat where "MAX_ENTRY_BYTES = 17 * 1024 * 1024"
definition MAX_PARENTS_PER_ENTRY :: nat where "MAX_PARENTS_PER_ENTRY = 4096"
definition MAX_VECTOR_CLOCK_ACTORS :: nat where "MAX_VECTOR_CLOCK_ACTORS = 65536"
definition MAX_CANONICAL_PATH_BYTES :: nat where "MAX_CANONICAL_PATH_BYTES = 4096"

section \<open>Content addresses and identifiers\<close>

text \<open>\<open>EntryHash([u8; 32])\<close>: the array length is the predicate \<open>hash_ok\<close>.\<close>

datatype entry_hash = EntryHash (hash_bytes: bytes)

definition hash_ok :: "entry_hash \<Rightarrow> bool" where
  "hash_ok h \<longleftrightarrow> length (hash_bytes h) = 32"

datatype actor_id = ActorId (actor_val: u32)
datatype stream_id = StreamId (stream_val: u32)
datatype sequence_number = SequenceNumber (sequence_val: u64)

text \<open>The derived \<open>Ord\<close>: arrays compare bytewise, identifiers by their number.\<close>

instantiation entry_hash :: linorder
begin

definition less_eq_entry_hash :: "entry_hash \<Rightarrow> entry_hash \<Rightarrow> bool" where
  "a \<le> b \<longleftrightarrow> hash_bytes a \<le> hash_bytes b"

definition less_entry_hash :: "entry_hash \<Rightarrow> entry_hash \<Rightarrow> bool" where
  "a < b \<longleftrightarrow> hash_bytes a < hash_bytes b"

instance
  by standard (auto simp: less_eq_entry_hash_def less_entry_hash_def entry_hash.expand)

end

instantiation actor_id :: linorder
begin

definition less_eq_actor_id :: "actor_id \<Rightarrow> actor_id \<Rightarrow> bool" where
  "a \<le> b \<longleftrightarrow> actor_val a \<le> actor_val b"

definition less_actor_id :: "actor_id \<Rightarrow> actor_id \<Rightarrow> bool" where
  "a < b \<longleftrightarrow> actor_val a < actor_val b"

instance
  by standard (auto simp: less_eq_actor_id_def less_actor_id_def actor_id.expand)

end

definition MULTIHASH_BLAKE3_CODE :: u8 where "MULTIHASH_BLAKE3_CODE = 0x1e"
definition MULTIHASH_BLAKE3_LEN :: u8 where "MULTIHASH_BLAKE3_LEN = 0x20"
definition FRAMED_HASH_LEN :: nat where "FRAMED_HASH_LEN = 34"

definition to_framed_bytes :: "entry_hash \<Rightarrow> bytes" where
  "to_framed_bytes h = [MULTIHASH_BLAKE3_CODE, MULTIHASH_BLAKE3_LEN] @ hash_bytes h"

definition from_framed_bytes :: "bytes \<Rightarrow> cbor_error + entry_hash" where
  "from_framed_bytes b =
     (if length b \<noteq> FRAMED_HASH_LEN
      then Inl (MalformedManifest ''hash must be a 34-byte framed BLAKE3 multihash'')
      else if b ! 0 \<noteq> MULTIHASH_BLAKE3_CODE \<or> b ! 1 \<noteq> MULTIHASH_BLAKE3_LEN
      then Inl (MalformedManifest ''hash multihash prefix must be [0x1e, 0x20]'')
      else Inr (EntryHash (drop 2 b)))"

definition cbor_hash :: "entry_hash \<Rightarrow> bytes" where
  "cbor_hash h = cbor_bytes (to_framed_bytes h)"

definition decode_hash :: "(cbor_error, entry_hash) decoder" where
  "decode_hash = rd_bind read_bytes (\<lambda>b. rd_lift (from_framed_bytes b))"

text \<open>\<open>u32::try_from\<close> of a \<open>u64\<close>.\<close>

definition u32_try_from :: "u64 \<Rightarrow> u32 option" where
  "u32_try_from v = (if v \<le> 0xffffffff then Some (ucast v) else None)"

definition decode_actor :: "(cbor_error, actor_id) decoder" where
  "decode_actor = rd_bind read_unsigned (\<lambda>v.
     rd_lift (res_map ActorId (ok_or (MalformedManifest ''actor exceeds u32'') (u32_try_from v))))"

definition decode_stream :: "(cbor_error, stream_id) decoder" where
  "decode_stream = rd_bind read_unsigned (\<lambda>v.
     rd_lift (res_map StreamId (ok_or (MalformedManifest ''stream exceeds u32'') (u32_try_from v))))"

definition decode_bytes_16 :: "(cbor_error, bytes) decoder" where
  "decode_bytes_16 = rd_bind read_bytes (\<lambda>b.
     if length b = 16 then rd_return b else rd_fail (MalformedManifest ''identifier must be 16 bytes''))"

section \<open>Hexadecimal form\<close>

datatype hex_error = InvalidLength nat | InvalidChar nat u8

definition HEX :: bytes where
  "HEX = [48, 49, 50, 51, 52, 53, 54, 55, 56, 57, 97, 98, 99, 100, 101, 102]"

definition hash_to_hex :: "entry_hash \<Rightarrow> bytes" where
  "hash_to_hex h = concat (map (\<lambda>b. [HEX ! unat (drop_bit 4 b), HEX ! unat (b AND 0x0f)]) (hash_bytes h))"

definition hex_val :: "u8 \<Rightarrow> u8 option" where
  "hex_val b =
     (if 48 \<le> b \<and> b \<le> 57 then Some (b - 48)
      else if 97 \<le> b \<and> b \<le> 102 then Some (b - 97 + 10)
      else if 65 \<le> b \<and> b \<le> 70 then Some (b - 65 + 10)
      else None)"

text \<open>The loop over \<open>chunks_exact(2)\<close>; \<open>i\<close> is the index of the chunk.\<close>

fun hex_chunks :: "nat \<Rightarrow> bytes \<Rightarrow> hex_error + bytes" where
  "hex_chunks i (a # b # r) =
     res_bind (ok_or (InvalidChar (i * 2) a) (hex_val a)) (\<lambda>high.
     res_bind (ok_or (InvalidChar (i * 2 + 1) b) (hex_val b)) (\<lambda>low.
     res_map (\<lambda>bs. (push_bit 4 high OR low) # bs) (hex_chunks (i + 1) r)))"
| "hex_chunks i _ = Inr []"

definition hash_from_hex :: "bytes \<Rightarrow> hex_error + entry_hash" where
  "hash_from_hex s =
     (if length s \<noteq> 64 then Inl (InvalidLength (length s)) else res_map EntryHash (hex_chunks 0 s))"

section \<open>The outer frame prefix\<close>

datatype frame_error = WrongMagic | FrameUnsupportedVersion u32 | ReservedFlags u32 | HeaderTooLarge u32 | TruncatedFrame

record frame_prefix =
  fp_magic :: bytes
  fp_format_version :: u32
  fp_header_len :: u32

definition FRAME_PREFIX_LEN :: nat where "FRAME_PREFIX_LEN = 16"

definition encode_prefix :: "bytes \<Rightarrow> u32 \<Rightarrow> bytes" where
  "encode_prefix mg hlen =
     mg @ le_bytes 4 (unat FORMAT_VERSION) @ le_bytes 4 (unat hlen) @ le_bytes 4 0"

definition parse_prefix :: "bytes \<Rightarrow> bytes \<Rightarrow> frame_error + frame_prefix" where
  "parse_prefix b expected_magic =
     (if length b < FRAME_PREFIX_LEN then Inl TruncatedFrame
      else let mg = byte_range b 0 4
      in if mg \<noteq> expected_magic then Inl WrongMagic
      else let fv = of_nat (le_val (byte_range b 4 4))
      in if fv \<noteq> FORMAT_VERSION then Inl (FrameUnsupportedVersion fv)
      else let hlen = (of_nat (le_val (byte_range b 8 4)) :: u32)
      in if unat hlen > MAX_HEADER_BYTES then Inl (HeaderTooLarge hlen)
      else let flags = (of_nat (le_val (byte_range b 12 4)) :: u32)
      in if flags \<noteq> 0 then Inl (ReservedFlags flags)
      else Inr \<lparr>fp_magic = mg, fp_format_version = fv, fp_header_len = hlen\<rparr>)"

section \<open>Canonical paths\<close>

datatype path_error = RootEscape | NulByte | TooLong | HashMismatch

text \<open>\<open>raw.split(|b| *b == b'/')\<close>: always at least one component.\<close>

fun split_slash :: "bytes \<Rightarrow> bytes list" where
  "split_slash [] = [[]]"
| "split_slash (b # bs) =
     (if b = 47 then [] # split_slash bs
      else case split_slash bs of c # cs \<Rightarrow> (b # c) # cs | [] \<Rightarrow> [[b]])"

text \<open>The component loop; \<open>out\<close> is the stack, top last.\<close>

fun canonical_components :: "bytes list \<Rightarrow> bytes list \<Rightarrow> path_error + bytes list" where
  "canonical_components out [] = Inr out"
| "canonical_components out (c # cs) =
     (if c = [] \<or> c = [46] then canonical_components out cs
      else if c = [46, 46] then
        (if out = [] then Inl RootEscape else canonical_components (butlast out) cs)
      else canonical_components (out @ [c]) cs)"

fun join_slash :: "bytes list \<Rightarrow> bytes" where
  "join_slash [] = []"
| "join_slash [c] = c"
| "join_slash (c # cs) = c @ 47 # join_slash cs"

definition canonicalize :: "bytes \<Rightarrow> path_error + bytes" where
  "canonicalize raw =
     (if 0 \<in> set raw then Inl NulByte
      else res_bind (canonical_components [] (split_slash raw)) (\<lambda>out.
        let canonical = 47 # join_slash out
        in if length canonical > MAX_CANONICAL_PATH_BYTES then Inl TooLong else Inr canonical))"

record path_ref =
  path_hash :: bytes
  canonical_path :: bytes

definition encode_path_ref :: "path_ref \<Rightarrow> bytes" where
  "encode_path_ref p = cbor_array 2 @ cbor_bytes (path_hash p) @ cbor_bytes (canonical_path p)"

definition decode_path_ref :: "(cbor_error, path_ref) decoder" where
  "decode_path_ref = rd_bind read_array (\<lambda>n.
     if n \<noteq> 2 then rd_fail (MalformedManifest ''path ref must have 2 items'')
     else rd_bind read_bytes (\<lambda>path_bytes.
     if length path_bytes \<noteq> 32 then rd_fail (MalformedManifest ''path hash must be 32 bytes'')
     else rd_bind read_bytes (\<lambda>cpath.
     case canonicalize cpath of
       Inl _ \<Rightarrow> rd_fail (MalformedManifest ''path ref is not canonical'')
     | Inr _ \<Rightarrow>
         if length cpath > MAX_CANONICAL_PATH_BYTES then rd_fail LengthOverflow
         else rd_return \<lparr>path_hash = path_bytes, canonical_path = cpath\<rparr>)))"

text \<open>A component that survives canonicalisation, and a reference a program may hold.\<close>

definition clean_component :: "bytes \<Rightarrow> bool" where
  "clean_component c \<longleftrightarrow> c \<noteq> [] \<and> c \<noteq> [46] \<and> c \<noteq> [46, 46] \<and> 47 \<notin> set c \<and> 0 \<notin> set c"

definition path_ref_ok :: "path_ref \<Rightarrow> bool" where
  "path_ref_ok p \<longleftrightarrow> length (path_hash p) = 32 \<and> canonicalize (canonical_path p) = Inr (canonical_path p)"

section \<open>Codecs of the identifiers\<close>

lemma from_to_framed: "hash_ok h \<Longrightarrow> from_framed_bytes (to_framed_bytes h) = Inr h"
  by (cases h) (simp add: from_framed_bytes_def to_framed_bytes_def hash_ok_def FRAMED_HASH_LEN_def)

lemma to_from_framed: "from_framed_bytes b = Inr h \<Longrightarrow> to_framed_bytes h = b \<and> hash_ok h"
proof -
  assume a: "from_framed_bytes b = Inr h"
  then have l: "length b = 34" "b ! 0 = MULTIHASH_BLAKE3_CODE" "b ! 1 = MULTIHASH_BLAKE3_LEN" "h = EntryHash (drop 2 b)"
    by (auto simp: from_framed_bytes_def FRAMED_HASH_LEN_def split: if_splits)
  moreover obtain x y r where "b = x # y # r" using l(1) by (cases b; cases "tl b") auto
  ultimately show ?thesis by (simp add: to_framed_bytes_def hash_ok_def)
qed

lemma reads_hash:
  assumes "hash_ok h"
  shows "reads decode_hash (cbor_hash h) h"
  unfolding decode_hash_def cbor_hash_def
proof (rule reads_bind_last)
  show "reads read_bytes (cbor_bytes (to_framed_bytes h)) (to_framed_bytes h)"
    using assms by (intro reads_bytes) (simp add: to_framed_bytes_def hash_ok_def)
  show "reads (rd_lift (from_framed_bytes (to_framed_bytes h))) [] h"
    by (rule reads_lift) (rule from_to_framed [OF assms])
qed

interpretation hash_codec: codec cbor_hash decode_hash hash_ok
  by unfold_locales (rule reads_hash)

lemma u32_try_from_ucast [simp]: "u32_try_from (ucast (v :: u32)) = Some v"
proof -
  have u: "unat (ucast v :: u64) = unat v"
    using unsigned_less [of v, where ?'a = nat] by (simp add: unsigned_ucast_eq take_bit_nat_eq_self_iff)
  moreover have "unat v < 2 ^ 32" using unsigned_less [of v, where ?'a = nat] by simp
  moreover have "(ucast (ucast v :: u64) :: u32) = v" by (rule bit_word_eqI) (simp add: bit_simps)
  ultimately show ?thesis by (simp add: u32_try_from_def word_le_nat_alt)
qed

lemma reads_actor: "reads decode_actor (cbor_unsigned (ucast (actor_val a))) a"
  unfolding decode_actor_def
  by (rule reads_bind_last [OF reads_unsigned]) (cases a, simp add: reads_lift)

lemma reads_stream: "reads decode_stream (cbor_unsigned (ucast (stream_val a))) a"
  unfolding decode_stream_def
  by (rule reads_bind_last [OF reads_unsigned]) (cases a, simp add: reads_lift)

lemma reads_bytes_16: "length b = 16 \<Longrightarrow> reads decode_bytes_16 (cbor_bytes b) b"
  unfolding decode_bytes_16_def
  by (rule reads_bind_last [OF reads_bytes]) (simp_all add: reads_return)

interpretation actor_codec: codec "\<lambda>a. cbor_unsigned (ucast (actor_val a))" decode_actor "\<lambda>_. True"
  by unfold_locales (rule reads_actor)

section \<open>Hexadecimal round trip\<close>

lemma HEX_val: "n < 16 \<Longrightarrow> hex_val (HEX ! n) = Some (of_nat n)"
proof -
  have "\<forall>n\<in>set [0..<16]. hex_val (HEX ! n) = Some (of_nat n)" by (simp add: HEX_def hex_val_def upt_rec)
  then show "n < 16 \<Longrightarrow> ?thesis" by simp
qed

lemma nibbles: "push_bit 4 (drop_bit 4 b) OR (b AND 0x0f) = (b :: u8)"
proof -
  have m: "(0x0f :: u8) = mask 4" by (simp add: mask_eq_exp_minus_1)
  show ?thesis unfolding m by (rule bit_word_eqI) (auto simp: bit_simps)
qed

lemma nibble_bounds: "unat (drop_bit 4 (b :: u8)) < 16" "unat (b AND (0x0f :: u8)) < 16"
proof -
  have "unat b < 16 * 2 ^ 4" using unat_u8_le [of b] by simp
  then show "unat (drop_bit 4 b) < 16" unfolding unat_drop_bit_div by (rule less_mult_imp_div_less)
  have "(0x0f :: u8) = mask 4" by (simp add: mask_eq_exp_minus_1)
  then show "unat (b AND 0x0f) < 16" by (simp only: unat_and_mask) simp
qed

lemma hex_chunks_encode:
  "hex_chunks i (concat (map (\<lambda>b. [HEX ! unat (drop_bit 4 b), HEX ! unat (b AND 0x0f)]) bs)) = Inr bs"
proof (induction bs arbitrary: i)
  case (Cons b bs)
  then show ?case by (simp add: HEX_val [OF nibble_bounds(1)] HEX_val [OF nibble_bounds(2)] nibbles)
qed simp

lemma length_hash_to_hex: "length (hash_to_hex h) = 2 * length (hash_bytes h)"
  by (simp add: hash_to_hex_def length_concat comp_def sum_list_triv)

text \<open>
  C36: the hexadecimal form of a content address parses back to it.
\<close>

theorem hex_roundtrip:
  assumes "hash_ok h"
  shows "hash_from_hex (hash_to_hex h) = Inr h"
  using assms length_hash_to_hex [of h] hex_chunks_encode [of 0 "hash_bytes h"]
  by (simp add: hash_from_hex_def hash_ok_def) (simp add: hash_to_hex_def)

theorem hex_roundtrip_witness:
  "hash_from_hex (hash_to_hex (EntryHash (replicate 32 0xa5))) = Inr (EntryHash (replicate 32 0xa5))"
  by (rule hex_roundtrip) (simp add: hash_ok_def)

section \<open>Frame prefixes\<close>

lemma le_byte_range:
  assumes "start + 4 \<le> length b"
  shows "le_bytes 4 (unat (of_nat (le_val (byte_range b start 4)) :: u32)) = byte_range b start 4"
proof -
  have "le_val (byte_range b start 4) < 256 ^ 4" using le_val_bound [of "byte_range b start 4"] assms by simp
  then have "unat (of_nat (le_val (byte_range b start 4)) :: u32) = le_val (byte_range b start 4)"
    by (simp add: unat_of_nat)
  then show ?thesis using le_bytes_le_val [of "byte_range b start 4"] assms by simp
qed

lemma le_bytes_of_u32: "of_nat (le_val (le_bytes 4 (unat v))) = (v :: u32)"
proof -
  have "unat v < 256 ^ 4" using unsigned_less [of v, where ?'a = nat] by simp
  then show ?thesis by simp
qed

lemma parse_encode_prefix:
  assumes "length mg = 4" "unat hlen \<le> MAX_HEADER_BYTES"
  shows "parse_prefix (encode_prefix mg hlen @ rest) mg
      = Inr \<lparr>fp_magic = mg, fp_format_version = FORMAT_VERSION, fp_header_len = hlen\<rparr>"
proof -
  let ?b = "encode_prefix mg hlen @ rest"
  have r: "byte_range ?b 0 4 = mg" "byte_range ?b 4 4 = le_bytes 4 (unat FORMAT_VERSION)"
      "byte_range ?b 8 4 = le_bytes 4 (unat hlen)" "byte_range ?b 12 4 = le_bytes 4 0"
    using assms(1) by (simp_all add: byte_range_def encode_prefix_def)
  have l: "\<not> length ?b < FRAME_PREFIX_LEN" using assms(1) by (simp add: encode_prefix_def FRAME_PREFIX_LEN_def)
  show ?thesis
    unfolding parse_prefix_def r Let_def le_bytes_of_u32
    using l assms(2) by simp
qed

lemma encode_parse_prefix:
  assumes "parse_prefix b mg = Inr p"
  shows "take 16 b = encode_prefix mg (fp_header_len p)
      \<and> fp_magic p = mg \<and> fp_format_version p = FORMAT_VERSION \<and> unat (fp_header_len p) \<le> MAX_HEADER_BYTES"
proof -
  let ?w = "\<lambda>s. of_nat (le_val (byte_range b s 4)) :: u32"
  have h: "16 \<le> length b" "byte_range b 0 4 = mg" "?w 4 = FORMAT_VERSION" "unat (?w 8) \<le> MAX_HEADER_BYTES" "?w 12 = 0"
      "p = \<lparr>fp_magic = mg, fp_format_version = ?w 4, fp_header_len = ?w 8\<rparr>"
    using assms by (auto simp: parse_prefix_def FRAME_PREFIX_LEN_def Let_def split: if_splits)
  have "take 16 b = byte_range b 0 (4 - 0) @ byte_range b 4 (8 - 4) @ byte_range b 8 (12 - 8) @ byte_range b 12 (16 - 12)"
    using byte_range_append [of 0 4 16 b] byte_range_append [of 4 8 16 b] byte_range_append [of 8 12 16 b]
    by (simp add: byte_range_def)
  also have "\<dots> = mg @ le_bytes 4 (unat (?w 4)) @ le_bytes 4 (unat (?w 8)) @ le_bytes 4 (unat (?w 12))"
    using h(1,2) le_byte_range [of 4 b] le_byte_range [of 8 b] le_byte_range [of 12 b] by simp
  finally show ?thesis using h by (simp add: encode_prefix_def)
qed

section \<open>Canonical paths are fixed points\<close>

lemma split_slash_not_Nil: "split_slash bs \<noteq> []"
  by (induction bs) (auto split: list.splits)

lemma split_slash_single: "47 \<notin> set c \<Longrightarrow> split_slash c = [c]"
  by (induction c) auto

lemma split_slash_append: "47 \<notin> set c \<Longrightarrow> split_slash (c @ 47 # r) = c # split_slash r"
  by (induction c) auto

lemma split_slash_components:
  "c \<in> set (split_slash bs) \<Longrightarrow> 47 \<notin> set c \<and> set c \<subseteq> set bs"
proof (induction bs arbitrary: c)
  case (Cons b bs)
  obtain a r where s: "split_slash bs = a # r" using split_slash_not_Nil [of bs] by (cases "split_slash bs") auto
  have "c = [] \<or> c \<in> set (a # r) \<or> b \<noteq> 47 \<and> c = b # a" using Cons.prems s by (auto split: if_splits)
  then show ?case using Cons.IH s by fastforce
qed auto

lemma split_join: "list_all clean_component cs \<Longrightarrow> cs \<noteq> [] \<Longrightarrow> split_slash (join_slash cs) = cs"
  by (induction cs rule: join_slash.induct) (auto simp: clean_component_def split_slash_single split_slash_append)

lemma canonical_components_clean:
  "list_all clean_component cs \<Longrightarrow> canonical_components out cs = Inr (out @ cs)"
  by (induction cs arbitrary: out) (auto simp: clean_component_def)

lemma canonical_components_result:
  "canonical_components out cs = Inr res \<Longrightarrow> list_all clean_component out \<Longrightarrow>
   (\<forall>c\<in>set cs. 47 \<notin> set c \<and> 0 \<notin> set c) \<Longrightarrow> list_all clean_component res"
proof (induction out cs rule: canonical_components.induct)
  case (2 out c cs)
  have r: "\<forall>c\<in>set cs. 47 \<notin> set c \<and> 0 \<notin> set c" using "2.prems"(3) by simp
  consider "c = [] \<or> c = [46]" | "c \<noteq> []" "c \<noteq> [46]" "c = [46, 46]" | "c \<noteq> []" "c \<noteq> [46]" "c \<noteq> [46, 46]" by blast
  then show ?case
  proof cases
    case 1
    then show ?thesis using "2.IH"(1) "2.prems"(1,2) r by simp
  next
    case 2
    have "list_all clean_component (butlast out)"
      using \<open>list_all clean_component out\<close> by (auto simp: list_all_iff dest: in_set_butlastD)
    then show ?thesis using 2 "2.IH"(2) "2.prems"(1) r by (simp split: if_splits)
  next
    case 3
    have "clean_component c" using "2.prems"(3) 3 by (simp add: clean_component_def)
    then have "list_all clean_component (out @ [c])" using "2.prems"(2) by simp
    then show ?thesis using 3 "2.IH"(3) "2.prems"(1) r by simp
  qed
qed auto

lemma set_join_slash: "set (join_slash cs) \<subseteq> {47} \<union> (\<Union>c\<in>set cs. set c)"
  by (induction cs rule: join_slash.induct) auto

lemma canonicalize_Inr:
  assumes "canonicalize raw = Inr p"
  shows "\<exists>cs. list_all clean_component cs \<and> p = 47 # join_slash cs \<and> length p \<le> MAX_CANONICAL_PATH_BYTES"
proof -
  obtain cs where cs: "0 \<notin> set raw" "canonical_components [] (split_slash raw) = Inr cs"
      "p = 47 # join_slash cs" "length p \<le> MAX_CANONICAL_PATH_BYTES"
    using assms by (auto simp: canonicalize_def Let_def split: if_splits)
  have "list_all clean_component cs"
    using canonical_components_result [OF cs(2)] split_slash_components [of _ raw] cs(1) by force
  then show ?thesis using cs by blast
qed

lemma canonicalize_clean:
  assumes "list_all clean_component cs" "length (47 # join_slash cs) \<le> MAX_CANONICAL_PATH_BYTES"
  shows "canonicalize (47 # join_slash cs) = Inr (47 # join_slash cs)"
proof -
  have "0 \<notin> set (join_slash cs)"
    using set_join_slash [of cs] assms(1) by (auto simp: list_all_iff clean_component_def)
  moreover have "canonical_components [] (split_slash (47 # join_slash cs)) = Inr cs"
    using split_join [OF assms(1)] canonical_components_clean [OF assms(1), of "[]"]
    by (cases "cs = []") auto
  ultimately show ?thesis using assms(2) by (simp add: canonicalize_def)
qed

lemma reads_path_ref:
  assumes "path_ref_ok p"
  shows "reads decode_path_ref (encode_path_ref p) p"
proof -
  have l: "length (canonical_path p) \<le> MAX_CANONICAL_PATH_BYTES"
    using assms canonicalize_Inr [of "canonical_path p" "canonical_path p"] by (auto simp: path_ref_ok_def)
  then have l64: "length (canonical_path p) < 2 ^ 64" "length (path_hash p) < 2 ^ 64"
    using assms by (simp_all add: MAX_CANONICAL_PATH_BYTES_def path_ref_ok_def)
  have "2 \<le> length (cbor_bytes (path_hash p) @ cbor_bytes (canonical_path p))"
    using assms by (simp add: path_ref_ok_def cbor_bytes_def)
  then show ?thesis
    unfolding decode_path_ref_def encode_path_ref_def
    using assms l
    by (intro reads_array_bind) (auto simp: path_ref_ok_def
        intro!: reads_bind [OF reads_bytes [OF l64(2)]] reads_bind_last [OF reads_bytes [OF l64(1)]] reads_return_eq)
qed

interpretation path_ref_codec: codec encode_path_ref decode_path_ref path_ref_ok
  by unfold_locales (rule reads_path_ref)


text \<open>
  C34: a frame prefix that is accepted consists of exactly the encoding of the parsed fields: the
  expected magic, the supported version, a bounded header length and no reserved flag.
\<close>

theorem frame_prefix_sound:
  assumes "parse_prefix b mg = Inr p"
  shows "take FRAME_PREFIX_LEN b = encode_prefix mg (fp_header_len p) \<and> fp_magic p = mg
    \<and> fp_format_version p = FORMAT_VERSION \<and> unat (fp_header_len p) \<le> MAX_HEADER_BYTES"
  using encode_parse_prefix [OF assms] by (simp add: FRAME_PREFIX_LEN_def)

theorem frame_prefix_sound_witness:
  "take FRAME_PREFIX_LEN (encode_prefix [0x4c, 0x44, 0x47, 0x53] 700 @ [1]) = encode_prefix [0x4c, 0x44, 0x47, 0x53] 700"
  using frame_prefix_sound [OF parse_encode_prefix [of "[0x4c, 0x44, 0x47, 0x53]" 700 "[1]"]]
  by (simp add: MAX_HEADER_BYTES_def)

text \<open>
  C35: canonicalising a path is idempotent, and the result is absolute, within the length limit and
  free of NUL bytes.
\<close>

theorem canonicalize_idempotent:
  assumes "canonicalize raw = Inr p"
  shows "canonicalize p = Inr p \<and> hd p = 47 \<and> length p \<le> MAX_CANONICAL_PATH_BYTES \<and> 0 \<notin> set p"
proof -
  obtain cs where cs: "list_all clean_component cs" "p = 47 # join_slash cs" "length p \<le> MAX_CANONICAL_PATH_BYTES"
    using canonicalize_Inr [OF assms] by blast
  have "canonicalize p = Inr p" using canonicalize_clean [OF cs(1)] cs(2,3) by simp
  moreover from this have "0 \<notin> set p" by (auto simp: canonicalize_def split: if_splits)
  ultimately show ?thesis using cs by simp
qed

theorem canonicalize_idempotent_witness:
  "canonicalize [47, 97, 47, 98] = Inr [47, 97, 47, 98]"
proof -
  have "canonicalize [97, 47, 46, 47, 99, 47, 46, 46, 47, 47, 98, 47] = Inr [47, 97, 47, 98]"
    by (simp add: canonicalize_def MAX_CANONICAL_PATH_BYTES_def)
  from canonicalize_idempotent [OF this] show ?thesis by simp
qed

end
