(* ===== verification/Entry_Types.thy ===== *)
theory Entry_Types
  imports Canonical_Value Wire_Primitives
begin

text \<open>
  The entry taxonomy of \<open>entry.rs\<close>: kinds and their tags, the typed payloads and the
  canonical encoding of payloads and entries. A payload encoder fails only where a bounded
  canonical value does.
\<close>

section \<open>Kinds\<close>

datatype entry_kind =
    KSpawn | KBlock | KWake | KTimerSet | KTimerFire | KClockRead | KSend | KRecv | KFsWrite | KFsFsync
  | KFsRead | KRngDraw | KOutcome | KAssert | KSnapshot | KEpoch | KInputStep | KCapRequest | KCapGrant
  | KCapInvoke | KCapRevoke | KFault | KStepBegin | KStepEnd

primrec tag :: "entry_kind \<Rightarrow> u64" where
  "tag KSpawn = 0" | "tag KBlock = 1" | "tag KWake = 2" | "tag KTimerSet = 3" | "tag KTimerFire = 4"
| "tag KClockRead = 5" | "tag KSend = 6" | "tag KRecv = 7" | "tag KFsWrite = 8" | "tag KFsFsync = 9"
| "tag KFsRead = 10" | "tag KRngDraw = 11" | "tag KOutcome = 12" | "tag KAssert = 13" | "tag KSnapshot = 14"
| "tag KEpoch = 15" | "tag KInputStep = 16" | "tag KCapRequest = 17" | "tag KCapGrant = 18"
| "tag KCapInvoke = 19" | "tag KCapRevoke = 20" | "tag KFault = 21" | "tag KStepBegin = 22" | "tag KStepEnd = 23"

definition from_tag :: "u64 \<Rightarrow> entry_kind option" where
  "from_tag t =
     (if t = 0 then Some KSpawn else if t = 1 then Some KBlock else if t = 2 then Some KWake
      else if t = 3 then Some KTimerSet else if t = 4 then Some KTimerFire else if t = 5 then Some KClockRead
      else if t = 6 then Some KSend else if t = 7 then Some KRecv else if t = 8 then Some KFsWrite
      else if t = 9 then Some KFsFsync else if t = 10 then Some KFsRead else if t = 11 then Some KRngDraw
      else if t = 12 then Some KOutcome else if t = 13 then Some KAssert else if t = 14 then Some KSnapshot
      else if t = 15 then Some KEpoch else if t = 16 then Some KInputStep else if t = 17 then Some KCapRequest
      else if t = 18 then Some KCapGrant else if t = 19 then Some KCapInvoke else if t = 20 then Some KCapRevoke
      else if t = 21 then Some KFault else if t = 22 then Some KStepBegin else if t = 23 then Some KStepEnd
      else None)"

section \<open>Payloads\<close>

record message_id =
  sender :: actor_id
  sender_sequence :: u64

datatype block_payload = Yield | WaitMessage

datatype wake_payload = TimerReady u64 | MessageReady message_id

datatype step_end_payload =
    Completed u64 canonical_value
  | Failed u64 canonical_value
  | Cancelled u64 canonical_value

record send_frame =
  sf_message_id :: message_id
  sf_from :: actor_id
  sf_to :: actor_id
  sf_original_content :: bytes

record recv_frame =
  rf_message_id :: message_id
  rf_from :: actor_id
  rf_to :: actor_id
  rf_observed_content :: bytes

datatype fs_write_payload =
    Write path_ref u64 bytes
  | Allocate path_ref
  | Rename path_ref path_ref

record fs_sync_payload =
  fy_path_ref :: path_ref

datatype observed_read = Missing | Present bytes

record fs_read_payload =
  fr_path_ref :: path_ref
  fr_offset :: u64
  fr_requested_len :: u64
  fr_observed :: observed_read

record rng_draw_payload =
  rd_stream :: stream_id
  rd_draw_index :: u64
  rd_content :: bytes

record outcome_payload =
  oc_schema :: entry_hash
  oc_value :: canonical_value

record assert_payload =
  as_predicate :: entry_hash
  as_passed :: bool
  as_detail :: canonical_value

record snapshot_payload =
  snapshot_digest :: entry_hash

record epoch_payload =
  ep_epoch :: u64

record input_step_payload =
  is_generator :: u64
  is_replay :: u64
  is_value :: canonical_value

record cap_request_payload =
  cr_request :: bytes
  cr_subject :: entry_hash
  cr_capability :: entry_hash

record cap_grant_payload =
  cg_request :: bytes
  cg_grant :: bytes
  cg_epoch :: u64

record cap_invoke_payload =
  ci_grant :: bytes
  ci_operation :: entry_hash

record cap_revoke_payload =
  cv_grant :: bytes
  cv_epoch :: u64

datatype crash_operation =
    DropAllUnsynced
  | DropPaths "path_ref list"
  | TornWrite entry_hash u64
  | CorruptRange entry_hash u64 bytes
  | BitFlip entry_hash u64 u8

datatype fault_payload =
    DropMessage message_id
  | DelayMessage message_id u64
  | DuplicateMessage message_id u32
  | CorruptMessage message_id u64 bytes
  | Partition actor_id actor_id bool
  | CrashActor actor_id crash_operation

record step_begin_payload =
  sb_step_id :: u64
  sb_name :: bytes
  sb_idempotency_key :: "bytes option"

datatype entry_payload =
    Spawn actor_id
  | Block block_payload
  | Wake wake_payload
  | TimerSet u64 u64
  | TimerFire u64 u64
  | ClockRead u64
  | Send send_frame
  | Recv recv_frame
  | FsWrite fs_write_payload
  | FsFsync fs_sync_payload
  | FsRead fs_read_payload
  | RngDraw rng_draw_payload
  | Outcome outcome_payload
  | Assert assert_payload
  | Snapshot snapshot_payload
  | Epoch epoch_payload
  | InputStep input_step_payload
  | CapRequest cap_request_payload
  | CapGrant cap_grant_payload
  | CapInvoke cap_invoke_payload
  | CapRevoke cap_revoke_payload
  | Fault fault_payload
  | StepBegin step_begin_payload
  | StepEnd step_end_payload

primrec payload_kind :: "entry_payload \<Rightarrow> entry_kind" where
  "payload_kind (Spawn a) = KSpawn" | "payload_kind (Block b) = KBlock" | "payload_kind (Wake w) = KWake"
| "payload_kind (TimerSet i d) = KTimerSet" | "payload_kind (TimerFire i d) = KTimerFire"
| "payload_kind (ClockRead t) = KClockRead" | "payload_kind (Send s) = KSend" | "payload_kind (Recv r) = KRecv"
| "payload_kind (FsWrite w) = KFsWrite" | "payload_kind (FsFsync y) = KFsFsync" | "payload_kind (FsRead r) = KFsRead"
| "payload_kind (RngDraw r) = KRngDraw" | "payload_kind (Outcome oc) = KOutcome" | "payload_kind (Assert a) = KAssert"
| "payload_kind (Snapshot s) = KSnapshot" | "payload_kind (Epoch e) = KEpoch"
| "payload_kind (InputStep i) = KInputStep" | "payload_kind (CapRequest c) = KCapRequest"
| "payload_kind (CapGrant c) = KCapGrant" | "payload_kind (CapInvoke c) = KCapInvoke"
| "payload_kind (CapRevoke c) = KCapRevoke" | "payload_kind (Fault f) = KFault"
| "payload_kind (StepBegin s) = KStepBegin" | "payload_kind (StepEnd s) = KStepEnd"

section \<open>Payload encoders\<close>

definition cbor_actor :: "actor_id \<Rightarrow> bytes" where
  "cbor_actor a = cbor_unsigned (ucast (actor_val a))"

definition encode_message_id :: "message_id \<Rightarrow> bytes" where
  "encode_message_id i = cbor_array 2 @ cbor_actor (sender i) @ cbor_unsigned (sender_sequence i)"

primrec encode_wake :: "wake_payload \<Rightarrow> bytes" where
  "encode_wake (TimerReady timer_id) = cbor_array 2 @ cbor_unsigned 0 @ cbor_unsigned timer_id"
| "encode_wake (MessageReady i) = cbor_array 2 @ cbor_unsigned 1 @ encode_message_id i"

primrec encode_fs_write :: "fs_write_payload \<Rightarrow> bytes" where
  "encode_fs_write (Write p off content) =
     cbor_array 4 @ cbor_unsigned 0 @ encode_path_ref p @ cbor_unsigned off @ cbor_bytes content"
| "encode_fs_write (Allocate p) = cbor_array 2 @ cbor_unsigned 1 @ encode_path_ref p"
| "encode_fs_write (Rename p q) = cbor_array 3 @ cbor_unsigned 2 @ encode_path_ref p @ encode_path_ref q"

primrec encode_observed :: "observed_read \<Rightarrow> bytes" where
  "encode_observed Missing = cbor_array 1 @ cbor_unsigned 0"
| "encode_observed (Present content) = cbor_array 2 @ cbor_unsigned 1 @ cbor_bytes content"

primrec encode_crash_operation :: "crash_operation \<Rightarrow> bytes" where
  "encode_crash_operation DropAllUnsynced = cbor_array 1 @ cbor_unsigned 0"
| "encode_crash_operation (DropPaths paths) =
     cbor_array 2 @ cbor_unsigned 1 @ cbor_array (length paths) @ concat (map encode_path_ref paths)"
| "encode_crash_operation (TornWrite h persisted) =
     cbor_array 3 @ cbor_unsigned 2 @ cbor_hash h @ cbor_unsigned persisted"
| "encode_crash_operation (CorruptRange h off xor_bytes) =
     cbor_array 4 @ cbor_unsigned 3 @ cbor_hash h @ cbor_unsigned off @ cbor_bytes xor_bytes"
| "encode_crash_operation (BitFlip h off b) =
     cbor_array 4 @ cbor_unsigned 4 @ cbor_hash h @ cbor_unsigned off @ cbor_unsigned (ucast b)"

primrec encode_fault_payload :: "fault_payload \<Rightarrow> bytes" where
  "encode_fault_payload (DropMessage i) = cbor_array 2 @ cbor_unsigned 0 @ encode_message_id i"
| "encode_fault_payload (DelayMessage i ticks) =
     cbor_array 3 @ cbor_unsigned 1 @ encode_message_id i @ cbor_unsigned ticks"
| "encode_fault_payload (DuplicateMessage i n) =
     cbor_array 3 @ cbor_unsigned 2 @ encode_message_id i @ cbor_unsigned (ucast n)"
| "encode_fault_payload (CorruptMessage i off xor_bytes) =
     cbor_array 4 @ cbor_unsigned 3 @ encode_message_id i @ cbor_unsigned off @ cbor_bytes xor_bytes"
| "encode_fault_payload (Partition a b enabled) =
     cbor_array 4 @ cbor_unsigned 4 @ cbor_actor a @ cbor_actor b @ cbor_boolean enabled"
| "encode_fault_payload (CrashActor a operation) =
     cbor_array 3 @ cbor_unsigned 5 @ cbor_actor a @ encode_crash_operation operation"

text \<open>A canonical value inside a payload; its error is reported with the given message.\<close>

definition encode_nested_value :: "string \<Rightarrow> canonical_value \<Rightarrow> cbor_error + bytes" where
  "encode_nested_value msg v = map_err (\<lambda>_. MalformedManifest msg) (value_try_encode v)"

primrec encode_step_end :: "step_end_payload \<Rightarrow> cbor_error + bytes" where
  "encode_step_end (Completed i v) = res_map (\<lambda>b. cbor_array 3 @ cbor_unsigned 0 @ cbor_unsigned i @ b)
     (encode_nested_value ''step-end value exceeds canonical bounds'' v)"
| "encode_step_end (Failed i v) = res_map (\<lambda>b. cbor_array 3 @ cbor_unsigned 1 @ cbor_unsigned i @ b)
     (encode_nested_value ''step-end value exceeds canonical bounds'' v)"
| "encode_step_end (Cancelled i v) = res_map (\<lambda>b. cbor_array 3 @ cbor_unsigned 2 @ cbor_unsigned i @ b)
     (encode_nested_value ''step-end value exceeds canonical bounds'' v)"

definition encode_step_begin :: "step_begin_payload \<Rightarrow> bytes" where
  "encode_step_begin s = cbor_array 3 @ cbor_unsigned (sb_step_id s) @ cbor_bytes (sb_name s) @
     (case sb_idempotency_key s of Some key \<Rightarrow> cbor_bytes key | None \<Rightarrow> cbor_null)"

primrec encode_payload :: "entry_payload \<Rightarrow> cbor_error + bytes" where
  "encode_payload (Spawn child) = Inr (cbor_array 1 @ cbor_actor child)"
| "encode_payload (Block b) =
     Inr (cbor_array 1 @ (case b of Yield \<Rightarrow> cbor_unsigned 0 | WaitMessage \<Rightarrow> cbor_unsigned 1))"
| "encode_payload (Wake w) = Inr (encode_wake w)"
| "encode_payload (TimerSet i d) = Inr (cbor_array 2 @ cbor_unsigned i @ cbor_unsigned d)"
| "encode_payload (TimerFire i d) = Inr (cbor_array 2 @ cbor_unsigned i @ cbor_unsigned d)"
| "encode_payload (ClockRead t) = Inr (cbor_array 1 @ cbor_unsigned t)"
| "encode_payload (Send f) = Inr (cbor_array 4 @ encode_message_id (sf_message_id f) @ cbor_actor (sf_from f) @
     cbor_actor (sf_to f) @ cbor_bytes (sf_original_content f))"
| "encode_payload (Recv f) = Inr (cbor_array 4 @ encode_message_id (rf_message_id f) @ cbor_actor (rf_from f) @
     cbor_actor (rf_to f) @ cbor_bytes (rf_observed_content f))"
| "encode_payload (FsWrite w) = Inr (encode_fs_write w)"
| "encode_payload (FsFsync y) = Inr (cbor_array 1 @ encode_path_ref (fy_path_ref y))"
| "encode_payload (FsRead r) = Inr (cbor_array 4 @ encode_path_ref (fr_path_ref r) @ cbor_unsigned (fr_offset r) @
     cbor_unsigned (fr_requested_len r) @ encode_observed (fr_observed r))"
| "encode_payload (RngDraw r) = Inr (cbor_array 3 @ cbor_unsigned (ucast (stream_val (rd_stream r))) @
     cbor_unsigned (rd_draw_index r) @ cbor_bytes (rd_content r))"
| "encode_payload (Outcome oc) = res_map (\<lambda>b. cbor_array 2 @ cbor_hash (oc_schema oc) @ b)
     (encode_nested_value ''outcome value exceeds canonical bounds'' (oc_value oc))"
| "encode_payload (Assert a) = res_map (\<lambda>b. cbor_array 3 @ cbor_hash (as_predicate a) @ cbor_boolean (as_passed a) @ b)
     (encode_nested_value ''assert detail exceeds canonical bounds'' (as_detail a))"
| "encode_payload (Snapshot s) = Inr (cbor_array 1 @ cbor_hash (snapshot_digest s))"
| "encode_payload (Epoch e) = Inr (cbor_array 1 @ cbor_unsigned (ep_epoch e))"
| "encode_payload (InputStep i) =
     res_map (\<lambda>b. cbor_array 3 @ cbor_unsigned (is_generator i) @ cbor_unsigned (is_replay i) @ b)
       (encode_nested_value ''input value exceeds canonical bounds'' (is_value i))"
| "encode_payload (CapRequest c) =
     Inr (cbor_array 3 @ cbor_bytes (cr_request c) @ cbor_hash (cr_subject c) @ cbor_hash (cr_capability c))"
| "encode_payload (CapGrant c) =
     Inr (cbor_array 3 @ cbor_bytes (cg_request c) @ cbor_bytes (cg_grant c) @ cbor_unsigned (cg_epoch c))"
| "encode_payload (CapInvoke c) = Inr (cbor_array 2 @ cbor_bytes (ci_grant c) @ cbor_hash (ci_operation c))"
| "encode_payload (CapRevoke c) = Inr (cbor_array 2 @ cbor_bytes (cv_grant c) @ cbor_unsigned (cv_epoch c))"
| "encode_payload (Fault f) = Inr (encode_fault_payload f)"
| "encode_payload (StepBegin s) = Inr (encode_step_begin s)"
| "encode_payload (StepEnd s) = encode_step_end s"

section \<open>Entries\<close>

record entry_data =
  ed_format_version :: u32
  ed_kind :: entry_kind
  ed_actor :: actor_id
  ed_parents :: "entry_hash list"
  ed_vector_clock :: "u64 list"
  ed_sequence :: sequence_number
  ed_payload :: entry_payload

text \<open>
  \<open>EntryData::encode_into\<close>: on success the bytes appended to the buffer. The payload is the last
  field and the size is checked after it.
\<close>

definition entry_encode :: "entry_data \<Rightarrow> cbor_error + bytes" where
  "entry_encode e =
     (if length (ed_parents e) > MAX_PARENTS_PER_ENTRY then Inl LengthOverflow
      else res_bind (encode_payload (ed_payload e)) (\<lambda>p.
        let encoded = cbor_array 7 @ cbor_unsigned (ucast (ed_format_version e)) @ cbor_unsigned (tag (ed_kind e)) @
              cbor_actor (ed_actor e) @
              cbor_array (length (ed_parents e)) @ concat (map cbor_hash (ed_parents e)) @
              cbor_array (length (ed_vector_clock e)) @ concat (map cbor_unsigned (ed_vector_clock e)) @
              cbor_unsigned (sequence_val (ed_sequence e)) @ p
        in if length encoded > MAX_ENTRY_BYTES then Inl (EntryTooLarge (length encoded)) else Inr encoded))"

definition try_canonical_bytes :: "entry_data \<Rightarrow> cbor_error + bytes" where
  "try_canonical_bytes e = entry_encode e"

end
