(* ===== verification/Entry_Decode.thy ===== *)
theory Entry_Decode
  imports Entry_Types
begin

text \<open>
  The entry decoder of \<open>entry.rs\<close>: \<open>decode_payload\<close>, one definition per kind, the nested
  decoders it calls and \<open>EntryData::from_canonical_bytes\<close>.
\<close>

section \<open>Nested decoders\<close>

text \<open>\<open>let n = reader.read_array()?; if n != k { return Err(MalformedManifest(msg)) }\<close>\<close>

definition expect_items :: "nat \<Rightarrow> string \<Rightarrow> (cbor_error, 'a) decoder \<Rightarrow> (cbor_error, 'a) decoder" where
  "expect_items k msg m = rd_bind read_array (\<lambda>n. if n \<noteq> k then rd_fail (MalformedManifest msg) else m)"

definition decode_message_id :: "(cbor_error, message_id) decoder" where
  "decode_message_id = expect_items 2 ''message id must have 2 items''
     (rd_bind decode_actor (\<lambda>s. rd_bind read_unsigned (\<lambda>n.
        rd_return \<lparr>sender = s, sender_sequence = n\<rparr>)))"

definition nonempty_xor :: "bytes \<Rightarrow> 'a \<Rightarrow> (cbor_error, 'a) decoder" where
  "nonempty_xor xor_bytes v =
     (if xor_bytes = [] then rd_fail (MalformedManifest ''empty XOR content is rejected'') else rd_return v)"

definition decode_crash_operation :: "(cbor_error, crash_operation) decoder" where
  "decode_crash_operation = rd_bind read_array (\<lambda>n.
     if \<not> (1 \<le> n \<and> n \<le> 4) then rd_fail (MalformedManifest ''crash operation must have 1..=4 items'')
     else rd_bind read_unsigned (\<lambda>d.
       if d = 0 then rd_return DropAllUnsynced
       else if d = 1 then rd_bind read_array (\<lambda>m. rd_bind (rd_repeat decode_path_ref m) (\<lambda>ps. rd_return (DropPaths ps)))
       else if d = 2 then rd_bind decode_hash (\<lambda>h. rd_bind read_unsigned (\<lambda>p. rd_return (TornWrite h p)))
       else if d = 3 then rd_bind decode_hash (\<lambda>h. rd_bind read_unsigned (\<lambda>off. rd_bind read_bytes (\<lambda>x.
         nonempty_xor x (CorruptRange h off x))))
       else if d = 4 then rd_bind decode_hash (\<lambda>h. rd_bind read_unsigned (\<lambda>off. rd_bind read_unsigned (\<lambda>b.
         if b > 0xff then rd_fail (MalformedManifest ''bit exceeds u8'')
         else if (ucast b :: u8) > 7 then rd_fail (MalformedManifest ''bit must be in 0..=7'')
         else rd_return (BitFlip h off (ucast b)))))
       else rd_fail (UnsupportedType 0)))"

definition decode_fault_payload :: "(cbor_error, fault_payload) decoder" where
  "decode_fault_payload = rd_bind read_array (\<lambda>n.
     if \<not> (2 \<le> n \<and> n \<le> 4) then rd_fail (MalformedManifest ''Fault payload must have 2..=4 items'')
     else rd_bind read_unsigned (\<lambda>d.
       if d = 0 then rd_bind decode_message_id (\<lambda>i. rd_return (DropMessage i))
       else if d = 1 then rd_bind decode_message_id (\<lambda>i. rd_bind read_unsigned (\<lambda>t. rd_return (DelayMessage i t)))
       else if d = 2 then rd_bind decode_message_id (\<lambda>i. rd_bind read_unsigned (\<lambda>c.
         rd_bind (rd_lift (ok_or (MalformedManifest ''copy_ordinal exceeds u32'') (u32_try_from c))) (\<lambda>c'.
         rd_return (DuplicateMessage i c'))))
       else if d = 3 then rd_bind decode_message_id (\<lambda>i. rd_bind read_unsigned (\<lambda>off. rd_bind read_bytes (\<lambda>x.
         nonempty_xor x (CorruptMessage i off x))))
       else if d = 4 then rd_bind decode_actor (\<lambda>a. rd_bind decode_actor (\<lambda>b. rd_bind read_bool (\<lambda>e.
         rd_return (Partition a b e))))
       else if d = 5 then rd_bind decode_actor (\<lambda>a. rd_bind decode_crash_operation (\<lambda>c. rd_return (CrashActor a c)))
       else rd_fail (UnsupportedType 0)))"

definition read_nested_value :: "string \<Rightarrow> (cbor_error, canonical_value) decoder" where
  "read_nested_value msg = rd_map_err (\<lambda>_. MalformedManifest msg) read_canonical_value"

section \<open>One decoder per kind\<close>

definition decode_spawn :: "(cbor_error, entry_payload) decoder" where
  "decode_spawn = expect_items 1 ''Spawn payload must have 1 item'' (rd_bind read_unsigned (\<lambda>child.
     rd_bind (rd_lift (ok_or (MalformedManifest ''child_actor exceeds u32'') (u32_try_from child))) (\<lambda>c.
     rd_return (Spawn (ActorId c)))))"

definition decode_block :: "(cbor_error, entry_payload) decoder" where
  "decode_block = expect_items 1 ''Block payload must have 1 item'' (rd_bind read_unsigned (\<lambda>d.
     if d = 0 then rd_return (Block Yield)
     else if d = 1 then rd_return (Block WaitMessage)
     else rd_fail (UnsupportedType 0)))"

definition decode_wake :: "(cbor_error, entry_payload) decoder" where
  "decode_wake = expect_items 2 ''Wake payload must have 2 items'' (rd_bind read_unsigned (\<lambda>d.
     if d = 0 then rd_bind read_unsigned (\<lambda>i. rd_return (Wake (TimerReady i)))
     else if d = 1 then rd_bind decode_message_id (\<lambda>i. rd_return (Wake (MessageReady i)))
     else rd_fail (UnsupportedType 0)))"

definition decode_timer :: "entry_kind \<Rightarrow> (cbor_error, entry_payload) decoder" where
  "decode_timer k = expect_items 2 ''Timer payload must have 2 items'' (rd_bind read_unsigned (\<lambda>i.
     rd_bind read_unsigned (\<lambda>d. rd_return (if k = KTimerSet then TimerSet i d else TimerFire i d))))"

definition decode_clock_read :: "(cbor_error, entry_payload) decoder" where
  "decode_clock_read = expect_items 1 ''ClockRead payload must have 1 item''
     (rd_bind read_unsigned (\<lambda>t. rd_return (ClockRead t)))"

definition decode_send :: "(cbor_error, entry_payload) decoder" where
  "decode_send = expect_items 4 ''Send frame must have 4 items'' (rd_bind decode_message_id (\<lambda>i.
     rd_bind decode_actor (\<lambda>a. rd_bind decode_actor (\<lambda>b. rd_bind read_bytes (\<lambda>c.
     rd_return (Send \<lparr>sf_message_id = i, sf_from = a, sf_to = b, sf_original_content = c\<rparr>))))))"

definition decode_recv :: "(cbor_error, entry_payload) decoder" where
  "decode_recv = expect_items 4 ''Recv frame must have 4 items'' (rd_bind decode_message_id (\<lambda>i.
     rd_bind decode_actor (\<lambda>a. rd_bind decode_actor (\<lambda>b. rd_bind read_bytes (\<lambda>c.
     rd_return (Recv \<lparr>rf_message_id = i, rf_from = a, rf_to = b, rf_observed_content = c\<rparr>))))))"

definition decode_fs_write :: "(cbor_error, entry_payload) decoder" where
  "decode_fs_write = rd_bind read_array (\<lambda>n.
     if \<not> (2 \<le> n \<and> n \<le> 4) then rd_fail (MalformedManifest ''FsWrite payload must have 2..=4 items'')
     else rd_bind read_unsigned (\<lambda>d.
       if d = 0 then
         if n \<noteq> 4 then rd_fail (MalformedManifest ''Write payload must have 4 items'')
         else rd_bind decode_path_ref (\<lambda>p. rd_bind read_unsigned (\<lambda>off. rd_bind read_bytes (\<lambda>c.
           rd_return (FsWrite (Write p off c)))))
       else if d = 1 then
         if n \<noteq> 2 then rd_fail (MalformedManifest ''Allocate payload must have 2 items'')
         else rd_bind decode_path_ref (\<lambda>p. rd_return (FsWrite (Allocate p)))
       else if d = 2 then
         if n \<noteq> 3 then rd_fail (MalformedManifest ''Rename payload must have 3 items'')
         else rd_bind decode_path_ref (\<lambda>p. rd_bind decode_path_ref (\<lambda>q. rd_return (FsWrite (Rename p q))))
       else rd_fail (UnsupportedType 0)))"

definition decode_fs_fsync :: "(cbor_error, entry_payload) decoder" where
  "decode_fs_fsync = expect_items 1 ''FsFsync payload must have 1 item''
     (rd_bind decode_path_ref (\<lambda>p. rd_return (FsFsync \<lparr>fy_path_ref = p\<rparr>)))"

definition decode_observed :: "(cbor_error, observed_read) decoder" where
  "decode_observed = rd_bind read_array (\<lambda>m.
     if m \<noteq> 1 \<and> m \<noteq> 2 then rd_fail (MalformedManifest ''observed result must have 1 or 2 items'')
     else rd_bind read_unsigned (\<lambda>d.
       if d = 0 then rd_return Missing
       else if d = 1 then rd_bind read_bytes (\<lambda>c. rd_return (Present c))
       else rd_fail (UnsupportedType 0)))"

definition decode_fs_read :: "(cbor_error, entry_payload) decoder" where
  "decode_fs_read = expect_items 4 ''FsRead payload must have 4 items'' (rd_bind decode_path_ref (\<lambda>p.
     rd_bind read_unsigned (\<lambda>off. rd_bind read_unsigned (\<lambda>len. rd_bind decode_observed (\<lambda>ob.
     rd_return (FsRead \<lparr>fr_path_ref = p, fr_offset = off, fr_requested_len = len, fr_observed = ob\<rparr>))))))"

definition decode_rng_draw :: "(cbor_error, entry_payload) decoder" where
  "decode_rng_draw = expect_items 3 ''RngDraw payload must have 3 items'' (rd_bind decode_stream (\<lambda>s.
     rd_bind read_unsigned (\<lambda>i. rd_bind read_bytes (\<lambda>c.
     rd_return (RngDraw \<lparr>rd_stream = s, rd_draw_index = i, rd_content = c\<rparr>)))))"

definition decode_outcome :: "(cbor_error, entry_payload) decoder" where
  "decode_outcome = expect_items 2 ''Outcome payload must have 2 items'' (rd_bind decode_hash (\<lambda>s.
     rd_bind (read_nested_value ''outcome value invalid'') (\<lambda>v.
     rd_return (Outcome \<lparr>oc_schema = s, oc_value = v\<rparr>))))"

definition decode_assert :: "(cbor_error, entry_payload) decoder" where
  "decode_assert = expect_items 3 ''Assert payload must have 3 items'' (rd_bind decode_hash (\<lambda>p.
     rd_bind read_bool (\<lambda>b. rd_bind (read_nested_value ''assert detail invalid'') (\<lambda>v.
     rd_return (Assert \<lparr>as_predicate = p, as_passed = b, as_detail = v\<rparr>)))))"

definition decode_snapshot_payload :: "(cbor_error, entry_payload) decoder" where
  "decode_snapshot_payload = expect_items 1 ''Snapshot payload must have 1 item''
     (rd_bind decode_hash (\<lambda>h. rd_return (Snapshot \<lparr>snapshot_digest = h\<rparr>)))"

definition decode_epoch :: "(cbor_error, entry_payload) decoder" where
  "decode_epoch = expect_items 1 ''Epoch payload must have 1 item''
     (rd_bind read_unsigned (\<lambda>e. rd_return (Epoch \<lparr>ep_epoch = e\<rparr>)))"

definition decode_input_step :: "(cbor_error, entry_payload) decoder" where
  "decode_input_step = expect_items 3 ''InputStep payload must have 3 items'' (rd_bind read_unsigned (\<lambda>g.
     rd_bind read_unsigned (\<lambda>r. rd_bind (read_nested_value ''input value invalid'') (\<lambda>v.
     rd_return (InputStep \<lparr>is_generator = g, is_replay = r, is_value = v\<rparr>)))))"

definition decode_cap_request :: "(cbor_error, entry_payload) decoder" where
  "decode_cap_request = expect_items 3 ''CapRequest payload must have 3 items'' (rd_bind decode_bytes_16 (\<lambda>r.
     rd_bind decode_hash (\<lambda>s. rd_bind decode_hash (\<lambda>c.
     rd_return (CapRequest \<lparr>cr_request = r, cr_subject = s, cr_capability = c\<rparr>)))))"

definition decode_cap_grant :: "(cbor_error, entry_payload) decoder" where
  "decode_cap_grant = expect_items 3 ''CapGrant payload must have 3 items'' (rd_bind decode_bytes_16 (\<lambda>r.
     rd_bind decode_bytes_16 (\<lambda>g. rd_bind read_unsigned (\<lambda>e.
     rd_return (CapGrant \<lparr>cg_request = r, cg_grant = g, cg_epoch = e\<rparr>)))))"

definition decode_cap_invoke :: "(cbor_error, entry_payload) decoder" where
  "decode_cap_invoke = expect_items 2 ''CapInvoke payload must have 2 items'' (rd_bind decode_bytes_16 (\<lambda>g.
     rd_bind decode_hash (\<lambda>op. rd_return (CapInvoke \<lparr>ci_grant = g, ci_operation = op\<rparr>))))"

definition decode_cap_revoke :: "(cbor_error, entry_payload) decoder" where
  "decode_cap_revoke = expect_items 2 ''CapRevoke payload must have 2 items'' (rd_bind decode_bytes_16 (\<lambda>g.
     rd_bind read_unsigned (\<lambda>e. rd_return (CapRevoke \<lparr>cv_grant = g, cv_epoch = e\<rparr>))))"

definition decode_step_begin :: "(cbor_error, entry_payload) decoder" where
  "decode_step_begin = expect_items 3 ''StepBegin payload must have 3 items'' (rd_bind read_unsigned (\<lambda>i.
     rd_bind read_bytes (\<lambda>nm. rd_bind read_item (\<lambda>it. rd_bind
       (case it of ItemNull \<Rightarrow> rd_return None | ItemBytes b \<Rightarrow> rd_return (Some b)
        | _ \<Rightarrow> rd_fail (MalformedManifest ''idempotency key must be null or bytes'')) (\<lambda>key.
     rd_return (StepBegin \<lparr>sb_step_id = i, sb_name = nm, sb_idempotency_key = key\<rparr>))))))"

definition decode_step_end :: "(cbor_error, entry_payload) decoder" where
  "decode_step_end = expect_items 3 ''StepEnd payload must have 3 items'' (rd_bind read_unsigned (\<lambda>d.
     rd_bind read_unsigned (\<lambda>i. rd_bind (read_nested_value ''step-end value invalid'') (\<lambda>v.
     if d = 0 then rd_return (StepEnd (Completed i v))
     else if d = 1 then rd_return (StepEnd (Failed i v))
     else if d = 2 then rd_return (StepEnd (Cancelled i v))
     else rd_fail (UnsupportedType 0)))))"

primrec decode_payload :: "entry_kind \<Rightarrow> (cbor_error, entry_payload) decoder" where
  "decode_payload KSpawn = decode_spawn" | "decode_payload KBlock = decode_block" | "decode_payload KWake = decode_wake"
| "decode_payload KTimerSet = decode_timer KTimerSet" | "decode_payload KTimerFire = decode_timer KTimerFire"
| "decode_payload KClockRead = decode_clock_read" | "decode_payload KSend = decode_send"
| "decode_payload KRecv = decode_recv" | "decode_payload KFsWrite = decode_fs_write"
| "decode_payload KFsFsync = decode_fs_fsync" | "decode_payload KFsRead = decode_fs_read"
| "decode_payload KRngDraw = decode_rng_draw" | "decode_payload KOutcome = decode_outcome"
| "decode_payload KAssert = decode_assert" | "decode_payload KSnapshot = decode_snapshot_payload"
| "decode_payload KEpoch = decode_epoch" | "decode_payload KInputStep = decode_input_step"
| "decode_payload KCapRequest = decode_cap_request" | "decode_payload KCapGrant = decode_cap_grant"
| "decode_payload KCapInvoke = decode_cap_invoke" | "decode_payload KCapRevoke = decode_cap_revoke"
| "decode_payload KFault = rd_bind decode_fault_payload (\<lambda>f. rd_return (Fault f))"
| "decode_payload KStepBegin = decode_step_begin" | "decode_payload KStepEnd = decode_step_end"

section \<open>Entries\<close>

text \<open>The fields after the version and the kind have been checked.\<close>

definition decode_entry_rest :: "u32 \<Rightarrow> entry_kind \<Rightarrow> (cbor_error, entry_data) decoder" where
  "decode_entry_rest ver k = rd_bind decode_actor (\<lambda>a.
     rd_bind read_array (\<lambda>parent_count.
     if parent_count > MAX_PARENTS_PER_ENTRY then rd_fail LengthOverflow
     else rd_bind (rd_repeat decode_hash parent_count) (\<lambda>ps.
     rd_bind read_array (\<lambda>vc_count.
     if vc_count > MAX_VECTOR_CLOCK_ACTORS then rd_fail LengthOverflow
     else rd_bind (rd_repeat read_unsigned vc_count) (\<lambda>vc.
     rd_bind read_unsigned (\<lambda>sq. rd_bind (decode_payload k) (\<lambda>p.
     rd_return \<lparr>ed_format_version = ver, ed_kind = k, ed_actor = a, ed_parents = ps, ed_vector_clock = vc,
       ed_sequence = SequenceNumber sq, ed_payload = p\<rparr>)))))))"

definition decode_entry :: "(cbor_error, entry_data) decoder" where
  "decode_entry = expect_items 7 ''EntryData must hold exactly 7 items'' (rd_bind read_unsigned (\<lambda>v.
     rd_bind (rd_lift (ok_or (MalformedManifest ''format version exceeds u32'') (u32_try_from v))) (\<lambda>ver.
     if ver \<noteq> FORMAT_VERSION then rd_fail (UnsupportedVersion ver)
     else rd_bind read_unsigned (\<lambda>t.
     rd_bind (rd_lift (ok_or (UnknownTag t) (from_tag t))) (\<lambda>k. decode_entry_rest ver k)))))"

definition entry_from_canonical_bytes :: "bytes \<Rightarrow> cbor_error + entry_data" where
  "entry_from_canonical_bytes inp =
     (if length inp > MAX_ENTRY_BYTES then Inl LengthOverflow
      else res_bind (decode_entry (new_reader inp)) (\<lambda>(e, r).
        if \<not> at_end r then Inl TrailingBytes else Inr e))"

end
