(* ===== verification/Entry_Roundtrip.thy ===== *)
theory Entry_Roundtrip
  imports Entry_Decode
begin

text \<open>
  What \<open>entry.rs\<close> promises of its wire form: decoding inverts encoding, encodings are prefix free, and
  every decoded entry is well formed. \<open>reads_simps\<close> runs a decoder over the encodings of the fields
  it expects; \<open>yields_simps\<close> collects what the results of decoders satisfy.
\<close>

section \<open>Well-formed payloads and entries\<close>

named_theorems reads_simps \<open>reading the encoded fields of a payload in order\<close>

definition room :: "nat \<Rightarrow> bytes \<Rightarrow> bool" where
  "room k b \<longleftrightarrow> k \<le> length b"

text \<open>
  What the Rust types guarantee of a value (fixed-size arrays, lengths that fit \<open>usize\<close>) and what
  the constructors of payloads keep (canonical paths, nonempty XOR masks, bit numbers).
\<close>

definition vec_ok :: "'a list \<Rightarrow> bool" where
  "vec_ok b \<longleftrightarrow> length b < 2 ^ 64"

primrec crash_all :: "(path_ref \<Rightarrow> bool) \<Rightarrow> (bytes \<Rightarrow> bool) \<Rightarrow> crash_operation \<Rightarrow> bool" where
  "crash_all P V DropAllUnsynced = True"
| "crash_all P V (DropPaths ps) = (length ps < 2 ^ 64 \<and> list_all P ps)"
| "crash_all P V (TornWrite h p) = hash_ok h"
| "crash_all P V (CorruptRange h off x) = (hash_ok h \<and> V x \<and> x \<noteq> [])"
| "crash_all P V (BitFlip h off b) = (hash_ok h \<and> b \<le> 7)"

primrec fault_all :: "(path_ref \<Rightarrow> bool) \<Rightarrow> (bytes \<Rightarrow> bool) \<Rightarrow> fault_payload \<Rightarrow> bool" where
  "fault_all P V (DropMessage i) = True"
| "fault_all P V (DelayMessage i t) = True"
| "fault_all P V (DuplicateMessage i n) = True"
| "fault_all P V (CorruptMessage i off x) = (V x \<and> x \<noteq> [])"
| "fault_all P V (Partition a b e) = True"
| "fault_all P V (CrashActor a c) = crash_all P V c"

text \<open>The paths satisfy \<open>P\<close>, the byte vectors \<open>V\<close> and the canonical values \<open>W\<close>.\<close>

primrec payload_all ::
  "(path_ref \<Rightarrow> bool) \<Rightarrow> (bytes \<Rightarrow> bool) \<Rightarrow> (canonical_value \<Rightarrow> bool) \<Rightarrow> entry_payload \<Rightarrow> bool" where
  "payload_all P V W (Spawn a) = True"
| "payload_all P V W (Block b) = True"
| "payload_all P V W (Wake w) = True"
| "payload_all P V W (TimerSet i d) = True"
| "payload_all P V W (TimerFire i d) = True"
| "payload_all P V W (ClockRead t) = True"
| "payload_all P V W (Send f) = V (sf_original_content f)"
| "payload_all P V W (Recv f) = V (rf_observed_content f)"
| "payload_all P V W (FsWrite w) = (case w of Write p off c \<Rightarrow> P p \<and> V c | Allocate p \<Rightarrow> P p | Rename p q \<Rightarrow> P p \<and> P q)"
| "payload_all P V W (FsFsync y) = P (fy_path_ref y)"
| "payload_all P V W (FsRead r) = (P (fr_path_ref r) \<and> (case fr_observed r of Missing \<Rightarrow> True | Present c \<Rightarrow> V c))"
| "payload_all P V W (RngDraw r) = V (rd_content r)"
| "payload_all P V W (Outcome oc) = (hash_ok (oc_schema oc) \<and> W (oc_value oc))"
| "payload_all P V W (Assert a) = (hash_ok (as_predicate a) \<and> W (as_detail a))"
| "payload_all P V W (Snapshot s) = hash_ok (snapshot_digest s)"
| "payload_all P V W (Epoch e) = True"
| "payload_all P V W (InputStep i) = W (is_value i)"
| "payload_all P V W (CapRequest c) =
     (length (cr_request c) = 16 \<and> hash_ok (cr_subject c) \<and> hash_ok (cr_capability c))"
| "payload_all P V W (CapGrant c) = (length (cg_request c) = 16 \<and> length (cg_grant c) = 16)"
| "payload_all P V W (CapInvoke c) = (length (ci_grant c) = 16 \<and> hash_ok (ci_operation c))"
| "payload_all P V W (CapRevoke c) = (length (cv_grant c) = 16)"
| "payload_all P V W (Fault f) = fault_all P V f"
| "payload_all P V W (StepBegin s) = (V (sb_name s) \<and> (case sb_idempotency_key s of None \<Rightarrow> True | Some key \<Rightarrow> V key))"
| "payload_all P V W (StepEnd s) = (case s of Completed i v \<Rightarrow> W v | Failed i v \<Rightarrow> W v | Cancelled i v \<Rightarrow> W v)"

abbreviation payload_ok :: "entry_payload \<Rightarrow> bool" where
  "payload_ok \<equiv> payload_all path_ref_ok vec_ok cv_wf"

definition entry_ok :: "entry_data \<Rightarrow> bool" where
  "entry_ok e \<longleftrightarrow> ed_format_version e = FORMAT_VERSION \<and> ed_kind e = payload_kind (ed_payload e)
     \<and> list_all hash_ok (ed_parents e) \<and> length (ed_vector_clock e) \<le> MAX_VECTOR_CLOCK_ACTORS
     \<and> payload_ok (ed_payload e)"

named_theorems yields_simps \<open>what the results of decoders satisfy\<close>

definition yields :: "('e, 'a) decoder \<Rightarrow> ('a \<Rightarrow> bool) \<Rightarrow> bool" where
  "yields m P \<longleftrightarrow> (\<forall>r v r'. m r = Inr (v, r') \<longrightarrow> P v)"

text \<open>A path reference as the decoder accepts it: canonicalisable, though perhaps not canonical.\<close>

definition path_ref_read :: "path_ref \<Rightarrow> bool" where
  "path_ref_read p \<longleftrightarrow> length (path_hash p) = 32 \<and> length (canonical_path p) \<le> MAX_CANONICAL_PATH_BYTES
     \<and> (\<exists>c. canonicalize (canonical_path p) = Inr c)"

abbreviation payload_read :: "entry_payload \<Rightarrow> bool" where
  "payload_read \<equiv> payload_all path_ref_read (\<lambda>_. True) (\<lambda>_. True)"

text \<open>An entry as \<open>EntryData::from_canonical_bytes\<close> returns it.\<close>

definition entry_read :: "entry_data \<Rightarrow> bool" where
  "entry_read e \<longleftrightarrow> ed_format_version e = FORMAT_VERSION \<and> ed_kind e = payload_kind (ed_payload e)
     \<and> length (ed_parents e) \<le> MAX_PARENTS_PER_ENTRY \<and> list_all hash_ok (ed_parents e)
     \<and> length (ed_vector_clock e) \<le> MAX_VECTOR_CLOCK_ACTORS \<and> payload_read (ed_payload e)"

lemma room_simps [reads_simps]:
  "a \<noteq> [] \<Longrightarrow> room (Suc 0) a" "a \<noteq> [] \<Longrightarrow> room 1 a"
  "a \<noteq> [] \<Longrightarrow> room (pred_numeral k) b \<Longrightarrow> room (numeral k) (a @ b)"
  "a \<noteq> [] \<Longrightarrow> room 1 (a @ b)"
  by (auto simp: room_def Suc_le_eq numeral_eq_Suc intro: add_le_mono [of 1 _ n m for n m, simplified])

lemma encodings_ne [simp]:
  "cbor_unsigned v \<noteq> []" "cbor_bytes b \<noteq> []" "cbor_array n \<noteq> []" "cbor_hash h \<noteq> []" "cbor_boolean x \<noteq> []"
  "cbor_null \<noteq> []" "cbor_actor a \<noteq> []" "encode_message_id i \<noteq> []" "encode_path_ref p \<noteq> []"
  "encode_observed ob \<noteq> []" "encode_crash_operation c \<noteq> []"
  by (simp_all add: cbor_major_not_Nil cbor_unsigned_def cbor_bytes_def cbor_array_def cbor_hash_def cbor_boolean_def cbor_null_def
      cbor_actor_def encode_message_id_def encode_path_ref_def split: observed_read.split)
    (cases ob; simp add: cbor_array_def cbor_major_not_Nil; fail | cases c; simp add: cbor_array_def cbor_major_not_Nil)+

lemma reads_expect [reads_simps]:
  "k < 2 ^ 64 \<Longrightarrow> room k b \<Longrightarrow> reads m b y \<Longrightarrow> reads (expect_items k msg m) (cbor_array k @ b) y"
  unfolding expect_items_def room_def by (rule reads_array_bind) auto

lemma reads_array_room [reads_simps]:
  "k < 2 ^ 64 \<Longrightarrow> room k b \<Longrightarrow> reads (f k) b y \<Longrightarrow> reads (rd_bind read_array f) (cbor_array k @ b) y"
  unfolding room_def by (rule reads_array_bind) auto

lemma reads_lift_bind [reads_simps]: "reads (f v) b y \<Longrightarrow> reads (rd_bind (rd_lift (Inr v)) f) b y"
  using reads_bind [OF reads_lift [of "Inr v" v, OF refl], of f b y] by simp

lemma reads_return_bind [reads_simps]: "reads (f v) b y \<Longrightarrow> reads (rd_bind (rd_return v) f) b y"
  using reads_bind [OF reads_return, of f v b y] by simp

lemma reads_actor' : "reads decode_actor (cbor_actor a) a"
  by (simp add: cbor_actor_def reads_actor)

lemma reads_vec: "vec_ok b \<Longrightarrow> reads read_bytes (cbor_bytes b) b"
  by (simp add: vec_ok_def reads_bytes)

lemma reads_vec_item: "vec_ok b \<Longrightarrow> reads read_item (cbor_bytes b) (ItemBytes b)"
  by (simp add: vec_ok_def reads_bytes_item)

lemmas reads_primitive = reads_unsigned reads_actor' reads_stream reads_bool reads_null_item reads_vec reads_vec_item
  reads_hash reads_bytes_16 reads_path_ref

lemma room_list [reads_simps]: "(\<And>x. enc x \<noteq> []) \<Longrightarrow> room (length xs) (concat (map enc xs) @ b)"
  "(\<And>x. enc x \<noteq> []) \<Longrightarrow> room (length xs) (concat (map enc xs))"
  "room k b \<Longrightarrow> room k (concat bs @ b)"
  using length_concat_ge [of "map enc xs"] by (auto simp: room_def)

lemmas reads_lists = path_ref_codec.reads_list hash_codec.reads_list unsigned_codec.reads_list

lemmas reads_lists_bind [reads_simps] = reads_lists [THEN reads_bind] reads_lists [THEN reads_bind_last]

lemmas reads_primitive_bind [reads_simps] = reads_primitive [THEN reads_bind] reads_primitive [THEN reads_bind_last]

declare reads_return_eq [reads_simps]

lemma reads_message_id: "reads decode_message_id (encode_message_id i) i"
  by (cases i) (simp add: decode_message_id_def encode_message_id_def reads_simps)

lemmas reads_message_id_bind [reads_simps] = reads_message_id [THEN reads_bind] reads_message_id [THEN reads_bind_last]

lemma reads_observed:
  "(case ob of Missing \<Rightarrow> True | Present c \<Rightarrow> vec_ok c) \<Longrightarrow> reads decode_observed (encode_observed ob) ob"
  by (cases ob) (simp_all add: decode_observed_def reads_simps)

lemmas reads_observed_bind [reads_simps] = reads_observed [THEN reads_bind_last]

lemma ucast_u8_u64_le: "\<not> 0xff < (ucast (b :: u8) :: u64)"
  using le_trans [OF take_bit_nat_less_eq_self [of 64 "unat b"] unat_u8_le [of b]]
  by (simp add: word_less_nat_alt unsigned_ucast_eq not_less)

lemma reads_crash_operation: "crash_all path_ref_ok vec_ok c \<Longrightarrow> reads decode_crash_operation (encode_crash_operation c) c"
proof (cases c)
  case (DropPaths ps)
  moreover assume "crash_all path_ref_ok vec_ok c"
  ultimately show ?thesis by (simp add: decode_crash_operation_def reads_simps)
next
  case (BitFlip h off b)
  moreover assume "crash_all path_ref_ok vec_ok c"
  ultimately have "\<not> 7 < b" "hash_ok h" by (simp_all add: not_less)
  with BitFlip show ?thesis
    by (simp add: decode_crash_operation_def reads_simps ucast_u8_u64_le ucast_ucast_u8)
qed (simp_all add: decode_crash_operation_def nonempty_xor_def reads_simps)

lemmas reads_crash_operation_bind [reads_simps] = reads_crash_operation [THEN reads_bind_last]

lemma reads_fault_payload: "fault_all path_ref_ok vec_ok f \<Longrightarrow> reads decode_fault_payload (encode_fault_payload f) f"
  by (cases f) (simp_all add: decode_fault_payload_def nonempty_xor_def ok_or_def reads_simps)

lemmas reads_fault_payload_bind [reads_simps] = reads_fault_payload [THEN reads_bind_last]

lemma nested_value:
  assumes "encode_nested_value msg v = Inr x"
  shows "x \<noteq> []" "cv_wf v \<Longrightarrow> reads (f v) [] y \<Longrightarrow> reads (rd_bind (read_nested_value msg') f) x y"
proof -
  have e: "value_try_encode v = Inr x"
    using assms by (cases "value_try_encode v") (auto simp: encode_nested_value_def map_err_def)
  then show "x \<noteq> []" by (rule try_encode_not_Nil [OF value_try_encode_Inr(1)])
  assume "cv_wf v" "reads (f v) [] y"
  then show "reads (rd_bind (read_nested_value msg') f) x y"
    unfolding read_nested_value_def by (intro reads_bind_last [OF reads_map_err [OF reads_canonical_value [OF e]]])
qed

lemma reads_step_begin:
  "payload_ok (StepBegin s) \<Longrightarrow> reads decode_step_begin (encode_step_begin s) (StepBegin s)"
  by (cases s; cases "sb_idempotency_key s") (simp_all add: decode_step_begin_def encode_step_begin_def reads_simps)

lemma reads_step_end:
  "payload_ok (StepEnd s) \<Longrightarrow> encode_step_end s = Inr b \<Longrightarrow> reads decode_step_end b (StepEnd s)"
  by (cases s) (auto simp: decode_step_end_def reads_simps nested_value)

lemmas decode_defs = decode_timer_def decode_clock_read_def decode_send_def decode_recv_def
  decode_fs_fsync_def decode_fs_read_def decode_rng_draw_def decode_outcome_def decode_assert_def
  decode_snapshot_payload_def decode_epoch_def decode_input_step_def decode_cap_request_def decode_cap_grant_def
  decode_cap_invoke_def decode_cap_revoke_def

lemma reads_payload:
  assumes "payload_ok p" "encode_payload p = Inr b"
  shows "reads (decode_payload (payload_kind p)) b p"
  using assms
proof (cases p)
  case (Block b)
  then show ?thesis using assms by (cases b) (auto simp: decode_block_def reads_simps)
next
  case (Spawn a)
  then show ?thesis using assms by (cases a) (auto simp: decode_spawn_def cbor_actor_def ok_or_def reads_simps)
next
  case (Wake w)
  then show ?thesis using assms by (cases w) (auto simp: decode_wake_def reads_simps)
next
  case (FsWrite w)
  then show ?thesis using assms by (cases w) (auto simp: decode_fs_write_def reads_simps)
qed (auto simp: decode_defs reads_simps reads_step_begin reads_step_end nested_value ok_or_def)

section \<open>Entries\<close>

lemma from_tag_tag [simp]: "from_tag (tag k) = Some k"
  by (cases k) (simp_all add: from_tag_def)

lemma encode_payload_ne: "encode_payload p = Inr b \<Longrightarrow> b \<noteq> []"
proof (cases p)
  case (Wake w)
  moreover assume "encode_payload p = Inr b"
  ultimately show ?thesis by (cases w) auto
next
  case (FsWrite w)
  moreover assume "encode_payload p = Inr b"
  ultimately show ?thesis by (cases w) auto
next
  case (Fault w)
  moreover assume "encode_payload p = Inr b"
  ultimately show ?thesis by (cases w) auto
next
  case (StepEnd w)
  moreover assume "encode_payload p = Inr b"
  ultimately show ?thesis by (cases w) auto
qed (auto simp: encode_step_begin_def)

lemma reads_entry:
  assumes "entry_ok e" "entry_encode e = Inr b"
  shows "reads decode_entry b e"
proof -
  obtain p where p: "encode_payload (ed_payload e) = Inr p"
    using assms(2) by (cases "encode_payload (ed_payload e)") (auto simp: entry_encode_def split: if_splits)
  have [simp]: "p \<noteq> []" by (rule encode_payload_ne [OF p])
  have [reads_simps]: "reads (f (ed_payload e)) [] y \<Longrightarrow> reads (rd_bind (decode_payload (payload_kind (ed_payload e))) f) p y"
    for f y using assms(1) by (intro reads_bind_last [OF reads_payload [OF _ p]]) (simp_all add: entry_ok_def)
  have "list_all (\<lambda>_. True) xs" for xs :: "u64 list" by (simp add: list_all_iff)
  then show ?thesis
    using assms p
    by (auto simp: decode_entry_def decode_entry_rest_def entry_ok_def entry_encode_def Let_def reads_simps
      MAX_PARENTS_PER_ENTRY_def MAX_VECTOR_CLOCK_ACTORS_def ok_or_def split: if_splits)
qed

interpretation entry_codec: partial_codec entry_encode decode_entry entry_ok
  by unfold_locales (rule reads_entry)

section \<open>What the decoder accepts\<close>

lemma yieldsD: "yields m P \<Longrightarrow> m r = Inr (v, r') \<Longrightarrow> P v"
  by (auto simp: yields_def)

lemma yields_bind: "yields m Q \<Longrightarrow> \<forall>x. Q x \<longrightarrow> yields (f x) P \<Longrightarrow> yields (rd_bind m f) P"
  by (fastforce simp: yields_def rd_bind_def split: sum.splits)

lemma yields_any: "yields m (\<lambda>_. True)"
  by (simp add: yields_def)

lemma yields_base [yields_simps]:
  "P v \<Longrightarrow> yields (rd_return v) P" "yields (rd_fail e) P"
  "yields (rd_lift x) P \<longleftrightarrow> (\<forall>v. x = Inr v \<longrightarrow> P v)"
  by (auto simp: yields_def rd_return_def rd_fail_def rd_lift_def)

lemma yields_lift_bind [yields_simps]: "(\<And>v. x = Inr v \<Longrightarrow> yields (f v) P) \<Longrightarrow> yields (rd_bind (rd_lift x) f) P"
  by (cases x) (auto simp: yields_def rd_bind_def rd_lift_def)

lemma yields_repeat: "yields m P \<Longrightarrow> yields (rd_repeat m n) (\<lambda>xs. length xs = n \<and> list_all P xs)"
proof (induction n)
  case (Suc n)
  then show ?case by (auto simp: yields_base intro!: yields_bind)
qed (simp add: yields_base)

lemma yields_array: "yields read_array (\<lambda>n. n < 2 ^ 64)"
proof -
  have simple: "read_simple b s \<noteq> Inr (ItemArray n, s')" for b s n s'
    by (auto simp: read_simple_def res_map_def Let_def split: sum.splits if_splits)
  have len: "checked_len v s = Inr n \<Longrightarrow> n < 2 ^ 64" for v s n
    using unsigned_less [of v, where ?'a = nat] by (auto simp: checked_len_def split: if_splits)
  have "yields read_item (\<lambda>it. \<forall>n. it = ItemArray n \<longrightarrow> n < 2 ^ 64)"
    by (auto simp: yields_def read_item_def read_item_inner_def Let_def simple
        split: if_splits dest!: len)
  then show ?thesis unfolding read_array_def by (rule yields_bind) (auto simp: yields_simps split: item.split)
qed

lemma yields_hash: "yields decode_hash hash_ok"
  unfolding decode_hash_def
  by (rule yields_bind [OF yields_any])
    (auto simp: yields_simps from_framed_bytes_def hash_ok_def FRAMED_HASH_LEN_def split: if_splits)

lemma yields_bytes_16: "yields decode_bytes_16 (\<lambda>b. length b = 16)"
  unfolding decode_bytes_16_def by (rule yields_bind [OF yields_any]) (simp add: yields_simps)

lemma yields_path_ref: "yields decode_path_ref path_ref_read"
  unfolding decode_path_ref_def
  by (auto simp: yields_simps path_ref_read_def not_less split: sum.split
      intro!: yields_any [of read_array, THEN yields_bind] yields_any [of read_bytes, THEN yields_bind])

lemmas yields_binds [yields_simps] = yields_hash [THEN yields_bind] yields_bytes_16 [THEN yields_bind]
  yields_path_ref [THEN yields_bind] yields_array [THEN yields_bind]
  yields_repeat [OF yields_path_ref, THEN yields_bind] yields_repeat [OF yields_hash, THEN yields_bind]
  yields_repeat [OF yields_any [of read_unsigned], THEN yields_bind]
  yields_any [of read_unsigned, THEN yields_bind] yields_any [of read_bytes, THEN yields_bind]
  yields_any [of read_bool, THEN yields_bind] yields_any [of read_item, THEN yields_bind]
  yields_any [of decode_actor, THEN yields_bind] yields_any [of decode_stream, THEN yields_bind]
  yields_any [of decode_message_id, THEN yields_bind] yields_any [of "read_nested_value msg" for msg, THEN yields_bind]

lemma yields_if [yields_simps]:
  "(c \<Longrightarrow> yields a P) \<Longrightarrow> (\<not> c \<Longrightarrow> yields b P) \<Longrightarrow> yields (if c then a else b) P"
  by simp

lemma yields_expect [yields_simps]: "yields m P \<Longrightarrow> yields (expect_items k msg m) P"
  unfolding expect_items_def by (auto intro!: yields_bind [OF yields_any] simp: yields_base)

lemma yields_xor [yields_simps]: "(x \<noteq> [] \<Longrightarrow> P v) \<Longrightarrow> yields (nonempty_xor x v) P"
  by (simp add: nonempty_xor_def yields_base)

lemma yields_crash: "yields decode_crash_operation (crash_all path_ref_read (\<lambda>_. True))"
  unfolding decode_crash_operation_def by (simp add: yields_simps not_less)

lemma yields_fault: "yields decode_fault_payload (fault_all path_ref_read (\<lambda>_. True))"
  unfolding decode_fault_payload_def by (simp add: yields_simps yields_crash [THEN yields_bind])

lemma yields_observed: "yields decode_observed (\<lambda>_. True)" by (rule yields_any)

lemma yields_step_begin: "yields decode_step_begin (\<lambda>p. payload_kind p = KStepBegin \<and> payload_read p)"
  unfolding decode_step_begin_def
  by (simp add: yields_simps yields_any [THEN yields_bind] split: option.split)

lemma yields_payload: "yields (decode_payload k) (\<lambda>p. payload_kind p = k \<and> payload_read p)"
  by (cases k) (simp_all add: decode_defs decode_spawn_def decode_block_def decode_wake_def decode_fs_write_def
    yields_step_begin decode_step_end_def yields_simps yields_fault [THEN yields_bind]
    yields_observed [THEN yields_bind] split: observed_read.split)

lemma yields_entry: "yields decode_entry entry_read"
  unfolding decode_entry_def decode_entry_rest_def
  by (simp add: yields_simps yields_payload [THEN yields_bind] entry_read_def)

lemma entry_from_reads: "reads decode_entry b e \<Longrightarrow> length b \<le> MAX_ENTRY_BYTES \<Longrightarrow> entry_from_canonical_bytes b = Inr e"
  using readsD [of decode_entry b e "[]" "[]"]
  by (simp add: entry_from_canonical_bytes_def new_reader_def at_end_def)

lemma entry_encode_length: "entry_encode e = Inr b \<Longrightarrow> length b \<le> MAX_ENTRY_BYTES"
  by (auto simp: entry_encode_def Let_def split: if_splits)

lemmas entry_eval = try_canonical_bytes_def entry_encode_def cbor_actor_def Let_def MAX_PARENTS_PER_ENTRY_def MAX_ENTRY_BYTES_def

text \<open>
  C3: a well-formed entry that the encoder accepts is decoded from its canonical bytes. Well formed means that the
  version is the supported one, the kind is the payload's, the clock has at most
  \<open>MAX_VECTOR_CLOCK_ACTORS\<close> components, hashes have 32 bytes and identifiers 16, paths are canonical, XOR masks are not
  empty, bit numbers are below 8, canonical values are well formed and lengths fit 64 bits. The sizes follow
  from the Rust types; the kind and the length of the clock are checked by the decoder and not by the encoder, which
  writes entries without them that cannot be read back.
\<close>

theorem entry_roundtrip:
  assumes "entry_ok e" "try_canonical_bytes e = Inr b"
  shows "entry_from_canonical_bytes b = Inr e"
  using assms by (intro entry_from_reads reads_entry entry_encode_length) (auto simp: try_canonical_bytes_def)

theorem entry_roundtrip_witness:
  "entry_from_canonical_bytes [0x87, 3, 3, 1, 0x80, 0x81, 5, 7, 0x82, 2, 9]
     = Inr \<lparr>ed_format_version = 3, ed_kind = KTimerSet, ed_actor = ActorId 1, ed_parents = [], ed_vector_clock = [5],
         ed_sequence = SequenceNumber 7, ed_payload = TimerSet 2 9\<rparr>"
  by (rule entry_roundtrip)
    (simp_all add: entry_ok_def FORMAT_VERSION_def MAX_VECTOR_CLOCK_ACTORS_def entry_eval cbor_eval)

text \<open>The bytes of an entry whose kind is not its payload's are those of another entry.\<close>

lemma kind_mismatch_same_bytes:
  "try_canonical_bytes \<lparr>ed_format_version = 3, ed_kind = KTimerSet, ed_actor = ActorId 1, ed_parents = [], ed_vector_clock = [],
     ed_sequence = SequenceNumber 7, ed_payload = TimerFire 2 9\<rparr>
   = try_canonical_bytes \<lparr>ed_format_version = 3, ed_kind = KTimerSet, ed_actor = ActorId 1, ed_parents = [], ed_vector_clock = [],
     ed_sequence = SequenceNumber 7, ed_payload = TimerSet 2 9\<rparr>"
  by (simp add: entry_eval cbor_eval)

text \<open>
  C26: among well-formed entries, no canonical encoding is a prefix of another one: the content address of a well-formed
  entry is computed from bytes that determine it. Both entries have to be well formed, that is to satisfy \<open>entry_ok\<close>;
  above all their kinds have to be those of their payloads. Without that it fails, by
  \<open>kind_mismatch_same_bytes\<close>: the bytes hold the kind and the fields of the payload, and not its variant.
\<close>

theorem entry_encoding_prefix_free:
  assumes "entry_ok d" "entry_ok e" "try_canonical_bytes d = Inr a" "try_canonical_bytes e = Inr b" "a @ r = b @ s"
  shows "d = e \<and> r = s"
  using entry_codec.prefix_free [of d e a b r s] assms by (simp add: try_canonical_bytes_def)

theorem entry_encoding_prefix_free_witness:
  "[0x87, 3, 15, 1, 0x80, 0x80, 7, 0x81, 2] @ [8, 9] \<noteq> [0x87, 3, 5, 1, 0x80, 0x80, 7, 0x81, 2 :: u8] @ [8, 9]"
proof
  let ?d = "\<lparr>ed_format_version = 3, ed_kind = KEpoch, ed_actor = ActorId 1, ed_parents = [], ed_vector_clock = [],
         ed_sequence = SequenceNumber 7, ed_payload = Epoch \<lparr>ep_epoch = 2\<rparr>\<rparr>"
  let ?e = "\<lparr>ed_format_version = 3, ed_kind = KClockRead, ed_actor = ActorId 1, ed_parents = [], ed_vector_clock = [],
         ed_sequence = SequenceNumber 7, ed_payload = ClockRead 2\<rparr>"
  have ok: "entry_ok ?d" "entry_ok ?e"
    by (simp_all add: entry_ok_def FORMAT_VERSION_def MAX_VECTOR_CLOCK_ACTORS_def)
  have enc: "try_canonical_bytes ?d = Inr [0x87, 3, 15, 1, 0x80, 0x80, 7, 0x81, 2]"
    "try_canonical_bytes ?e = Inr [0x87, 3, 5, 1, 0x80, 0x80, 7, 0x81, 2]"
    by (simp_all add: entry_eval cbor_eval)
  assume "[0x87, 3, 15, 1, 0x80, 0x80, 7, 0x81, 2] @ [8, 9] = [0x87, 3, 5, 1, 0x80, 0x80, 7, 0x81, 2 :: u8] @ [8, 9]"
  from entry_encoding_prefix_free [OF ok enc this] show False by simp
qed

text \<open>
  C27: whatever bytes it is given, the decoder returns only entries of the supported version whose kind is
  that of the payload, with bounded parents and clock, 32-byte hashes, 16-byte identifiers, bounded paths,
  nonempty XOR masks and bit numbers below 8.
\<close>

theorem entry_decode_wellformed:
  assumes "entry_from_canonical_bytes b = Inr e"
  shows "entry_read e"
  using assms yieldsD [OF yields_entry] by (auto simp: entry_from_canonical_bytes_def split: if_splits)

theorem entry_decode_wellformed_witness:
  "entry_read \<lparr>ed_format_version = 3, ed_kind = KTimerSet, ed_actor = ActorId 1, ed_parents = [], ed_vector_clock = [5],
         ed_sequence = SequenceNumber 7, ed_payload = TimerSet 2 9\<rparr>"
proof (rule entry_decode_wellformed)
  let ?e = "\<lparr>ed_format_version = 3, ed_kind = KTimerSet, ed_actor = ActorId 1, ed_parents = [], ed_vector_clock = [5],
         ed_sequence = SequenceNumber 7, ed_payload = TimerSet 2 9\<rparr>"
  have "entry_ok ?e" "entry_encode ?e = Inr [0x87, 3, 3, 1, 0x80, 0x81, 5, 7, 0x82, 2, 9]"
    by (simp_all add: entry_ok_def FORMAT_VERSION_def MAX_VECTOR_CLOCK_ACTORS_def entry_eval cbor_eval)
  then show "entry_from_canonical_bytes [0x87, 3, 3, 1, 0x80, 0x81, 5, 7, 0x82, 2, 9] = Inr ?e"
    by (intro entry_from_reads reads_entry) (simp_all add: MAX_ENTRY_BYTES_def)
qed


end

