(* ===== verification/Map_Store.thy ===== *)
theory Map_Store
  imports Ledger_Prelude "HOL-Library.AList"
begin

text \<open>
  The associative containers of the sources. An ordered map (\<open>BTreeMap\<close>, the red-black tree of the
  vector clock) is the list of its pairs in ascending key order, which is the order it iterates in; a
  hash map is an association list, and nothing depends on the order of its pairs. Both are stores in
  the sense of the locale \<open>map_store\<close>, where the facts about bulk insertion are proved once.
\<close>

section \<open>Ordered maps\<close>

fun om_insert :: "'k::linorder \<Rightarrow> 'v \<Rightarrow> ('k \<times> 'v) list \<Rightarrow> ('k \<times> 'v) list" where
  "om_insert k v [] = [(k, v)]"
| "om_insert k v ((a, b) # m) =
     (if k < a then (k, v) # (a, b) # m else if k = a then (k, v) # m else (a, b) # om_insert k v m)"

fun om_remove :: "'k::linorder \<Rightarrow> ('k \<times> 'v) list \<Rightarrow> ('k \<times> 'v) list" where
  "om_remove k [] = []"
| "om_remove k ((a, b) # m) = (if k = a then m else (a, b) # om_remove k m)"

definition om_wf :: "('k::linorder \<times> 'v) list \<Rightarrow> bool" where
  "om_wf m \<longleftrightarrow> sorted_wrt (<) (map fst m)"

definition om_collect :: "('k::linorder \<times> 'v) list \<Rightarrow> ('k \<times> 'v) list" where
  "om_collect kvs = foldl (\<lambda>m (k, v). om_insert k v m) [] kvs"

text \<open>\<open>BTreeMap::retain\<close> with a closure that may change the values it keeps.\<close>

definition om_retain :: "('v \<Rightarrow> 'v option) \<Rightarrow> ('k \<times> 'v) list \<Rightarrow> ('k \<times> 'v) list" where
  "om_retain h m = List.map_filter (\<lambda>(k, v). map_option (Pair k) (h v)) m"

section \<open>Hash maps\<close>

abbreviation hm_insert :: "'k \<Rightarrow> 'v \<Rightarrow> ('k \<times> 'v) list \<Rightarrow> ('k \<times> 'v) list" where
  "hm_insert \<equiv> AList.update"

definition hm_wf :: "('k \<times> 'v) list \<Rightarrow> bool" where
  "hm_wf m \<longleftrightarrow> distinct (map fst m)"

definition hm_extend :: "('k \<times> 'v) list \<Rightarrow> ('k \<times> 'v) list \<Rightarrow> ('k \<times> 'v) list" where
  "hm_extend m kvs = foldl (\<lambda>m (k, v). hm_insert k v m) m kvs"

section \<open>The interface\<close>

locale map_store =
  fixes lookup :: "'m \<Rightarrow> 'k \<Rightarrow> 'v option" and insert_kv :: "'k \<Rightarrow> 'v \<Rightarrow> 'm \<Rightarrow> 'm" and wf_store :: "'m \<Rightarrow> bool"
  assumes lookup_insert: "wf_store m \<Longrightarrow> lookup (insert_kv k v m) = (lookup m)(k \<mapsto> v)"
    and wf_insert: "wf_store m \<Longrightarrow> wf_store (insert_kv k v m)"
begin

lemma wf_extend: "wf_store m \<Longrightarrow> wf_store (foldl (\<lambda>m (k, v). insert_kv k v m) m kvs)"
  by (induction kvs arbitrary: m) (auto simp: wf_insert)

lemma lookup_extend:
  "wf_store m \<Longrightarrow> lookup (foldl (\<lambda>m (k, v). insert_kv k v m) m kvs) = lookup m ++ map_of (rev kvs)"
  by (induction kvs arbitrary: m) (auto simp: wf_insert lookup_insert)

end

section \<open>Facts about ordered maps\<close>

lemma om_wf_Nil [simp]: "om_wf []"
  by (simp add: om_wf_def)

lemma om_wf_Cons [simp]: "om_wf ((k, v) # m) \<longleftrightarrow> om_wf m \<and> (\<forall>a\<in>fst ` set m. k < a)"
  by (auto simp: om_wf_def)

lemma om_wf_distinct: "om_wf m \<Longrightarrow> distinct (map fst m)"
  by (induction m) (auto, force)

lemma keys_om_insert [simp]: "fst ` set (om_insert k v m) = insert k (fst ` set m)"
  by (induction k v m rule: om_insert.induct) auto

lemma om_wf_insert: "om_wf m \<Longrightarrow> om_wf (om_insert k v m)"
  by (induction k v m rule: om_insert.induct) auto

lemma map_of_om_insert: "om_wf m \<Longrightarrow> map_of (om_insert k v m) = (map_of m)(k \<mapsto> v)"
proof (induction k v m rule: om_insert.induct)
  case (2 k v a b m)
  then show ?case by (auto simp: fun_upd_twist map_of_eq_None_iff)
qed simp

lemma set_om_remove: "set (om_remove k m) \<subseteq> set m"
  by (induction k m rule: om_remove.induct) auto

lemma om_wf_remove: "om_wf m \<Longrightarrow> om_wf (om_remove k m)"
  by (induction k m rule: om_remove.induct) (use set_om_remove in fastforce)+

lemma map_of_om_remove: "om_wf m \<Longrightarrow> map_of (om_remove k m) = (map_of m)(k := None)"
proof (induction k m rule: om_remove.induct)
  case (2 k a b m)
  then have "k = a \<Longrightarrow> map_of m k = None" by (auto simp: map_of_eq_None_iff)
  with 2 show ?case by (auto simp: fun_upd_twist fun_upd_idem)
qed simp

lemma om_eqI: "om_wf m \<Longrightarrow> om_wf n \<Longrightarrow> map_of m = map_of n \<Longrightarrow> m = n"
proof (induction m arbitrary: n)
  case Nil
  then show ?case by (cases n) (auto dest: fun_cong split: if_splits)
next
  case (Cons p m)
  obtain k v where p: "p = (k, v)" by force
  obtain k' v' n' where n: "n = (k', v') # n'"
    using Cons.prems(3) p by (cases n) (auto dest: fun_cong [of _ _ k])
  have lt: "\<forall>a\<in>dom (map_of m). k < a" "\<forall>a\<in>dom (map_of n'). k' < a" and wf: "om_wf m" "om_wf n'"
    using Cons.prems(1,2) by (simp_all add: p n dom_map_of_conv_image_fst)
  have eq: "(map_of m)(k \<mapsto> v) = (map_of n')(k' \<mapsto> v')" using Cons.prems(3) by (simp add: p n fun_upd_def)
  have "k' \<in> insert k (dom (map_of m))" "k \<in> insert k' (dom (map_of n'))"
    using arg_cong [OF eq, of dom] by auto
  with lt have k: "k' = k" by (metis insertE less_asym)
  have v: "v' = v" using fun_cong [OF eq, of k] k by simp
  have "map_of m k = None" "map_of n' k = None" using lt k by (metis domIff less_irrefl)+
  then have "map_of m a = map_of n' a" for a
    using fun_cong [OF eq, of a] k by (cases "a = k") simp_all
  then have "m = n'" by (intro Cons.IH wf ext)
  then show ?case by (simp add: p n k v)
qed

interpretation om: map_store map_of om_insert om_wf
  by unfold_locales (simp_all add: map_of_om_insert om_wf_insert)

lemma om_collect: "om_wf (om_collect kvs)" "map_of (om_collect kvs) = map_of (rev kvs)"
  using om.wf_extend [of "[]" kvs] om.lookup_extend [of "[]" kvs] by (simp_all add: om_collect_def)

lemma map_of_rev_distinct: "distinct (map fst m) \<Longrightarrow> map_of (rev m) = map_of m"
  by (rule map_of_inject_set [THEN iffD2]) (simp_all add: rev_map [symmetric])

lemma om_collect_wf: "om_wf m \<Longrightarrow> om_collect m = m"
  by (rule om_eqI) (simp_all add: om_collect map_of_rev_distinct om_wf_distinct)

lemma keys_om_retain: "fst ` set (om_retain h m) \<subseteq> fst ` set m"
  by (induction m) (auto simp: om_retain_def List.map_filter_simps split: option.splits)

lemma om_wf_retain: "om_wf m \<Longrightarrow> om_wf (om_retain h m)"
  using keys_om_retain [of h]
  by (induction m) (fastforce simp: om_retain_def List.map_filter_simps split: option.splits)+

lemma map_of_om_retain: "om_wf m \<Longrightarrow> map_of (om_retain h m) k = Option.bind (map_of m k) h"
proof (induction m)
  case (Cons x m)
  obtain k' v where x: "x = (k', v)" by force
  have "k' \<notin> fst ` set m" using Cons.prems by (force simp: x)
  then have "map_of (om_retain h m) k' = None" using keys_om_retain [of h m] by (auto simp: map_of_eq_None_iff)
  then show ?case using Cons by (auto simp: x om_retain_def List.map_filter_simps split: option.splits)
qed (simp add: om_retain_def List.map_filter_simps)

lemma om_wf_mem: "om_wf m \<Longrightarrow> (k, v) \<in> set m \<longleftrightarrow> map_of m k = Some v"
  by (simp add: om_wf_distinct)

lemma set_om_insert: "om_wf m \<Longrightarrow> set (om_insert k v m) = insert (k, v) {p \<in> set m. fst p \<noteq> k}"
  by (auto simp: om_wf_mem om_wf_insert map_of_om_insert split: if_splits)

lemma set_om_remove_eq: "om_wf m \<Longrightarrow> set (om_remove k m) = {p \<in> set m. fst p \<noteq> k}"
  by (auto simp: om_wf_mem om_wf_remove map_of_om_remove split: if_splits)

lemma fold_om_remove:
  "om_wf m \<Longrightarrow> om_wf (fold (\<lambda>p. om_remove (fst p)) xs m)
     \<and> set (fold (\<lambda>p. om_remove (fst p)) xs m) = {p \<in> set m. fst p \<notin> fst ` set xs}"
  by (induction xs arbitrary: m) (auto simp: om_wf_remove set_om_remove_eq)

lemma om_wf_key: "om_wf m \<Longrightarrow> p \<in> set m \<Longrightarrow> q \<in> set m \<Longrightarrow> fst p = fst q \<Longrightarrow> p = q"
  using om_wf_distinct [of m] by (auto simp: distinct_map inj_on_def)

lemma om_wf_map_snd: "om_wf (map (\<lambda>(k, v). (k, f v)) m) = om_wf m"
  by (simp add: om_wf_def comp_def case_prod_beta)

section \<open>Facts about hash maps\<close>

interpretation hm: map_store map_of hm_insert hm_wf
  by unfold_locales (simp_all add: update_conv' hm_wf_def distinct_update)

lemma hm_wf_Nil [simp]: "hm_wf []"
  by (simp add: hm_wf_def)

lemma hm_extend: "hm_wf m \<Longrightarrow> hm_wf (hm_extend m kvs)" "hm_wf m \<Longrightarrow> map_of (hm_extend m kvs) = map_of m ++ map_of (rev kvs)"
  using hm.wf_extend [of m kvs] hm.lookup_extend [of m kvs] by (simp_all add: hm_extend_def)

end
