(* ===== verification/Vector_Clock.thy ===== *)
theory Vector_Clock
  imports Map_Store Wire_Primitives
begin

text \<open>
  Vector clocks (\<open>clock.rs\<close>): a clock is an ordered map from actors to counts. \<open>merge\<close> is the
  merge join over both iterators, with the flags that let it return one of its arguments unchanged;
  it is shown to be the least upper bound in the causal order. The locale \<open>causal_clock\<close> is what the
  journal relies on.
\<close>

type_synonym vector_clock = "(actor_id \<times> u64) list"

section \<open>Operations\<close>

definition vc_get :: "vector_clock \<Rightarrow> actor_id \<Rightarrow> u64" where
  "vc_get c a = (case map_of c a of None \<Rightarrow> 0 | Some v \<Rightarrow> v)"

text \<open>The loop over the two peekable iterators: the merged pairs and the two flags.\<close>

fun merge_loop :: "vector_clock \<Rightarrow> vector_clock \<Rightarrow> bool \<Rightarrow> bool \<Rightarrow> vector_clock \<times> bool \<times> bool" where
  "merge_loop ((la, lv) # l) ((ra, rv) # r) idl idr =
     (case cmp la ra of
        Less \<Rightarrow> apfst (Cons (la, lv)) (merge_loop l ((ra, rv) # r) idl False)
      | Greater \<Rightarrow> apfst (Cons (ra, rv)) (merge_loop ((la, lv) # l) r False idr)
      | Equal \<Rightarrow> apfst (Cons (la, max lv rv))
          (merge_loop l r (if lv < rv then False else idl) (if rv < lv then False else idr)))"
| "merge_loop [] [] idl idr = ([], idl, idr)"
| "merge_loop (p # l) [] idl idr = (p # l, idl, False)"
| "merge_loop [] (p # r) idl idr = (p # r, False, idr)"

definition vc_merge :: "vector_clock \<Rightarrow> vector_clock \<Rightarrow> vector_clock" where
  "vc_merge self other =
     (if self = [] \<or> self = other then other
      else if other = [] then self
      else let (merged, identical_to_left, identical_to_right) = merge_loop self other True True
           in if identical_to_left then self
              else if identical_to_right then other
              else om_collect merged)"

definition u64_saturating_add :: "u64 \<Rightarrow> u64 \<Rightarrow> u64" where
  "u64_saturating_add a b = (if unat a + unat b < 2 ^ 64 then a + b else - 1)"

definition vc_incremented :: "vector_clock \<Rightarrow> actor_id \<Rightarrow> vector_clock" where
  "vc_incremented c a = om_insert a (u64_saturating_add (vc_get c a) 1) c"

definition happens_before_or_equal :: "vector_clock \<Rightarrow> vector_clock \<Rightarrow> bool" where
  "happens_before_or_equal c d \<longleftrightarrow> list_all (\<lambda>(a, v). v \<le> vc_get d a) c"

definition happens_before :: "vector_clock \<Rightarrow> vector_clock \<Rightarrow> bool" where
  "happens_before c d \<longleftrightarrow> happens_before_or_equal c d \<and> c \<noteq> d"

definition concurrent_with :: "vector_clock \<Rightarrow> vector_clock \<Rightarrow> bool" where
  "concurrent_with c d \<longleftrightarrow> \<not> happens_before_or_equal c d \<and> \<not> happens_before_or_equal d c"

definition vc_encode :: "vector_clock \<Rightarrow> bytes" where
  "vc_encode c = cbor_map (length c) @ concat (map (\<lambda>(a, v). cbor_unsigned (ucast (actor_val a)) @ cbor_unsigned v) c)"

text \<open>The clocks that \<open>merge\<close> and \<open>incremented\<close> build: ordered, and without a stored zero.\<close>

definition vc_ok :: "vector_clock \<Rightarrow> bool" where
  "vc_ok c \<longleftrightarrow> om_wf c \<and> (\<forall>p\<in>set c. 0 < snd p)"

lemma unat_saturating_add: "unat (u64_saturating_add a b) = min (unat a + unat b) 18446744073709551615"
  by (auto simp: u64_saturating_add_def unat_word_ariths min_def unsigned_minus_1_eq_mask mask_eq_exp_minus_1)

lemma u64_saturating_ge: "a \<le> u64_saturating_add a b"
proof -
  have "unat a \<le> 18446744073709551615" using unat_u64_less [of a] by linarith
  then show ?thesis unfolding word_le_nat_alt unat_saturating_add by linarith
qed

section \<open>The interface the journal relies on\<close>

locale causal_clock =
  fixes get :: "'c \<Rightarrow> 'a \<Rightarrow> u64" and merge :: "'c \<Rightarrow> 'c \<Rightarrow> 'c" and inc :: "'c \<Rightarrow> 'a \<Rightarrow> 'c"
    and le :: "'c \<Rightarrow> 'c \<Rightarrow> bool" and ok :: "'c \<Rightarrow> bool"
  assumes get_merge: "ok c \<Longrightarrow> ok d \<Longrightarrow> get (merge c d) a = max (get c a) (get d a)"
    and ok_merge: "ok c \<Longrightarrow> ok d \<Longrightarrow> ok (merge c d)"
    and get_inc: "ok c \<Longrightarrow> get (inc c a) = (get c)(a := u64_saturating_add (get c a) 1)"
    and ok_inc: "ok c \<Longrightarrow> ok (inc c a)"
    and le_iff: "ok c \<Longrightarrow> ok d \<Longrightarrow> le c d \<longleftrightarrow> (\<forall>a. get c a \<le> get d a)"
    and ext: "ok c \<Longrightarrow> ok d \<Longrightarrow> (\<And>a. get c a = get d a) \<Longrightarrow> c = d"
begin

lemma merge_upper: "ok c \<Longrightarrow> ok d \<Longrightarrow> le c (merge c d) \<and> le d (merge c d)"
  by (simp add: le_iff ok_merge get_merge)

lemma merge_least: "ok c \<Longrightarrow> ok d \<Longrightarrow> ok e \<Longrightarrow> le c e \<Longrightarrow> le d e \<Longrightarrow> le (merge c d) e"
  by (simp add: le_iff ok_merge get_merge)

lemma le_trans: "ok c \<Longrightarrow> ok d \<Longrightarrow> ok e \<Longrightarrow> le c d \<Longrightarrow> le d e \<Longrightarrow> le c e"
  by (auto simp: le_iff intro: order_trans)

lemma le_antisym: "ok c \<Longrightarrow> ok d \<Longrightarrow> le c d \<Longrightarrow> le d c \<Longrightarrow> c = d"
  by (rule ext) (auto simp: le_iff intro: order_antisym)

lemma ok_foldl: "ok z \<Longrightarrow> list_all ok cs \<Longrightarrow> ok (foldl merge z cs)"
  by (induction cs arbitrary: z) (auto simp: ok_merge)

lemma foldl_above: "ok z \<Longrightarrow> list_all ok cs \<Longrightarrow> le z (foldl merge z cs)"
proof (induction cs arbitrary: z)
  case (Cons d cs)
  then have ok: "ok d" "ok (merge z d)" "list_all ok cs" "le z (merge z d)"
    using merge_upper [of z d] by (simp_all add: ok_merge)
  from le_trans [OF Cons.prems(1) ok(2) ok_foldl [OF ok(2,3)] ok(4) Cons.IH [OF ok(2,3)]]
  show ?case by simp
qed (simp add: le_iff)

lemma foldl_upper: "ok z \<Longrightarrow> list_all ok cs \<Longrightarrow> c \<in> set cs \<Longrightarrow> le c (foldl merge z cs)"
proof (induction cs arbitrary: z)
  case (Cons d cs)
  then have ok: "ok d" "ok (merge z d)" "list_all ok cs" "le d (merge z d)"
    using merge_upper [of z d] by (simp_all add: ok_merge)
  show ?case
  proof (cases "c = d")
    case True
    with le_trans [OF ok(1,2) ok_foldl [OF ok(2,3)] ok(4) foldl_above [OF ok(2,3)]] show ?thesis by simp
  next
    case False
    with Cons.prems(3) Cons.IH [OF ok(2,3)] show ?thesis by simp
  qed
qed simp

lemma less_get_foldl:
  "ok z \<Longrightarrow> list_all ok cs \<Longrightarrow> w < get (foldl merge z cs) x \<longleftrightarrow> w < get z x \<or> (\<exists>c\<in>set cs. w < get c x)"
  by (induction cs arbitrary: z) (auto simp: ok_merge get_merge less_max_iff_disj)

lemma inc_upper: "ok c \<Longrightarrow> le c (inc c a)"
  by (simp add: le_iff ok_inc get_inc u64_saturating_ge)

end

section \<open>The clock of the journal\<close>

lemma vc_get_simps [simp]: "vc_get [] a = 0" "vc_get ((b, v) # c) a = (if a = b then v else vc_get c a)"
  by (auto simp: vc_get_def)

lemma vc_get_notin: "a \<notin> fst ` set c \<Longrightarrow> vc_get c a = 0"
  by (induction c) auto

text \<open>One step of the loop on each outcome of the comparison.\<close>

lemma merge_loop_step:
  "la < ra \<Longrightarrow> merge_loop ((la, lv) # l) ((ra, rv) # r) i j = apfst (Cons (la, lv)) (merge_loop l ((ra, rv) # r) i False)"
  "ra < la \<Longrightarrow> merge_loop ((la, lv) # l) ((ra, rv) # r) i j = apfst (Cons (ra, rv)) (merge_loop ((la, lv) # l) r False j)"
  "merge_loop ((la, lv) # l) ((la, rv) # r) i j
     = apfst (Cons (la, max lv rv)) (merge_loop l r (if lv < rv then False else i) (if rv < lv then False else j))"
  by simp_all

declare merge_loop.simps(1) [simp del]

text \<open>Induction along the steps.\<close>

lemma merge_loop_induct [case_names less greater eq nil left right]:
  fixes P :: "vector_clock \<Rightarrow> vector_clock \<Rightarrow> bool \<Rightarrow> bool \<Rightarrow> bool"
  assumes "\<And>la lv l ra rv r i j. la < ra \<Longrightarrow> P l ((ra, rv) # r) i False \<Longrightarrow> P ((la, lv) # l) ((ra, rv) # r) i j"
    "\<And>la lv l ra rv r i j. ra < la \<Longrightarrow> P ((la, lv) # l) r False j \<Longrightarrow> P ((la, lv) # l) ((ra, rv) # r) i j"
    "\<And>la lv l rv r i j. P l r (if lv < rv then False else i) (if rv < lv then False else j) \<Longrightarrow> P ((la, lv) # l) ((la, rv) # r) i j"
    "\<And>i j. P [] [] i j" "\<And>p l i j. P (p # l) [] i j" "\<And>p r i j. P [] (p # r) i j"
  shows "P l r i j"
proof (induction l r i j rule: merge_loop.induct)
  case (1 la lv l ra rv r i j)
  then show ?case by (cases la ra rule: linorder_cases) (auto intro: assms(1-2) simp: assms(3) simp del: if_split)
qed (rule assms)+

lemma merge_loop_keys: "fst ` set (fst (merge_loop l r i j)) = fst ` set l \<union> fst ` set r"
  by (induction l r i j rule: merge_loop_induct) (auto simp: merge_loop_step)

lemma merge_loop_wf: "om_wf l \<Longrightarrow> om_wf r \<Longrightarrow> om_wf (fst (merge_loop l r i j))"
  by (induction l r i j rule: merge_loop_induct) (auto simp: merge_loop_step merge_loop_keys)

lemma merge_loop_get:
  "om_wf l \<Longrightarrow> om_wf r \<Longrightarrow> vc_get (fst (merge_loop l r i j)) a = max (vc_get l a) (vc_get r a)"
proof (induction l r i j rule: merge_loop_induct)
  case (less la lv l ra rv r i j)
  then have "vc_get r la = 0" by (auto intro!: vc_get_notin)
  with less show ?case by (auto simp: merge_loop_step)
next
  case (greater la lv l ra rv r i j)
  then have "vc_get l ra = 0" by (auto intro!: vc_get_notin)
  with greater show ?case by (auto simp: merge_loop_step)
qed (auto simp: merge_loop_step)

text \<open>A flag that is still set says that the merged pairs are those of the argument.\<close>

lemma merge_loop_left: "fst (snd (merge_loop l r i j)) \<Longrightarrow> i \<and> fst (merge_loop l r i j) = l"
  by (induction l r i j rule: merge_loop_induct) (auto simp: merge_loop_step max_def split: if_splits)

lemma merge_loop_right: "snd (snd (merge_loop l r i j)) \<Longrightarrow> j \<and> fst (merge_loop l r i j) = r"
  by (induction l r i j rule: merge_loop_induct) (auto simp: merge_loop_step max_def split: if_splits)

lemma merge_loop_same: "fst (merge_loop c c i j) = c"
proof (induction c arbitrary: i j)
  case (Cons p c)
  then show ?case by (cases p) (simp add: merge_loop_step)
qed simp

lemma vc_merge_loop: "om_wf c \<Longrightarrow> om_wf d \<Longrightarrow> vc_merge c d = fst (merge_loop c d True True)"
  using merge_loop_left [of c d True True] merge_loop_right [of c d True True] merge_loop_same [of d True True]
    om_collect_wf [OF merge_loop_wf, of c d True True]
  by (cases c; cases d) (auto simp: vc_merge_def split: prod.split)

lemma vc_get_map_of: "vc_ok c \<Longrightarrow> map_of c a = (if vc_get c a = 0 then None else Some (vc_get c a))"
  by (auto simp: vc_get_def vc_ok_def split: option.splits dest!: map_of_SomeD)

lemma vc_ok_wf: "vc_ok c \<Longrightarrow> om_wf c"
  by (simp add: vc_ok_def)

lemma vc_get_incremented: "om_wf c \<Longrightarrow> vc_get (vc_incremented c a) = (vc_get c)(a := u64_saturating_add (vc_get c a) 1)"
  by (auto simp: vc_incremented_def map_of_om_insert vc_get_def)

lemma vc_get_mem: "om_wf c \<Longrightarrow> (a, v) \<in> set c \<Longrightarrow> vc_get c a = v"
  by (simp add: vc_get_def om_wf_distinct)

lemma vc_get_pos: "vc_ok c \<Longrightarrow> a \<in> fst ` set c \<Longrightarrow> 0 < vc_get c a"
  using vc_get_mem by (fastforce simp: vc_ok_def)

lemma vc_okI: "om_wf c \<Longrightarrow> (\<And>a. a \<in> fst ` set c \<Longrightarrow> 0 < vc_get c a) \<Longrightarrow> vc_ok c"
  using vc_get_mem by (force simp: vc_ok_def)

lemma hb_get: "om_wf c \<Longrightarrow> happens_before_or_equal c d \<longleftrightarrow> (\<forall>a. vc_get c a \<le> vc_get d a)"
proof
  assume "om_wf c" "happens_before_or_equal c d"
  then show "\<forall>a. vc_get c a \<le> vc_get d a"
    by (auto simp: happens_before_or_equal_def list_all_iff vc_get_def [of c] split: option.splits dest!: map_of_SomeD)
next
  assume "om_wf c" "\<forall>a. vc_get c a \<le> vc_get d a"
  then show "happens_before_or_equal c d"
    using vc_get_mem [of c] by (auto simp: happens_before_or_equal_def list_all_iff)
qed

lemma vc_ok_merge: "vc_ok c \<Longrightarrow> vc_ok d \<Longrightarrow> vc_ok (vc_merge c d)"
  using vc_get_pos [of c] vc_get_pos [of d]
  by (intro vc_okI) (auto simp: vc_merge_loop vc_ok_wf merge_loop_wf merge_loop_keys merge_loop_get less_max_iff_disj
      simp del: word_gt_0 word_neq_0_conv)

lemma u64_saturating_pos: "0 < u64_saturating_add v 1"
  by (simp add: word_less_nat_alt unat_saturating_add)

lemma vc_ok_incremented: "vc_ok c \<Longrightarrow> vc_ok (vc_incremented c a)"
proof (rule vc_okI)
  assume c: "vc_ok c"
  then show "om_wf (vc_incremented c a)" by (simp add: vc_incremented_def om_wf_insert vc_ok_wf)
  fix b assume "b \<in> fst ` set (vc_incremented c a)"
  then have "b \<in> insert a (fst ` set c)" by (simp add: vc_incremented_def)
  with c vc_get_pos [OF c, of b] show "0 < vc_get (vc_incremented c a) b"
    by (auto simp: vc_get_incremented vc_ok_wf u64_saturating_pos)
qed

lemma vc_get_merge: "vc_ok c \<Longrightarrow> vc_ok d \<Longrightarrow> vc_get (vc_merge c d) a = max (vc_get c a) (vc_get d a)"
  by (simp add: vc_merge_loop merge_loop_get vc_ok_wf)

interpretation vc: causal_clock vc_get vc_merge vc_incremented happens_before_or_equal vc_ok
proof
  show "c = d" if "vc_ok c" "vc_ok d" "\<And>a. vc_get c a = vc_get d a" for c d
    using that by (intro om_eqI vc_ok_wf ext) (simp_all add: vc_get_map_of)
qed (simp_all add: vc_ok_merge vc_get_merge vc_ok_wf vc_get_incremented vc_ok_incremented hb_get)

lemma vc_ok_Nil [simp]: "vc_ok []"
  by (simp add: vc_ok_def)

lemma vc_merge_Nil [simp]: "vc_merge [] c = c"
  by (simp add: vc_merge_def)

text \<open>
  C28: \<open>merge\<close> is the least upper bound of its arguments in the causal order, whichever of its shortcuts
  it takes, and its components are the maxima of the components.
\<close>

theorem merge_least_upper_bound:
  assumes "vc_ok c" "vc_ok d"
  shows "vc_ok (vc_merge c d) \<and> (\<forall>a. vc_get (vc_merge c d) a = max (vc_get c a) (vc_get d a))
    \<and> happens_before_or_equal c (vc_merge c d) \<and> happens_before_or_equal d (vc_merge c d)
    \<and> (\<forall>e. vc_ok e \<and> happens_before_or_equal c e \<and> happens_before_or_equal d e
         \<longrightarrow> happens_before_or_equal (vc_merge c d) e)"
  using assms vc.merge_upper [OF assms] vc.merge_least [OF assms] by (simp add: vc_ok_merge vc_get_merge)

theorem merge_least_upper_bound_witness:
  "happens_before_or_equal [(ActorId 1, 3), (ActorId 4, 1)]
     (vc_merge [(ActorId 1, 3), (ActorId 4, 1)] [(ActorId 1, 2), (ActorId 2, 9)])
   \<and> vc_merge [(ActorId 1, 3), (ActorId 4, 1)] [(ActorId 1, 2), (ActorId 2, 9)]
       = [(ActorId 1, 3), (ActorId 2, 9), (ActorId 4, 1)]"
proof
  show "happens_before_or_equal [(ActorId 1, 3), (ActorId 4, 1)]
     (vc_merge [(ActorId 1, 3), (ActorId 4, 1)] [(ActorId 1, 2), (ActorId 2, 9)])"
    using merge_least_upper_bound [of "[(ActorId 1, 3), (ActorId 4, 1)]" "[(ActorId 1, 2), (ActorId 2, 9)]"]
    by (simp add: vc_ok_def less_actor_id_def)
qed (simp add: vc_merge_def merge_loop.simps cmp_def less_actor_id_def om_collect_def)

text \<open>
  C29: on the clocks that the journal builds, \<open>happens_before\<close> is a strict partial order and two clocks are
  either equal, ordered one way, ordered the other way or concurrent, and only one of these.
\<close>

theorem happens_before_strict_order:
  assumes "vc_ok c" "vc_ok d" "vc_ok e"
  shows "\<not> happens_before c c
    \<and> (happens_before c d \<and> happens_before d e \<longrightarrow> happens_before c e)
    \<and> ((c = d \<and> \<not> happens_before c d \<and> \<not> happens_before d c \<and> \<not> concurrent_with c d)
     \<or> (c \<noteq> d \<and> happens_before c d \<and> \<not> happens_before d c \<and> \<not> concurrent_with c d)
     \<or> (c \<noteq> d \<and> \<not> happens_before c d \<and> happens_before d c \<and> \<not> concurrent_with c d)
     \<or> (c \<noteq> d \<and> \<not> happens_before c d \<and> \<not> happens_before d c \<and> concurrent_with c d))"
proof (intro conjI)
  show "\<not> happens_before c c" by (simp add: happens_before_def)
  show "happens_before c d \<and> happens_before d e \<longrightarrow> happens_before c e"
    using vc.le_trans [OF assms] vc.le_antisym [OF assms(1,2)] by (auto simp: happens_before_def)
  have "happens_before_or_equal c c" using assms by (simp add: hb_get vc_ok_wf)
  then show "(c = d \<and> \<not> happens_before c d \<and> \<not> happens_before d c \<and> \<not> concurrent_with c d)
     \<or> (c \<noteq> d \<and> happens_before c d \<and> \<not> happens_before d c \<and> \<not> concurrent_with c d)
     \<or> (c \<noteq> d \<and> \<not> happens_before c d \<and> happens_before d c \<and> \<not> concurrent_with c d)
     \<or> (c \<noteq> d \<and> \<not> happens_before c d \<and> \<not> happens_before d c \<and> concurrent_with c d)"
    using vc.le_antisym [OF assms(1,2)] by (auto simp: happens_before_def concurrent_with_def)
qed

theorem happens_before_strict_order_witness:
  "happens_before [(ActorId 1, 1)] [(ActorId 1, 2), (ActorId 2, 5)]"
proof -
  have "happens_before [(ActorId 1, 1)] [(ActorId 1, 2)]" "happens_before [(ActorId 1, 2)] [(ActorId 1, 2), (ActorId 2, 5)]"
    by (simp_all add: happens_before_def happens_before_or_equal_def)
  then show ?thesis
    using happens_before_strict_order [of "[(ActorId 1, 1)]" "[(ActorId 1, 2)]" "[(ActorId 1, 2), (ActorId 2, 5)]"]
    by (simp add: vc_ok_def less_actor_id_def)
qed

end
