(* ===== verification/Journal_Dag.thy ===== *)
theory Journal_Dag
  imports Entry_Roundtrip Vector_Clock
begin

text \<open>
  The in-memory journal (\<open>dag.rs\<close>): content-addressed entries in a frozen base and an overlay, a head
  per actor and the append order. BLAKE3 is a parameter. Whether the base is shared with a fork when an
  overlay is frozen (\<open>Arc::get_mut\<close>) is an argument of the operations, since it depends on the forks
  that are alive; the scratch buffer is cleared before each use and is not part of the state.
\<close>

section \<open>Errors and their text\<close>

datatype journal_error =
    MissingParent entry_hash
  | NonMonotonicSequence actor_id u64 u64
  | InvariantViolation string
  | InvalidPayload string
  | SegmentCorrupt string
  | SnapshotHashMismatch
  | SnapshotStoreError string
  | ArchiveHashMismatch

definition digit :: "nat \<Rightarrow> char" where
  "digit n = char_of (if n < 10 then 48 + n else 87 + n)"

fun digits :: "nat \<Rightarrow> nat \<Rightarrow> string" where
  "digits b n = (if b < 2 \<or> n < b then [digit n] else digits b (n div b) @ [digit (n mod b)])"

declare digits.simps [simp del]

primrec cbor_error_display :: "cbor_error \<Rightarrow> string" where
  "cbor_error_display UnexpectedEof = ''unexpected end of CBOR buffer''"
| "cbor_error_display IndefiniteLengthForbidden = ''indefinite length items forbidden in canonical CBOR''"
| "cbor_error_display NonCanonicalIntegerEncoding = ''integer not in shortest canonical representation''"
| "cbor_error_display NonCanonicalFloat = ''float is -0.0, NaN, or not minimal width in canonical CBOR''"
| "cbor_error_display UnsortedMapKeys = ''map keys not sorted canonically''"
| "cbor_error_display DuplicateMapKey = ''duplicate map key detected''"
| "cbor_error_display InvalidUtf8 = ''invalid UTF-8 sequence in text string''"
| "cbor_error_display (UnknownTag t) = ''unknown or disallowed CBOR tag: '' @ digits 10 (unat t)"
| "cbor_error_display LengthOverflow = ''declared length exceeds remaining input''"
| "cbor_error_display (EntryTooLarge n) = ''canonical entry exceeds the '' @ digits 10 n @ ''-byte limit''"
| "cbor_error_display DepthLimitExceeded = ''CBOR nesting depth exceeds the limit''"
| "cbor_error_display (UnsupportedType t) = ''unsupported CBOR major type or value: 0x'' @ digits 16 (unat t)"
| "cbor_error_display TrailingBytes = ''trailing unparsed bytes in CBOR buffer''"
| "cbor_error_display (UnsupportedVersion v) = ''unsupported manifest format version: '' @ digits 10 (unat v)"
| "cbor_error_display (MalformedManifest msg) = ''malformed manifest: '' @ msg"

section \<open>Entries\<close>

record entry =
  en_id :: entry_hash
  en_data :: entry_data
  en_clock :: vector_clock

type_synonym hasher = "bytes \<Rightarrow> bytes"

definition entry_new :: "hasher \<Rightarrow> entry_data \<Rightarrow> vector_clock \<Rightarrow> journal_error + entry" where
  "entry_new blake3 d c =
     res_bind (map_err (\<lambda>err. InvalidPayload (cbor_error_display err)) (try_canonical_bytes d)) (\<lambda>encoded.
     Inr \<lparr>en_id = EntryHash (blake3 (encoded @ vc_encode c)), en_data = d, en_clock = c\<rparr>)"

text \<open>The entry, the length of the \<open>EntryData\<close> prefix and the contents of the scratch buffer.\<close>

definition new_with_scratch_recorded ::
  "hasher \<Rightarrow> entry_data \<Rightarrow> vector_clock \<Rightarrow> journal_error + entry \<times> nat \<times> bytes" where
  "new_with_scratch_recorded blake3 d c =
     res_bind (map_err (\<lambda>err. InvalidPayload (cbor_error_display err)) (entry_encode d)) (\<lambda>scratch.
     let data_len = length scratch; scratch' = scratch @ vc_encode c
     in Inr (\<lparr>en_id = EntryHash (blake3 scratch'), en_data = d, en_clock = c\<rparr>, data_len, scratch'))"

definition new_with_scratch :: "hasher \<Rightarrow> entry_data \<Rightarrow> vector_clock \<Rightarrow> journal_error + entry" where
  "new_with_scratch blake3 d c = res_map fst (new_with_scratch_recorded blake3 d c)"

section \<open>Journal state\<close>

record journal_state =
  js_base :: "(entry_hash \<times> entry) list"
  js_overlay :: "(entry_hash \<times> entry) list"
  js_heads :: "(actor_id \<times> entry_hash) list"
  js_order :: "entry_hash list"
  js_overlay_order :: "entry_hash list"

definition OVERLAY_THRESHOLD :: nat where "OVERLAY_THRESHOLD = 1024"

definition journal_new :: journal_state where
  "journal_new = \<lparr>js_base = [], js_overlay = [], js_heads = [], js_order = [], js_overlay_order = []\<rparr>"

definition fork :: "journal_state \<Rightarrow> journal_state" where
  "fork st = st"

text \<open>Both arms of the match on \<open>order\<close> leave the concatenation of the two orders.\<close>

definition freeze_overlay :: "bool \<Rightarrow> journal_state \<Rightarrow> journal_state" where
  "freeze_overlay base_unique st =
     (if \<not> base_unique then st
      else st\<lparr>js_base := hm_extend (js_base st) (js_overlay st), js_overlay := [],
              js_order := js_order st @ js_overlay_order st, js_overlay_order := []\<rparr>)"

definition state_lookup :: "journal_state \<Rightarrow> entry_hash \<Rightarrow> entry option" where
  "state_lookup st i = (case map_of (js_overlay st) i of Some e \<Rightarrow> Some e | None \<Rightarrow> map_of (js_base st) i)"

definition journal_get :: "journal_state \<Rightarrow> entry_hash \<Rightarrow> entry option" where
  "journal_get st i = (case map_of (js_overlay st) i of Some e \<Rightarrow> Some e | None \<Rightarrow> map_of (js_base st) i)"

definition journal_ids :: "journal_state \<Rightarrow> entry_hash list" where
  "journal_ids st = js_order st @ js_overlay_order st"

definition journal_len :: "journal_state \<Rightarrow> nat" where
  "journal_len st = length (js_order st) + length (js_overlay_order st)"

definition journal_entries :: "journal_state \<Rightarrow> entry list" where
  "journal_entries st = List.map_filter (journal_get st) (journal_ids st)"

definition tail_ids :: "journal_state \<Rightarrow> nat \<Rightarrow> entry_hash list" where
  "tail_ids st n = drop (journal_len st - n) (journal_ids st)"

definition journal_last :: "journal_state \<Rightarrow> entry option" where
  "journal_last st =
     (case (if js_overlay_order st \<noteq> [] then Some (last (js_overlay_order st))
            else if js_order st \<noteq> [] then Some (last (js_order st)) else None) of
        None \<Rightarrow> None | Some i \<Rightarrow> journal_get st i)"

definition head_for_actor :: "journal_state \<Rightarrow> actor_id \<Rightarrow> entry_hash option" where
  "head_for_actor st a = map_of (js_heads st) a"

definition root_hash :: "hasher \<Rightarrow> journal_state \<Rightarrow> entry_hash" where
  "root_hash blake3 st = EntryHash (blake3 (concat (map hash_bytes (journal_ids st))))"

section \<open>Appending\<close>

definition push_parent ::
  "entry_hash \<Rightarrow> entry_hash set \<times> entry_hash list \<Rightarrow> journal_error + entry_hash set \<times> entry_hash list" where
  "push_parent p = (\<lambda>(seen, parents).
     if p \<in> seen then Inr (seen, parents)
     else if length parents \<ge> MAX_PARENTS_PER_ENTRY then Inl (InvalidPayload ''parent count exceeds format limit'')
     else Inr (insert p seen, parents @ [p]))"

primrec push_parents ::
  "entry_hash list \<Rightarrow> entry_hash set \<times> entry_hash list \<Rightarrow> journal_error + entry_hash set \<times> entry_hash list" where
  "push_parents [] s = Inr s"
| "push_parents (p # ps) s = res_bind (push_parent p s) (push_parents ps)"

definition assemble_parents ::
  "entry_hash option \<Rightarrow> entry_hash list \<Rightarrow> entry_hash option \<Rightarrow> journal_error + entry_hash list" where
  "assemble_parents head observed chain =
     res_bind (push_parents observed (case head of Some h \<Rightarrow> ({h}, [h]) | None \<Rightarrow> ({}, []))) (\<lambda>s.
     res_map snd (case chain of Some c \<Rightarrow> push_parent c s | None \<Rightarrow> Inr s))"

text \<open>\<open>for parent in &parents_vec { clock = clock.merge(..) }\<close>\<close>

primrec merge_parents ::
  "(entry_hash \<Rightarrow> entry option) \<Rightarrow> entry_hash list \<Rightarrow> vector_clock \<Rightarrow> journal_error + vector_clock" where
  "merge_parents get [] c = Inr c"
| "merge_parents get (p # ps) c =
     res_bind (ok_or (MissingParent p) (get p)) (\<lambda>e. merge_parents get ps (vc_merge c (en_clock e)))"

definition make_data :: "entry_kind \<Rightarrow> actor_id \<Rightarrow> entry_hash list \<Rightarrow> u64 \<Rightarrow> entry_payload \<Rightarrow> entry_data" where
  "make_data kind a parents s p = \<lparr>ed_format_version = FORMAT_VERSION, ed_kind = kind, ed_actor = a,
     ed_parents = parents, ed_vector_clock = [], ed_sequence = SequenceNumber s, ed_payload = p\<rparr>"

text \<open>
  \<open>Journal::append\<close> up to the entry it creates, over the lookup function and the actor's previous head.
\<close>

definition append_entry ::
  "hasher \<Rightarrow> (entry_hash \<Rightarrow> entry option) \<Rightarrow> entry_hash option \<Rightarrow> entry_kind \<Rightarrow> actor_id \<Rightarrow> entry_hash list
     \<Rightarrow> entry_payload \<Rightarrow> journal_error + entry" where
  "append_entry blake3 get previous_head kind a observed p =
     res_bind (assemble_parents previous_head observed None) (\<lambda>parents.
     res_bind (case previous_head of
         Some h \<Rightarrow> res_bind (ok_or (MissingParent h) (get h)) (\<lambda>e.
           Inr (u64_saturating_add (sequence_val (ed_sequence (en_data e))) 1, Some e))
       | None \<Rightarrow> Inr (0, None)) (\<lambda>(s, head_entry).
     res_bind
       (if length parents = 1 then
          case head_entry of
            Some e \<Rightarrow> Inr (en_clock e)
          | None \<Rightarrow> res_bind (ok_or (MissingParent (parents ! 0)) (get (parents ! 0))) (\<lambda>e. Inr (en_clock e))
        else if parents \<noteq> [] then merge_parents get parents []
        else Inr []) (\<lambda>clock.
     new_with_scratch blake3 (make_data kind a parents s p) (vc_incremented clock a))))"

definition commit :: "actor_id \<Rightarrow> entry \<Rightarrow> journal_state \<Rightarrow> journal_state" where
  "commit a e st = st\<lparr>js_overlay := hm_insert (en_id e) e (js_overlay st),
     js_overlay_order := js_overlay_order st @ [en_id e], js_heads := hm_insert a (en_id e) (js_heads st)\<rparr>"

definition freeze_if_full :: "bool \<Rightarrow> journal_state \<Rightarrow> journal_state" where
  "freeze_if_full base_unique st =
     (if length (js_overlay st) \<ge> OVERLAY_THRESHOLD then freeze_overlay base_unique st else st)"

definition append :: "hasher \<Rightarrow> bool \<Rightarrow> entry_kind \<Rightarrow> actor_id \<Rightarrow> entry_hash list \<Rightarrow> entry_payload \<Rightarrow> journal_state
     \<Rightarrow> (journal_error + entry_hash) \<times> journal_state" where
  "append blake3 base_unique kind a observed p st =
     (case append_entry blake3 (journal_get st) (map_of (js_heads st) a) kind a observed p of
        Inl err \<Rightarrow> (Inl err, st)
      | Inr e \<Rightarrow> (Inr (en_id e), freeze_if_full base_unique (commit a e st)))"

section \<open>Appending a batch\<close>

record batch_entry =
  be_kind :: entry_kind
  be_actor :: actor_id
  be_observed_parents :: "entry_hash list"
  be_chain_previous :: bool
  be_payload :: entry_payload

record entry_frame =
  ef_id :: entry_hash
  ef_data_len :: nat
  ef_payload :: bytes
  ef_fault_relevant :: bool

definition kind_is_fault_relevant :: "entry_kind \<Rightarrow> bool" where
  "kind_is_fault_relevant k \<longleftrightarrow> k = KFault \<or> k = KOutcome \<or> k = KAssert"

definition batch_entry_new :: "entry_kind \<Rightarrow> actor_id \<Rightarrow> entry_payload \<Rightarrow> batch_entry" where
  "batch_entry_new k a p =
     \<lparr>be_kind = k, be_actor = a, be_observed_parents = [], be_chain_previous = False, be_payload = p\<rparr>"

definition chained :: "batch_entry \<Rightarrow> batch_entry" where
  "chained b = b\<lparr>be_chain_previous := True\<rparr>"

text \<open>The body of the loop of \<open>append_batch_impl\<close> up to the entry; \<open>ids\<close> are those of the batch so far.\<close>

definition batch_step ::
  "hasher \<Rightarrow> journal_state \<Rightarrow> entry_hash list \<Rightarrow> batch_entry \<Rightarrow> journal_error + entry \<times> nat \<times> bytes" where
  "batch_step blake3 st ids spec =
     (let previous_head = map_of (js_heads st) (be_actor spec);
          chain = (if be_chain_previous spec then (if ids = [] then None else Some (last ids)) else None)
      in res_bind (assemble_parents previous_head (be_observed_parents spec) chain) (\<lambda>parents.
      res_bind (case previous_head of
          Some h \<Rightarrow> res_bind (ok_or (MissingParent h) (state_lookup st h)) (\<lambda>e.
            Inr (Some (sequence_val (ed_sequence (en_data e)), en_clock e)))
        | None \<Rightarrow> Inr None) (\<lambda>head_info.
      let s = (case head_info of Some (previous, _) \<Rightarrow> u64_saturating_add previous 1 | None \<Rightarrow> 0)
      in res_bind
        (if length parents = 1 then
           if previous_head \<noteq> None then Inr (case head_info of Some (_, c) \<Rightarrow> c | None \<Rightarrow> [])
           else res_bind (ok_or (MissingParent (parents ! 0)) (state_lookup st (parents ! 0))) (\<lambda>e. Inr (en_clock e))
         else if parents \<noteq> [] then merge_parents (state_lookup st) parents []
         else Inr []) (\<lambda>clock.
      new_with_scratch_recorded blake3 (make_data (be_kind spec) (be_actor spec) parents s (be_payload spec))
        (vc_incremented clock (be_actor spec))))))"

text \<open>The loop: the result, the state with the applied prefix and the frames.\<close>

fun batch_loop :: "hasher \<Rightarrow> batch_entry list \<Rightarrow> entry_hash list \<Rightarrow> entry_frame list \<Rightarrow> journal_state
     \<Rightarrow> (journal_error + entry_hash list) \<times> journal_state \<times> entry_frame list" where
  "batch_loop blake3 [] ids frames st = (Inr ids, st, frames)"
| "batch_loop blake3 (spec # batch) ids frames st =
     (case batch_step blake3 st ids spec of
        Inl err \<Rightarrow> (Inl err, st, frames)
      | Inr (e, data_len, scratch) \<Rightarrow>
          batch_loop blake3 batch (ids @ [en_id e])
            (frames @ [\<lparr>ef_id = en_id e, ef_data_len = data_len, ef_payload = scratch,
               ef_fault_relevant = kind_is_fault_relevant (be_kind spec)\<rparr>])
            (commit (be_actor spec) e st))"

definition append_batch_impl :: "hasher \<Rightarrow> bool \<Rightarrow> batch_entry list \<Rightarrow> journal_state
     \<Rightarrow> (journal_error + entry_hash list) \<times> journal_state \<times> entry_frame list" where
  "append_batch_impl blake3 base_unique batch st =
     (if batch = [] then (Inr [], st, [])
      else case batch_loop blake3 batch [] [] st of
        (Inl err, st', frames) \<Rightarrow> (Inl err, st', frames)
      | (Inr ids, st', frames) \<Rightarrow> (Inr ids, freeze_if_full base_unique st', frames))"

definition append_batch :: "hasher \<Rightarrow> bool \<Rightarrow> batch_entry list \<Rightarrow> journal_state
     \<Rightarrow> (journal_error + entry_hash list) \<times> journal_state" where
  "append_batch blake3 base_unique batch st =
     (let (r, st', _) = append_batch_impl blake3 base_unique batch st in (r, st'))"

end
