(* ===== verification/Journal_History.thy ===== *)
theory Journal_History
  imports Journal_Dag
begin

text \<open>
  The journal as an abstract object: \<open>view\<close> forgets how entries are split between base and overlay, and
  \<open>history\<close> describes the lists of entries that appends build. The concrete operations are shown to
  implement the abstract append, and a batch to be a loop of appends.
\<close>

section \<open>The abstract journal\<close>

record journal_view =
  jv_get :: "entry_hash \<Rightarrow> entry option"
  jv_ids :: "entry_hash list"
  jv_heads :: "actor_id \<Rightarrow> entry_hash option"

definition view :: "journal_state \<Rightarrow> journal_view" where
  "view st = \<lparr>jv_get = journal_get st, jv_ids = journal_ids st, jv_heads = map_of (js_heads st)\<rparr>"

definition store_wf :: "journal_state \<Rightarrow> bool" where
  "store_wf st \<longleftrightarrow> hm_wf (js_base st) \<and> hm_wf (js_overlay st) \<and> hm_wf (js_heads st)"

definition add_entry :: "actor_id \<Rightarrow> entry \<Rightarrow> journal_view \<Rightarrow> journal_view" where
  "add_entry a e v = v\<lparr>jv_get := (jv_get v)(en_id e \<mapsto> e), jv_ids := jv_ids v @ [en_id e],
     jv_heads := (jv_heads v)(a \<mapsto> en_id e)\<rparr>"

definition spec_append :: "hasher \<Rightarrow> entry_kind \<Rightarrow> actor_id \<Rightarrow> entry_hash list \<Rightarrow> entry_payload \<Rightarrow> journal_view
     \<Rightarrow> (journal_error + entry_hash) \<times> journal_view" where
  "spec_append blake3 kind a observed p v =
     (case append_entry blake3 (jv_get v) (jv_heads v a) kind a observed p of
        Inl err \<Rightarrow> (Inl err, v)
      | Inr e \<Rightarrow> (Inr (en_id e), add_entry a e v))"

text \<open>A batch by one append per entry; a chained entry observes the previous id of the batch last.\<close>

definition chain_parents :: "entry_hash list \<Rightarrow> batch_entry \<Rightarrow> entry_hash list" where
  "chain_parents ids spec = be_observed_parents spec @ (if be_chain_previous spec \<and> ids \<noteq> [] then [last ids] else [])"

fun append_loop :: "hasher \<Rightarrow> bool \<Rightarrow> batch_entry list \<Rightarrow> entry_hash list \<Rightarrow> journal_state
     \<Rightarrow> (journal_error + entry_hash list) \<times> journal_state" where
  "append_loop blake3 u [] ids st = (Inr ids, st)"
| "append_loop blake3 u (spec # batch) ids st =
     (case append blake3 u (be_kind spec) (be_actor spec) (chain_parents ids spec) (be_payload spec) st of
        (Inl err, st') \<Rightarrow> (Inl err, st')
      | (Inr i, st') \<Rightarrow> append_loop blake3 u batch (ids @ [i]) st')"

definition history_get :: "entry list \<Rightarrow> entry_hash \<Rightarrow> entry option" where
  "history_get es i = map_of (map (\<lambda>e. (en_id e, e)) es) i"

definition history_head :: "entry list \<Rightarrow> actor_id \<Rightarrow> entry_hash option" where
  "history_head es a = (let own = filter (\<lambda>e. ed_actor (en_data e) = a) es in if own = [] then None else Some (en_id (last own)))"

definition actor_count :: "entry list \<Rightarrow> actor_id \<Rightarrow> nat" where
  "actor_count es a = length (filter (\<lambda>e. ed_actor (en_data e) = a) es)"

definition view_of :: "entry list \<Rightarrow> journal_view" where
  "view_of es = \<lparr>jv_get = history_get es, jv_ids = map en_id es, jv_heads = history_head es\<rparr>"

text \<open>
  The histories that appends build from the empty journal: each entry is the one that \<open>append\<close> creates
  over the entries before it, it can be read back, and its content address is new.
\<close>

inductive history :: "hasher \<Rightarrow> entry list \<Rightarrow> bool" for blake3 :: hasher where
  history_Nil: "history blake3 []"
| history_snoc: "history blake3 es \<Longrightarrow>
    append_entry blake3 (history_get es) (history_head es a) kind a observed p = Inr e \<Longrightarrow>
    entry_ok (en_data e) \<Longrightarrow> en_id e \<notin> en_id ` set es \<Longrightarrow> history blake3 (es @ [e])"

text \<open>What one append adds, over the entries before it.\<close>

definition extends :: "hasher \<Rightarrow> entry list \<Rightarrow> entry \<Rightarrow> bool" where
  "extends blake3 es e \<longleftrightarrow>
     (let a = ed_actor (en_data e); ps = ed_parents (en_data e) in
      (\<exists>b. try_canonical_bytes (en_data e) = Inr b \<and> en_id e = EntryHash (blake3 (b @ vc_encode (en_clock e))))
      \<and> distinct ps \<and> set ps \<subseteq> en_id ` set es
      \<and> (\<forall>h. history_head es a = Some h \<longrightarrow> h \<in> set ps)
      \<and> en_clock e = vc_incremented (foldl vc_merge [] (map (\<lambda>q. en_clock (the (history_get es q))) ps)) a
      \<and> ed_sequence (en_data e) = SequenceNumber (case history_head es a of
           None \<Rightarrow> 0 | Some h \<Rightarrow> u64_saturating_add (sequence_val (ed_sequence (en_data (the (history_get es h))))) 1))"

section \<open>The state implements the abstract journal\<close>

lemma state_lookup_get: "state_lookup = journal_get"
  by (intro ext) (simp add: state_lookup_def journal_get_def)

lemma journal_get_map: "journal_get st = map_of (js_base st) ++ map_of (js_overlay st)"
  by (intro ext) (simp add: journal_get_def map_add_def)

lemma journal_get_finite: "finite (dom (journal_get st))"
  by (simp add: journal_get_map finite_dom_map_of)

lemma commit_refines:
  assumes "store_wf st"
  shows "store_wf (commit a e st)" "view (commit a e st) = add_entry a e (view st)"
  using assms
  by (simp_all add: store_wf_def commit_def view_def add_entry_def journal_get_map journal_ids_def
      hm.wf_insert hm.lookup_insert)

lemma freeze_refines:
  assumes "store_wf st"
  shows "store_wf (freeze_overlay u st)" "view (freeze_overlay u st) = view st"
  using assms
  by (simp_all add: store_wf_def freeze_overlay_def view_def journal_get_map journal_ids_def hm_extend
      map_of_rev_distinct hm_wf_def [of "js_overlay st"])

lemma freeze_if_full_refines:
  "store_wf st \<Longrightarrow> store_wf (freeze_if_full u st)" "store_wf st \<Longrightarrow> view (freeze_if_full u st) = view st"
  by (simp_all add: freeze_if_full_def freeze_refines)

lemma append_view:
  assumes "store_wf st"
  shows "store_wf (snd (append blake3 u kind a observed p st))"
    "spec_append blake3 kind a observed p (view st)
       = map_prod id view (append blake3 u kind a observed p st)"
  using assms
  by (auto simp: append_def spec_append_def view_def [of st] freeze_if_full_refines commit_refines split: sum.split)

lemma push_parents_Nil: "push_parents [] = Inr"
  by (rule ext) simp

lemma push_parents_snoc: "push_parents (ps @ [p]) s = res_bind (push_parents ps s) (push_parent p)"
proof (induction ps arbitrary: s)
  case (Cons q ps)
  then show ?case by (cases "push_parent q s") simp_all
qed (simp add: push_parents_Nil res_bind_return)

lemma assemble_chain: "assemble_parents head observed (Some c) = assemble_parents head (observed @ [c]) None"
  by (simp add: assemble_parents_def push_parents_snoc res_bind_assoc res_map_bind)

lemma batch_step_append:
  "res_map fst (batch_step blake3 st ids spec)
     = append_entry blake3 (journal_get st) (map_of (js_heads st) (be_actor spec)) (be_kind spec) (be_actor spec)
         (chain_parents ids spec) (be_payload spec)"
proof -
  let ?h = "map_of (js_heads st) (be_actor spec)"
  have parents: "assemble_parents ?h (be_observed_parents spec)
      (if be_chain_previous spec then (if ids = [] then None else Some (last ids)) else None)
    = assemble_parents ?h (chain_parents ids spec) None"
    by (simp add: chain_parents_def assemble_chain)
  show ?thesis
    unfolding batch_step_def append_entry_def Let_def parents state_lookup_get new_with_scratch_def res_map_bind
    by (cases ?h) (auto simp: res_bind_assoc intro!: res_bind_cong)
qed

lemma batch_loop_refines:
  assumes "store_wf st" "store_wf st'" "view st = view st'"
    "batch_loop blake3 batch ids frames st = (r, s, fs)" "append_loop blake3 u batch ids st' = (r', s')"
  shows "r = r' \<and> view s = view s' \<and> store_wf s \<and> store_wf s'"
  using assms
proof (induction batch arbitrary: ids frames st st')
  case (Cons spec batch)
  let ?e = "append_entry blake3 (journal_get st) (map_of (js_heads st) (be_actor spec)) (be_kind spec) (be_actor spec)
         (chain_parents ids spec) (be_payload spec)"
  have same: "journal_get st' = journal_get st" "map_of (js_heads st') = map_of (js_heads st)"
    using Cons.prems(3) by (simp_all add: view_def)
  show ?case
  proof (cases ?e)
    case (Inl err)
    then show ?thesis
      using Cons.prems batch_step_append [of blake3 st ids spec]
      by (cases "batch_step blake3 st ids spec") (auto simp: append_def same)
  next
    case (Inr e)
    then obtain n b where "batch_step blake3 st ids spec = Inr (e, n, b)"
      using batch_step_append [of blake3 st ids spec] by auto
    then show ?thesis
      using Cons.prems Cons.IH [of "commit (be_actor spec) e st" "freeze_if_full u (commit (be_actor spec) e st')"] Inr
      by (auto simp: append_def same commit_refines freeze_if_full_refines)
  qed
qed auto

section \<open>Histories\<close>

lemma push_parent_Inr:
  "push_parent p (seen, ps) = Inr (seen', ps') \<Longrightarrow> seen = set ps \<Longrightarrow> distinct ps \<Longrightarrow>
     seen' = set ps' \<and> distinct ps' \<and> set ps' = insert p (set ps) \<and> (\<exists>xs. ps' = ps @ xs)"
  by (auto simp: push_parent_def split: if_splits)

lemma push_parents_Inr:
  "push_parents qs (seen, ps) = Inr (seen', ps') \<Longrightarrow> seen = set ps \<Longrightarrow> distinct ps \<Longrightarrow>
     distinct ps' \<and> set ps' = set ps \<union> set qs \<and> (\<exists>xs. ps' = ps @ xs)"
proof (induction qs arbitrary: seen ps)
  case (Cons q qs)
  then obtain s1 p1 where "push_parent q (seen, ps) = Inr (s1, p1)" "push_parents qs (s1, p1) = Inr (seen', ps')" by auto
  then show ?case using push_parent_Inr [of q seen ps s1 p1] Cons.IH [of s1 p1] Cons.prems by auto
qed simp

lemma assemble_parents_Inr:
  assumes "assemble_parents head observed None = Inr ps"
  shows "distinct ps" "set ps = set_option head \<union> set observed" "head = Some h \<Longrightarrow> hd ps = h \<and> ps \<noteq> []"
  using assms push_parents_Inr [of observed _ _ _ ps]
  by (auto simp: assemble_parents_def split: option.splits dest!: push_parents_Inr)

lemma merge_parents_Inr:
  "merge_parents get ps c = Inr d \<longleftrightarrow>
     (\<forall>p\<in>set ps. get p \<noteq> None) \<and> d = foldl vc_merge c (map (\<lambda>p. en_clock (the (get p))) ps)"
  by (induction ps arbitrary: c) auto

lemma new_with_scratch_Inr:
  "new_with_scratch blake3 d c = Inr e \<longleftrightarrow>
     (\<exists>b. try_canonical_bytes d = Inr b \<and> e = \<lparr>en_id = EntryHash (blake3 (b @ vc_encode c)), en_data = d, en_clock = c\<rparr>)"
  by (auto simp: new_with_scratch_def new_with_scratch_recorded_def try_canonical_bytes_def Let_def)

lemma history_get_None: "history_get es i = None \<longleftrightarrow> i \<notin> en_id ` set es"
  by (force simp: history_get_def map_of_eq_None_iff)

text \<open>The three ways in which \<open>append\<close> computes the clock agree: it is the merge over all parents.\<close>

lemma append_entry_Inr:
  assumes "append_entry blake3 get h kind a observed p = Inr e"
  obtains ps where "assemble_parents h observed None = Inr ps" "\<forall>q\<in>set ps. get q \<noteq> None"
    "new_with_scratch blake3 (make_data kind a ps (case h of None \<Rightarrow> 0 | Some i \<Rightarrow>
        u64_saturating_add (sequence_val (ed_sequence (en_data (the (get i))))) 1) p)
      (vc_incremented (foldl vc_merge [] (map (\<lambda>q. en_clock (the (get q))) ps)) a) = Inr e"
proof -
  from assms obtain ps where ps: "assemble_parents h observed None = Inr ps" by (auto simp: append_entry_def)
  note par = assemble_parents_Inr [OF ps]
  consider (head) i eh where "h = Some i" "get i = Some eh" | (none) "h = None"
    using assms by (cases h) (auto simp: append_entry_def)
  then show ?thesis
  proof cases
    case head
    then show ?thesis
    proof (cases "length ps = 1")
      case True
      with par(3) [OF head(1)] have "ps = [i]" by (cases ps) auto
      with head ps assms show ?thesis by (intro that [of ps]) (auto simp: append_entry_def)
    next
      case False
      with head ps assms show ?thesis
        by (intro that [of ps]) (auto simp: append_entry_def merge_parents_Inr split: if_splits)
    qed
  next
    case none
    then show ?thesis
    proof (cases "length ps = 1")
      case True
      then obtain q where "ps = [q]" by (cases ps) auto
      with none ps assms show ?thesis by (intro that [of ps]) (auto simp: append_entry_def)
    next
      case False
      with none ps assms show ?thesis
        by (intro that [of ps]) (auto simp: append_entry_def merge_parents_Inr split: if_splits)
    qed
  qed
qed

lemma append_entry_extends:
  assumes "append_entry blake3 (history_get es) (history_head es a) kind a observed p = Inr e"
  shows "extends blake3 es e" "ed_actor (en_data e) = a"
proof -
  from append_entry_Inr [OF assms] obtain ps where
    ps: "assemble_parents (history_head es a) observed None = Inr ps" "\<forall>q\<in>set ps. history_get es q \<noteq> None" and
    e: "new_with_scratch blake3 (make_data kind a ps (case history_head es a of None \<Rightarrow> 0 | Some i \<Rightarrow>
        u64_saturating_add (sequence_val (ed_sequence (en_data (the (history_get es i))))) 1) p)
      (vc_incremented (foldl vc_merge [] (map (\<lambda>q. en_clock (the (history_get es q))) ps)) a) = Inr e" .
  have "set ps \<subseteq> en_id ` set es" using ps(2) history_get_None by blast
  with e show "extends blake3 es e" "ed_actor (en_data e) = a"
    using assemble_parents_Inr(1,2) [OF ps(1)] by (auto simp: new_with_scratch_Inr make_data_def extends_def)
qed

lemma history_extends: "history blake3 (es @ [e]) \<Longrightarrow> history blake3 es \<and> extends blake3 es e \<and> en_id e \<notin> en_id ` set es"
  by (erule history.cases) (auto simp: append_entry_extends)

lemma history_induct [consumes 1, case_names Nil snoc]:
  assumes "history blake3 es" "P []"
    "\<And>es e. history blake3 es \<Longrightarrow> P es \<Longrightarrow> extends blake3 es e \<Longrightarrow> entry_ok (en_data e) \<Longrightarrow> en_id e \<notin> en_id ` set es \<Longrightarrow>
      history blake3 (es @ [e]) \<Longrightarrow> P (es @ [e])"
  shows "P es"
  using assms(1) by (induction rule: history.induct) (auto intro: assms append_entry_extends history_snoc)

lemma history_prefix: "history blake3 (es @ fs) \<Longrightarrow> history blake3 es"
proof (induction fs rule: rev_induct)
  case (snoc f fs)
  then show ?case using history_extends [of blake3 "es @ fs" f] by simp
qed simp

lemma history_distinct: "history blake3 es \<Longrightarrow> distinct (map en_id es)"
  by (induction rule: history_induct) auto

lemma history_get_Some: "history blake3 es \<Longrightarrow> history_get es i = Some e \<longleftrightarrow> e \<in> set es \<and> en_id e = i"
  using history_distinct [of blake3 es] by (auto simp: history_get_def distinct_map map_of_eq_Some_iff o_def inj_on_def
     intro: map_of_is_SomeI dest!: map_of_SomeD)

lemma history_entry:
  assumes "history blake3 es" "e \<in> set es"
  obtains before after where "es = before @ e # after" "history blake3 before" "extends blake3 before e"
proof -
  from assms(2) obtain before after where es: "es = before @ e # after" by (auto simp: in_set_conv_decomp)
  then have "history blake3 (before @ [e])" using assms(1) history_prefix [of blake3 "before @ [e]" after] by simp
  then show thesis using that [OF es] history_extends by blast
qed

lemma history_ok: "history blake3 es \<Longrightarrow> e \<in> set es \<Longrightarrow> entry_ok (en_data e)"
  by (induction rule: history_induct) auto

lemma history_get_mono: "history blake3 (es @ fs) \<Longrightarrow> e \<in> set es \<Longrightarrow> history_get (es @ fs) (en_id e) = history_get es (en_id e)"
  using history_get_Some [of blake3 "es @ fs" "en_id e" e] history_get_Some [OF history_prefix [of blake3 es fs], of "en_id e" e]
  by simp

end

