(* ===== verification/Journal_Causality.thy ===== *)
theory Journal_Causality
  imports Journal_History
begin

text \<open>
  The invariant of the journal and what it implies: sequence numbers count the entries of an actor, the
  parents of an entry precede it, and the vector clocks characterise the causal order.
\<close>

definition parent_of :: "entry list \<Rightarrow> (entry \<times> entry) set" where
  "parent_of es = {(p, e). p \<in> set es \<and> e \<in> set es \<and> en_id p \<in> set (ed_parents (en_data e))}"

abbreviation entry_actor :: "entry \<Rightarrow> actor_id" where "entry_actor e \<equiv> ed_actor (en_data e)"

abbreviation entry_seq :: "entry \<Rightarrow> u64" where "entry_seq e \<equiv> sequence_val (ed_sequence (en_data e))"

text \<open>The clock of a new entry, componentwise.\<close>

definition parent_clocks :: "entry list \<Rightarrow> entry \<Rightarrow> vector_clock list" where
  "parent_clocks es e = map (\<lambda>q. en_clock (the (history_get es q))) (ed_parents (en_data e))"

definition journal_ok :: "hasher \<Rightarrow> journal_state \<Rightarrow> bool" where
  "journal_ok blake3 st \<longleftrightarrow> store_wf st \<and> (\<exists>es. history blake3 es \<and> view st = view_of es)"

text \<open>The bytes whose hash is the content address of an entry.\<close>

definition preimage :: "entry \<Rightarrow> bytes" where
  "preimage e = (case try_canonical_bytes (en_data e) of Inl _ \<Rightarrow> [] | Inr b \<Rightarrow> b @ vc_encode (en_clock e))"

text \<open>Two actors, the second observing the first, over a hash that keeps the first 32 bytes.\<close>

definition demo_hash :: hasher where
  "demo_hash b = take 32 (b @ replicate 32 0)"

definition demo1 :: entry where
  "demo1 = \<lparr>en_id = EntryHash [0x87, 3, 5, 1, 0x80, 0x80, 0, 0x81, 5, 0xa1, 1, 1, 0, 0, 0, 0, 0, 0, 0, 0, 0, 0, 0, 0, 0, 0, 0, 0, 0, 0, 0, 0],
     en_data = make_data KClockRead (ActorId 1) [] 0 (ClockRead 5), en_clock = [(ActorId 1, 1)]\<rparr>"

definition demo2 :: entry where
  "demo2 = \<lparr>en_id = EntryHash [0x87, 3, 15, 2, 0x81, 0x58, 0x22, 0x1e, 0x20, 0x87, 3, 5, 1, 0x80, 0x80, 0, 0x81, 5, 0xa1, 1, 1,
       0, 0, 0, 0, 0, 0, 0, 0, 0, 0, 0],
     en_data = make_data KEpoch (ActorId 2) [en_id demo1] 0 (Epoch \<lparr>ep_epoch = 2\<rparr>),
     en_clock = [(ActorId 1, 1), (ActorId 2, 1)]\<rparr>"

definition demo_journal :: journal_state where
  "demo_journal = commit (ActorId 2) demo2 (commit (ActorId 1) demo1 journal_new)"

lemma history_get_mem: "history blake3 es \<Longrightarrow> e \<in> set es \<Longrightarrow> history_get es (en_id e) = Some e"
  by (simp add: history_get_Some)

lemma history_get_snoc: "en_id e \<notin> en_id ` set es \<Longrightarrow> history_get (es @ [e]) = (history_get es)(en_id e \<mapsto> e)"
proof -
  assume "en_id e \<notin> en_id ` set es"
  then have "map_of (map (\<lambda>e. (en_id e, e)) es) (en_id e) = None" by (simp add: map_of_eq_None_iff image_image)
  then show ?thesis by (auto simp: history_get_def map_add_def fun_eq_iff split: option.split)
qed

lemma rtrancl_fresh:
  assumes "n \<notin> Domain (R \<union> S)" "n \<notin> Range R" "snd ` S \<subseteq> {n}"
  shows "(e, f) \<in> (R \<union> S)\<^sup>* \<longleftrightarrow> (if f = n then e = n \<or> (\<exists>p. (p, n) \<in> S \<and> (e, p) \<in> R\<^sup>*) else (e, f) \<in> R\<^sup>*)"
proof
  assume "(e, f) \<in> (R \<union> S)\<^sup>*"
  then show "if f = n then e = n \<or> (\<exists>p. (p, n) \<in> S \<and> (e, p) \<in> R\<^sup>*) else (e, f) \<in> R\<^sup>*"
  proof (induction rule: rtrancl_induct)
    case (step y z)
    then have "(e, y) \<in> R\<^sup>*" using assms(1) by (auto split: if_splits)
    with step(2) assms show ?case by (auto intro: rtrancl_into_rtrancl)
  qed simp
next
  have "R\<^sup>* \<subseteq> (R \<union> S)\<^sup>*" by (rule rtrancl_mono) simp
  then show "if f = n then e = n \<or> (\<exists>p. (p, n) \<in> S \<and> (e, p) \<in> R\<^sup>*) else (e, f) \<in> R\<^sup>* \<Longrightarrow> (e, f) \<in> (R \<union> S)\<^sup>*"
    by (auto split: if_splits intro: rtrancl_into_rtrancl)
qed

lemma extends_parent: "history blake3 es \<Longrightarrow> extends blake3 es e \<Longrightarrow> q \<in> set (ed_parents (en_data e)) \<Longrightarrow>
    \<exists>p\<in>set es. en_id p = q \<and> history_get es q = Some p"
  using history_get_Some [of blake3 es q] by (auto simp: extends_def Let_def image_iff)

lemma set_parent_clocks:
  assumes "history blake3 es" "extends blake3 es e"
  shows "set (parent_clocks es e) = en_clock ` {p \<in> set es. en_id p \<in> set (ed_parents (en_data e))}"
proof -
  have ps: "set (ed_parents (en_data e)) = en_id ` {p \<in> set es. en_id p \<in> set (ed_parents (en_data e))}"
    using assms(2) by (auto simp: extends_def Let_def)
  have "history_get es (en_id p) = Some p" if "p \<in> set es" for p
    using history_get_Some [OF assms(1)] that by simp
  then have im: "(\<lambda>p. en_clock (the (history_get es (en_id p)))) ` A = en_clock ` A" if "A \<subseteq> set es" for A
    using that by (intro image_cong) auto
  show ?thesis
    unfolding parent_clocks_def set_map by (subst ps, subst image_image, rule im) auto
qed

lemma history_clock_ok: "history blake3 es \<Longrightarrow> \<forall>e\<in>set es. vc_ok (en_clock e)"
proof (induction rule: history_induct)
  case (snoc es e)
  then have "list_all vc_ok (parent_clocks es e)" by (auto simp: list_all_iff set_parent_clocks)
  then have "vc_ok (foldl vc_merge [] (parent_clocks es e))" by (simp add: vc.ok_foldl)
  then have "vc_ok (en_clock e)" using snoc.hyps(2) by (simp add: extends_def Let_def parent_clocks_def vc_ok_incremented)
  with snoc show ?case by simp
qed simp

lemma actor_count_snoc: "actor_count (es @ [e]) a = actor_count es a + (if entry_actor e = a then 1 else 0)"
  by (simp add: actor_count_def)

lemma actor_count_le: "actor_count es a \<le> length es"
  by (simp add: actor_count_def)

lemma history_head_cases:
  assumes "history blake3 es"
  obtains "history_head es a = None" "actor_count es a = 0"
  | h before after where "history_head es a = Some (en_id h)" "history_get es (en_id h) = Some h" "es = before @ h # after"
      "entry_actor h = a" "actor_count es a = Suc (actor_count before a)"
proof (cases "\<exists>e\<in>set es. entry_actor e = a")
  case True
  from split_list_last_prop [OF this] obtain b h c where
    es: "es = b @ h # c" "entry_actor h = a" "\<forall>e\<in>set c. entry_actor e \<noteq> a" by blast
  then have none: "filter (\<lambda>e. entry_actor e = a) c = []" by (simp add: filter_empty_conv)
  show thesis
    by (rule that(2) [of h b c]) (use es none history_get_Some [OF assms] in \<open>simp_all add: history_head_def actor_count_def\<close>)
next
  case False
  then show thesis by (intro that(1)) (auto simp: history_head_def actor_count_def filter_empty_conv)
qed

lemma unat_saturating_Suc: "unat a < 18446744073709551615 \<Longrightarrow> unat (u64_saturating_add a 1) = Suc (unat a)"
  unfolding unat_saturating_add by simp

lemma extends_sequence:
  assumes "history blake3 es" "extends blake3 es e" "actor_count es (entry_actor e) \<le> 18446744073709551615"
  shows "unat (entry_seq e) = actor_count es (entry_actor e)"
  using assms
proof (induction "length es" arbitrary: es e rule: less_induct)
  case less
  show ?case
  proof (cases rule: history_head_cases [OF less.prems(1), of "entry_actor e"])
    case 1
    with less.prems(2) show ?thesis by (simp add: extends_def Let_def)
  next
    case (2 g b c)
    then have "history blake3 (b @ [g])" using less.prems(1) history_prefix [of blake3 "b @ [g]" c] by simp
    then have g: "unat (entry_seq g) = actor_count b (entry_actor e)"
      using less.hyps [of b g] less.prems(3) 2 history_extends [of blake3 b g] by simp
    have "entry_seq e = u64_saturating_add (entry_seq g) 1" using less.prems(2) 2 by (simp add: extends_def Let_def)
    moreover have "unat (entry_seq g) < 18446744073709551615" using g 2(5) less.prems(3) by linarith
    ultimately show ?thesis using g 2(5) unat_saturating_Suc by simp
  qed
qed

lemma history_sequence:
  assumes "history blake3 (before @ e # after)" "actor_count before (entry_actor e) \<le> 18446744073709551615"
  shows "unat (entry_seq e) = actor_count before (entry_actor e)"
  using history_extends [of blake3 before e] history_prefix [of blake3 "before @ [e]" after] assms
  by (intro extends_sequence [of blake3]) simp_all

section \<open>Vector clocks decide causality\<close>

lemma parent_of_snoc:
  assumes "history blake3 (es @ [n])"
  shows "parent_of (es @ [n]) = parent_of es \<union> {p \<in> set es. en_id p \<in> set (ed_parents (en_data n))} \<times> {n}"
    "n \<notin> Domain (parent_of (es @ [n]))" "n \<notin> set es"
proof -
  have h: "history blake3 es" "extends blake3 es n" "en_id n \<notin> en_id ` set es" using history_extends [OF assms] by auto
  have "en_id n \<notin> set (ed_parents (en_data e))" if "e \<in> set es" for e
  proof -
    from history_entry [OF h(1) that] obtain b c where "es = b @ e # c" "extends blake3 b e" by metis
    then have "set (ed_parents (en_data e)) \<subseteq> en_id ` set es" by (auto simp: extends_def Let_def)
    with h(3) show ?thesis by auto
  qed
  moreover have "en_id n \<notin> set (ed_parents (en_data n))" using h by (auto simp: extends_def Let_def)
  ultimately show "parent_of (es @ [n]) = parent_of es \<union> {p \<in> set es. en_id p \<in> set (ed_parents (en_data n))} \<times> {n}"
    "n \<notin> Domain (parent_of (es @ [n]))" "n \<notin> set es"
    using h(3) by (auto simp: parent_of_def)
qed

lemma reach_snoc:
  assumes "history blake3 (es @ [n])"
  shows "(e, f) \<in> (parent_of (es @ [n]))\<^sup>* \<longleftrightarrow>
      (if f = n then e = n \<or> (\<exists>p\<in>{p \<in> set es. en_id p \<in> set (ed_parents (en_data n))}. (e, p) \<in> (parent_of es)\<^sup>*)
       else (e, f) \<in> (parent_of es)\<^sup>*)"
  unfolding parent_of_snoc(1) [OF assms]
  by (subst rtrancl_fresh) (use parent_of_snoc [OF assms] in \<open>auto simp: parent_of_def\<close>)

lemma clock_snoc:
  assumes "history blake3 es" "extends blake3 es n"
  shows "vc_get (en_clock n) = (vc_get (foldl vc_merge [] (parent_clocks es n)))(entry_actor n :=
      u64_saturating_add (vc_get (foldl vc_merge [] (parent_clocks es n)) (entry_actor n)) 1)"
    "w < vc_get (foldl vc_merge [] (parent_clocks es n)) x \<longleftrightarrow>
      (\<exists>p\<in>set es. en_id p \<in> set (ed_parents (en_data n)) \<and> w < vc_get (en_clock p) x)"
proof -
  have ok: "list_all vc_ok (parent_clocks es n)"
    using history_clock_ok [OF assms(1)] set_parent_clocks [OF assms] by (auto simp: list_all_iff)
  show "vc_get (en_clock n) = (vc_get (foldl vc_merge [] (parent_clocks es n)))(entry_actor n :=
      u64_saturating_add (vc_get (foldl vc_merge [] (parent_clocks es n)) (entry_actor n)) 1)"
    using assms(2) vc.get_inc [OF vc.ok_foldl [OF _ ok], of "[]"] by (simp add: extends_def Let_def parent_clocks_def)
  show "w < vc_get (foldl vc_merge [] (parent_clocks es n)) x \<longleftrightarrow>
      (\<exists>p\<in>set es. en_id p \<in> set (ed_parents (en_data n)) \<and> w < vc_get (en_clock p) x)"
    using vc.less_get_foldl [OF _ ok, of "[]" w x] set_parent_clocks [OF assms] by auto
qed

lemma merged_le_count:
  assumes "history blake3 es" "extends blake3 es n" "length es < 18446744073709551615"
    "\<forall>e\<in>set es. \<forall>a. unat (vc_get (en_clock e) a) \<le> actor_count es a"
  shows "unat (vc_get (foldl vc_merge [] (parent_clocks es n)) a) \<le> actor_count es a" (is "unat ?m \<le> _")
proof (rule ccontr)
  assume "\<not> unat ?m \<le> actor_count es a"
  moreover have c: "unat (of_nat (actor_count es a) :: u64) = actor_count es a"
    using actor_count_le [of es a] assms(3) by simp
  ultimately have "of_nat (actor_count es a) < ?m" by (simp add: word_less_nat_alt)
  then obtain p where "p \<in> set es" "of_nat (actor_count es a) < vc_get (en_clock p) a"
    using clock_snoc(2) [OF assms(1,2)] by blast
  then have "actor_count es a < unat (vc_get (en_clock p) a)" using c by (simp add: word_less_nat_alt)
  with assms(4) \<open>p \<in> set es\<close> show False by (simp add: not_le [symmetric])
qed

lemma clock_le_count:
  assumes "history blake3 es" "length es < 18446744073709551615"
  shows "\<forall>e\<in>set es. \<forall>a. unat (vc_get (en_clock e) a) \<le> actor_count es a"
  using assms
proof (induction rule: history_induct)
  case (snoc es n)
  have len: "length es < 18446744073709551615" using snoc.prems by simp
  note ih = snoc.IH [OF len]
  have "unat (vc_get (en_clock n) a) \<le> actor_count (es @ [n]) a" for a
    using merged_le_count [OF snoc.hyps(1,2) len ih, of a]
      unat_saturating_add [of "vc_get (foldl vc_merge [] (parent_clocks es n)) a" 1]
    by (simp add: clock_snoc(1) [OF snoc.hyps(1,2)] actor_count_snoc min_def)
  with ih show ?case by (auto simp: actor_count_snoc intro: le_SucI)
qed simp

lemma sequence_less_count:
  assumes "history blake3 es" "length es < 18446744073709551615" "e \<in> set es"
  shows "unat (entry_seq e) < actor_count es (entry_actor e)"
proof -
  obtain b c where es: "es = b @ e # c" using assms(3) by (auto simp: in_set_conv_decomp)
  have "actor_count b (entry_actor e) \<le> length b" by (rule actor_count_le)
  then have "unat (entry_seq e) = actor_count b (entry_actor e)"
    using assms(1,2) by (intro history_sequence [of blake3 b e c]) (simp_all add: es)
  then show ?thesis by (simp add: es actor_count_def)
qed

text \<open>The own component of the clock of a new entry counts the actor's entries.\<close>

lemma own_component:
  assumes "history blake3 es" "extends blake3 es n" "length es < 18446744073709551615"
    and refl: "\<forall>e\<in>set es. entry_seq e < vc_get (en_clock e) (entry_actor e)"
  shows "unat (vc_get (foldl vc_merge [] (parent_clocks es n)) (entry_actor n)) = actor_count es (entry_actor n)" (is "unat ?m = _")
    "unat (vc_get (en_clock n) (entry_actor n)) = Suc (actor_count es (entry_actor n))"
proof -
  have le: "unat ?m \<le> actor_count es (entry_actor n)"
    by (rule merged_le_count [OF assms(1-3) clock_le_count [OF assms(1,3)]])
  have "actor_count es (entry_actor n) \<le> unat ?m"
  proof (cases rule: history_head_cases [OF assms(1), of "entry_actor n"])
    case (2 h b c)
    have "actor_count b (entry_actor h) \<le> length b" by (rule actor_count_le)
    then have "unat (entry_seq h) = actor_count b (entry_actor h)"
      using assms(1,3) 2(3) by (intro history_sequence [of blake3 b h c]) simp_all
    moreover have "en_id h \<in> set (ed_parents (en_data n))" using assms(2) 2 by (simp add: extends_def Let_def)
    then have "entry_seq h < ?m" using clock_snoc(2) [OF assms(1,2)] refl 2(3,4) by auto
    ultimately show ?thesis using 2(4,5) by (simp add: word_less_nat_alt)
  qed simp
  with le show eq: "unat ?m = actor_count es (entry_actor n)" by simp
  have "unat ?m < 18446744073709551615" using eq actor_count_le [of es "entry_actor n"] assms(3) by linarith
  then show "unat (vc_get (en_clock n) (entry_actor n)) = Suc (actor_count es (entry_actor n))"
    using eq by (simp add: clock_snoc(1) [OF assms(1,2)] unat_saturating_Suc)
qed

lemma causality:
  assumes "history blake3 es" "length es < 18446744073709551615"
  shows "\<forall>e\<in>set es. \<forall>f\<in>set es. (e, f) \<in> (parent_of es)\<^sup>* \<longleftrightarrow> entry_seq e < vc_get (en_clock f) (entry_actor e)"
  using assms
proof (induction rule: history_induct)
  case (snoc es n)
  let ?a = "entry_actor n" and ?P = "{p \<in> set es. en_id p \<in> set (ed_parents (en_data n))}"
  have len: "length es < 18446744073709551615" using snoc.prems by simp
  note ih = snoc.IH [OF len] and ps = parent_of_snoc [OF snoc.hyps(5)]
  have own: "unat (vc_get (foldl vc_merge [] (parent_clocks es n)) ?a) = actor_count es ?a"
    "unat (vc_get (en_clock n) ?a) = Suc (actor_count es ?a)"
    using own_component [OF snoc.hyps(1,2) len] ih by auto
  note reach = reach_snoc [OF snoc.hyps(5)]
  have seq: "unat (entry_seq n) = actor_count es ?a"
    using history_sequence [of blake3 es n "[]"] snoc.hyps(5) actor_count_le [of es ?a] len by simp
  show ?case
  proof (intro ballI)
    fix e f assume e: "e \<in> set (es @ [n])" and f: "f \<in> set (es @ [n])"
    consider "e = n" "f = n" | "e \<in> set es" "f = n" | "e = n" "f \<in> set es" | "e \<in> set es" "f \<in> set es" using e f by auto
    then show "(e, f) \<in> (parent_of (es @ [n]))\<^sup>* \<longleftrightarrow> entry_seq e < vc_get (en_clock f) (entry_actor e)"
    proof cases
      case 1
      then show ?thesis using seq own(2) by (simp add: word_less_nat_alt)
    next
      case 2
      then have "(\<exists>p\<in>?P. (e, p) \<in> (parent_of es)\<^sup>*) \<longleftrightarrow>
          entry_seq e < vc_get (foldl vc_merge [] (parent_clocks es n)) (entry_actor e)"
        using ih clock_snoc(2) [OF snoc.hyps(1,2)] by auto
      moreover have "unat (entry_seq e) < actor_count es (entry_actor e)"
        using sequence_less_count [OF snoc.hyps(1) len] 2 by simp
      ultimately show ?thesis
        using 2 ps(3) own by (cases "entry_actor e = ?a") (auto simp: reach word_less_nat_alt clock_snoc(1) [OF snoc.hyps(1,2)])
    next
      case 3
      have "(n, f) \<notin> (parent_of es)\<^sup>*" using 3 ps(3) by (auto elim!: converse_rtranclE simp: parent_of_def)
      moreover have "unat (vc_get (en_clock f) ?a) \<le> actor_count es ?a" using clock_le_count [OF snoc.hyps(1) len] 3 by simp
      ultimately show ?thesis using 3 ps(3) seq by (auto simp: reach word_less_nat_alt)
    next
      case 4
      then show ?thesis using ih ps(3) by (auto simp: reach)
    qed
  qed
qed simp

lemma parent_clock_le:
  assumes "history blake3 es" "(p, e) \<in> parent_of es"
  shows "happens_before_or_equal (en_clock p) (en_clock e)"
proof -
  have "e \<in> set es" "p \<in> set es" and id: "en_id p \<in> set (ed_parents (en_data e))" using assms(2) by (auto simp: parent_of_def)
  from history_entry [OF assms(1) this(1)] obtain b c where
    es: "es = b @ e # c" and b: "history blake3 b" "extends blake3 b e" by metis
  obtain q where "q \<in> set b" "en_id q = en_id p" using id b(2) by (auto simp: extends_def Let_def)
  moreover from this have "q = p"
    using history_get_mem [OF assms(1), of q] history_get_mem [OF assms(1) \<open>p \<in> set es\<close>] es by simp
  ultimately have p: "p \<in> set b" by simp
  have ok: "list_all vc_ok (parent_clocks b e)"
    using history_clock_ok [OF b(1)] set_parent_clocks [OF b] by (auto simp: list_all_iff)
  let ?m = "foldl vc_merge [] (parent_clocks b e)"
  have m: "vc_ok ?m" by (simp add: vc.ok_foldl ok)
  have "en_clock p \<in> set (parent_clocks b e)" using set_parent_clocks [OF b] p id by auto
  then have "happens_before_or_equal (en_clock p) ?m" by (simp add: vc.foldl_upper ok)
  moreover have "en_clock e = vc_incremented ?m (entry_actor e)"
    using b(2) by (simp add: extends_def Let_def parent_clocks_def)
  ultimately show ?thesis
    using vc.le_trans [OF _ m vc_ok_incremented [OF m] _ vc.inc_upper [OF m]] history_clock_ok [OF assms(1)] \<open>p \<in> set es\<close> by simp
qed

lemma ancestor_clock_le:
  assumes "history blake3 es" "(e, f) \<in> (parent_of es)\<^sup>*" "e \<in> set es"
  shows "f \<in> set es \<and> happens_before_or_equal (en_clock e) (en_clock f)"
  using assms(2)
proof (induction rule: rtrancl_induct)
  case base
  then show ?case using assms(1,3) history_clock_ok by (auto simp: hb_get vc_ok_wf)
next
  case (step y z)
  then have "z \<in> set es" by (auto simp: parent_of_def)
  with step parent_clock_le [OF assms(1) step(2)] history_clock_ok [OF assms(1)] assms(3) show ?case
    using vc.le_trans [of "en_clock e" "en_clock y" "en_clock z"] by simp
qed

section \<open>The journal invariant\<close>

lemma view_entries: "history blake3 es \<Longrightarrow> view st = view_of es \<Longrightarrow> journal_entries st = es"
proof -
  assume h: "history blake3 es" and v: "view st = view_of es"
  have "journal_get st = history_get es" "journal_ids st = map en_id es" using v by (simp_all add: view_def view_of_def)
  moreover have "List.map_filter (history_get es) (map en_id fs) = fs" if "set fs \<subseteq> set es" for fs
    using that by (induction fs) (simp_all add: history_get_mem [OF h])
  ultimately show ?thesis by (simp add: journal_entries_def)
qed

lemma journal_okE:
  assumes "journal_ok blake3 st"
  obtains "store_wf st" "history blake3 (journal_entries st)" "view st = view_of (journal_entries st)"
proof -
  from assms obtain es where es: "store_wf st" "history blake3 es" "view st = view_of es" by (auto simp: journal_ok_def)
  with view_entries [OF es(2,3)] that show thesis by simp
qed

lemma journal_new_ok: "journal_ok blake3 journal_new"
  by (auto simp: journal_ok_def store_wf_def journal_new_def view_def view_of_def journal_get_def journal_ids_def
      history_get_def history_head_def fun_eq_iff intro!: exI [of _ "[]"] history_Nil)

lemma history_head_snoc: "history_head (es @ [e]) = (history_head es)(entry_actor e \<mapsto> en_id e)"
  by (auto simp: history_head_def fun_eq_iff)

lemma add_entry_view_of: "view_of es = v \<Longrightarrow> en_id e \<notin> en_id ` set es \<Longrightarrow> add_entry (entry_actor e) e v = view_of (es @ [e])"
  by (auto simp: view_of_def add_entry_def history_get_snoc history_head_snoc)

lemma preimage_eq:
  assumes "entry_ok (en_data e)" "entry_ok (en_data f)" "try_canonical_bytes (en_data e) = Inr b" "try_canonical_bytes (en_data f) = Inr c"
    "preimage e = preimage f"
  shows "en_data e = en_data f"
  using entry_codec.prefix_free [OF assms(1,2), of b c "vc_encode (en_clock e)" "vc_encode (en_clock f)"] assms(3-5)
  by (simp add: preimage_def try_canonical_bytes_def)

lemma extends_id: "extends blake3 es e \<Longrightarrow> en_id e = EntryHash (blake3 (preimage e)) \<and> (\<exists>b. try_canonical_bytes (en_data e) = Inr b)"
  by (auto simp: extends_def Let_def preimage_def)

lemma history_id:
  assumes "history blake3 es" "e \<in> set es"
  shows "en_id e = EntryHash (blake3 (preimage e))" "\<exists>b. try_canonical_bytes (en_data e) = Inr b"
  using history_entry [OF assms] extends_id by metis+

lemma extends_fresh:
  assumes "history blake3 es" "extends blake3 es e" "entry_ok (en_data e)" "length es < 18446744073709551615"
    and inj: "inj_on blake3 (preimage ` insert e (set es))"
  shows "en_id e \<notin> en_id ` set es"
proof
  assume "en_id e \<in> en_id ` set es"
  then obtain f where f: "f \<in> set es" "en_id f = en_id e" by auto
  then have "blake3 (preimage e) = blake3 (preimage f)"
    using history_id(1) [OF assms(1) f(1)] extends_id [OF assms(2)] by simp
  then have "preimage e = preimage f" using inj f(1) by (simp add: inj_on_def)
  then have "en_data e = en_data f"
    using preimage_eq [OF assms(3) history_ok [OF assms(1) f(1)]] extends_id [OF assms(2)] history_id(2) [OF assms(1) f(1)] by auto
  then have "unat (entry_seq e) < actor_count es (entry_actor e)" using sequence_less_count [OF assms(1,4) f(1)] by simp
  moreover have "unat (entry_seq e) = actor_count es (entry_actor e)"
    using actor_count_le [of es "entry_actor e"] assms(4) by (intro extends_sequence [OF assms(1,2)]) linarith
  ultimately show False by simp
qed

text \<open>The payloads a program appends: of the announced kind, with fields within their types.\<close>

lemma append_entry_ok:
  assumes "history blake3 es" "append_entry blake3 (history_get es) (history_head es a) kind a observed p = Inr e"
    "\<forall>b. length (blake3 b) = 32" "payload_kind p = kind" "payload_ok p"
  shows "entry_ok (en_data e)"
proof -
  from append_entry_Inr [OF assms(2)] obtain ps s c where
    ps: "\<forall>q\<in>set ps. history_get es q \<noteq> None" and e: "new_with_scratch blake3 (make_data kind a ps s p) c = Inr e" by metis
  have "hash_ok q" if "q \<in> set ps" for q
  proof -
    obtain f where "f \<in> set es" "en_id f = q" using ps \<open>q \<in> set ps\<close> history_get_None [of es q] by auto
    then show ?thesis using history_id(1) [OF assms(1)] assms(3) by (auto simp: hash_ok_def)
  qed
  then show ?thesis
    using e assms(4,5) by (auto simp: new_with_scratch_Inr make_data_def entry_ok_def list_all_iff)
qed

lemma journal_ok_append:
  assumes ok: "journal_ok blake3 st" and e: "append_entry blake3 (journal_get st) (head_for_actor st a) kind a observed p = Inr e"
    and hash: "\<forall>b. length (blake3 b) = 32" and p: "payload_kind p = kind" "payload_ok p"
    and len: "length (journal_entries st) < 18446744073709551615"
    and inj: "inj_on blake3 (preimage ` insert e (set (journal_entries st)))"
  shows "store_wf (commit a e st) \<and> view (commit a e st) = view_of (journal_entries st @ [e])
    \<and> history blake3 (journal_entries st @ [e])"
proof -
  let ?es = "journal_entries st"
  obtain wf: "store_wf st" and h: "history blake3 ?es" and v: "view st = view_of ?es" using journal_okE [OF ok] by blast
  have e': "append_entry blake3 (history_get ?es) (history_head ?es a) kind a observed p = Inr e"
    using e v by (simp add: view_def view_of_def head_for_actor_def)
  note ok_e = append_entry_ok [OF h e' hash p] and ext = append_entry_extends [OF e']
  have "en_id e \<notin> en_id ` set ?es" by (rule extends_fresh [OF h ext(1) ok_e len inj])
  then show ?thesis
    using commit_refines [OF wf] add_entry_view_of [OF v [symmetric]] history_snoc [OF h e' ok_e] ext(2) by auto
qed

text \<open>An append that leaves the invariant intact was given a well-formed payload of the kind.\<close>

lemma append_entry_payload:
  assumes "append_entry blake3 get h kind a observed p = Inr e"
  shows "ed_kind (en_data e) = kind \<and> ed_payload (en_data e) = p"
proof -
  from append_entry_Inr [OF assms] obtain ps s c where "new_with_scratch blake3 (make_data kind a ps s p) c = Inr e" by metis
  then show ?thesis by (auto simp: new_with_scratch_Inr make_data_def)
qed

lemma journal_ok_payload:
  assumes "journal_ok blake3 st" "append_entry blake3 (journal_get st) (head_for_actor st a) kind a observed p = Inr e"
    and "journal_ok blake3 (snd (append blake3 u kind a observed p st))"
  shows "payload_kind p = kind \<and> payload_ok p"
proof -
  let ?st' = "snd (append blake3 u kind a observed p st)"
  have st': "?st' = freeze_if_full u (commit a e st)" using assms(2) by (simp add: append_def head_for_actor_def)
  obtain wf: "store_wf st" using journal_okE [OF assms(1)] by blast
  then have "view ?st' = add_entry a e (view st)" using st' by (simp add: freeze_if_full_refines commit_refines)
  then have "jv_get (view ?st') (en_id e) = Some e" by (simp add: add_entry_def)
  moreover obtain h: "history blake3 (journal_entries ?st')" and v: "view ?st' = view_of (journal_entries ?st')" using journal_okE [OF assms(3)] by blast
  ultimately have "history_get (journal_entries ?st') (en_id e) = Some e" unfolding v by (simp add: view_of_def)
  then have "entry_ok (en_data e)" using history_get_Some [OF h] history_ok [OF h] by blast
  then show ?thesis using append_entry_payload [OF assms(2)] by (simp add: entry_ok_def)
qed

section \<open>Properties\<close>

text \<open>
  C6: on journals with well-formed maps, \<open>append\<close> implements the abstract append: the same result, and the
  lookup function, append order and heads of the new state are those of the abstract journal, whether or not
  the overlay is frozen.
\<close>

theorem append_refines:
  assumes "store_wf st"
  shows "store_wf (snd (append blake3 u kind a observed p st))
    \<and> spec_append blake3 kind a observed p (view st) = map_prod id view (append blake3 u kind a observed p st)"
  using append_view [OF assms] by blast

theorem append_refines_witness:
  "store_wf (snd (append (\<lambda>b. take 32 (b @ replicate 32 0)) True KClockRead (ActorId 1) [] (ClockRead 5) journal_new))"
  using append_refines [of journal_new] by (simp add: store_wf_def journal_new_def)

text \<open>
  C7: \<open>append_batch\<close> is the loop over \<open>append\<close> that its documentation promises: it returns the same ids or
  the same error, leaves the same prefix applied, and the two journals answer every lookup alike. Only the
  moment at which the overlay is frozen differs.
\<close>

theorem append_batch_is_loop:
  assumes "store_wf st"
  shows "fst (append_batch blake3 u batch st) = fst (append_loop blake3 v batch [] st)
    \<and> view (snd (append_batch blake3 u batch st)) = view (snd (append_loop blake3 v batch [] st))"
proof -
  obtain r s fs where b: "batch_loop blake3 batch [] [] st = (r, s, fs)" by (metis prod_cases3)
  obtain r' s' where l: "append_loop blake3 v batch [] st = (r', s')" by force
  have "r = r' \<and> view s = view s' \<and> store_wf s \<and> store_wf s'" by (rule batch_loop_refines [OF assms assms refl b l])
  then show ?thesis
    using b l by (cases r) (auto simp: append_batch_def append_batch_impl_def freeze_if_full_refines)
qed

theorem append_batch_is_loop_witness:
  "fst (append_batch (\<lambda>b. take 32 (b @ replicate 32 0)) True
      [batch_entry_new KClockRead (ActorId 1) (ClockRead 5), chained (batch_entry_new KEpoch (ActorId 2) (Epoch \<lparr>ep_epoch = 2\<rparr>))]
      journal_new)
   = fst (append_loop (\<lambda>b. take 32 (b @ replicate 32 0)) False
      [batch_entry_new KClockRead (ActorId 1) (ClockRead 5), chained (batch_entry_new KEpoch (ActorId 2) (Epoch \<lparr>ep_epoch = 2\<rparr>))]
      [] journal_new)"
  using append_batch_is_loop [of journal_new "\<lambda>b. take 32 (b @ replicate 32 0)" True
      "[batch_entry_new KClockRead (ActorId 1) (ClockRead 5), chained (batch_entry_new KEpoch (ActorId 2) (Epoch \<lparr>ep_epoch = 2\<rparr>))]" False]
  by (simp add: store_wf_def journal_new_def)

text \<open>
  C19: \<open>append\<close> keeps the journal invariant exactly when the kind it is given is the kind of the payload and the
  payload is well formed, and then it adds exactly the new entry at the end. A payload is well formed when its
  hashes have 32 bytes and its identifiers 16, its paths are canonical, its XOR masks are not empty, its bit numbers
  are below 8, its canonical values are well formed and its lengths fit 64 bits. Rust types and payload
  constructors see to most of this; that the kind matches the payload is left to the caller, since \<open>append\<close>
  compares neither and stores the entry all the same. The other hypotheses are that the append succeeds, that
  the hash has outputs of 32 bytes and does not collide on the entries at hand, and that the journal has fewer than
  \<open>2 ^ 64 - 1\<close> entries.
\<close>

theorem append_keeps_journal:
  assumes "journal_ok blake3 st" "append_entry blake3 (journal_get st) (head_for_actor st a) kind a observed p = Inr e"
    and "\<forall>b. length (blake3 b) = 32" "inj_on blake3 (preimage ` insert e (set (journal_entries st)))"
    and "length (journal_entries st) < 18446744073709551615"
  shows "\<exists>st'. append blake3 u kind a observed p st = (Inr (en_id e), st')
    \<and> (journal_ok blake3 st' \<longleftrightarrow> payload_kind p = kind \<and> payload_ok p)
    \<and> (journal_ok blake3 st' \<longrightarrow> journal_entries st' = journal_entries st @ [e])"
proof -
  let ?st' = "freeze_if_full u (commit a e st)"
  have app: "append blake3 u kind a observed p st = (Inr (en_id e), ?st')" using assms(2) by (simp add: append_def head_for_actor_def)
  have ok: "journal_ok blake3 ?st' \<and> journal_entries ?st' = journal_entries st @ [e]" if "payload_kind p = kind" "payload_ok p"
  proof -
    have c: "store_wf (commit a e st)" "view (commit a e st) = view_of (journal_entries st @ [e])"
      "history blake3 (journal_entries st @ [e])"
      using journal_ok_append [OF assms(1,2,3) that assms(5,4)] by blast+
    then have v: "store_wf ?st'" "view ?st' = view_of (journal_entries st @ [e])" by (simp_all add: freeze_if_full_refines)
    then show ?thesis unfolding journal_ok_def using c(3) view_entries [OF c(3) v(2)] by blast
  qed
  have "journal_ok blake3 ?st' \<Longrightarrow> payload_kind p = kind \<and> payload_ok p"
    using journal_ok_payload [OF assms(1,2), of u] app by simp
  then show ?thesis using app ok by blast
qed

theorem append_keeps_journal_witness:
  "journal_ok (\<lambda>b. take 32 (b @ replicate 32 0))
     (snd (append (\<lambda>b. take 32 (b @ replicate 32 0)) True KClockRead (ActorId 1) [] (ClockRead 5) journal_new))
   \<and> \<not> journal_ok (\<lambda>b. take 32 (b @ replicate 32 0))
     (snd (append (\<lambda>b. take 32 (b @ replicate 32 0)) True KEpoch (ActorId 1) [] (ClockRead 5) journal_new))"
proof -
  let ?h = "\<lambda>b :: bytes. take 32 (b @ replicate 32 0)"
  have new: "journal_entries journal_new = []" by (simp add: journal_entries_def journal_ids_def journal_new_def)
  have len: "\<forall>b. length (?h b) = 32" by auto
  have append: "journal_ok ?h (snd (append ?h True kind (ActorId 1) [] (ClockRead 5) journal_new)) \<longleftrightarrow> kind = KClockRead"
    if "append_entry ?h (journal_get journal_new) (head_for_actor journal_new (ActorId 1)) kind (ActorId 1) [] (ClockRead 5) = Inr e" for kind e
  proof -
    have "inj_on ?h (preimage ` insert e (set (journal_entries journal_new)))" using new by simp
    from append_keeps_journal [OF journal_new_ok that len this, of True] obtain st' where
      "append ?h True kind (ActorId 1) [] (ClockRead 5) journal_new = (Inr (en_id e), st')"
      "journal_ok ?h st' \<longleftrightarrow> payload_kind (ClockRead 5) = kind \<and> payload_ok (ClockRead 5)" unfolding new list.size by fastforce
    then show ?thesis by auto
  qed
  obtain e where e: "append_entry ?h (journal_get journal_new) (head_for_actor journal_new (ActorId 1)) KClockRead (ActorId 1) [] (ClockRead 5) = Inr e"
    by (simp add: append_entry_def assemble_parents_def head_for_actor_def journal_new_def new_with_scratch_def
        new_with_scratch_recorded_def make_data_def entry_eval cbor_eval FORMAT_VERSION_def)
  obtain f where f: "append_entry ?h (journal_get journal_new) (head_for_actor journal_new (ActorId 1)) KEpoch (ActorId 1) [] (ClockRead 5) = Inr f"
    by (simp add: append_entry_def assemble_parents_def head_for_actor_def journal_new_def new_with_scratch_def
        new_with_scratch_recorded_def make_data_def entry_eval cbor_eval FORMAT_VERSION_def)
  show ?thesis using append [OF e] append [OF f] by simp
qed

text \<open>
  C1: the vector clocks decide causality. In a journal built by appends, one entry is an ancestor of another
  along the parent links exactly when its clock happens before or equals the other's.
\<close>

theorem clocks_decide_causality:
  assumes "journal_ok blake3 st" "length (journal_entries st) < 18446744073709551615"
    "e \<in> set (journal_entries st)" "f \<in> set (journal_entries st)"
  shows "(e, f) \<in> (parent_of (journal_entries st))\<^sup>* \<longleftrightarrow> happens_before_or_equal (en_clock e) (en_clock f)"
proof
  have h: "history blake3 (journal_entries st)" using journal_okE [OF assms(1)] by blast
  show "(e, f) \<in> (parent_of (journal_entries st))\<^sup>* \<Longrightarrow> happens_before_or_equal (en_clock e) (en_clock f)"
    using ancestor_clock_le [OF h _ assms(3)] by blast
  assume "happens_before_or_equal (en_clock e) (en_clock f)"
  then have "vc_get (en_clock e) (entry_actor e) \<le> vc_get (en_clock f) (entry_actor e)"
    using history_clock_ok [OF h] assms(3) by (simp add: hb_get vc_ok_wf)
  moreover have "entry_seq e < vc_get (en_clock e) (entry_actor e)" using causality [OF h assms(2)] assms(3) by blast
  ultimately show "(e, f) \<in> (parent_of (journal_entries st))\<^sup>*" using causality [OF h assms(2)] assms(3,4) by simp
qed

section \<open>A small journal\<close>

lemmas demo_eval = append_entry_def assemble_parents_def push_parent_def new_with_scratch_def new_with_scratch_recorded_def
  make_data_def FORMAT_VERSION_def vc_incremented_def u64_saturating_add_def vc_encode_def demo_hash_def
  to_framed_bytes_def MULTIHASH_BLAKE3_CODE_def MULTIHASH_BLAKE3_LEN_def cbor_hash_def entry_eval cbor_eval less_actor_id_def

lemma demo_entries: "journal_entries demo_journal = [demo1, demo2]"
  by (simp add: journal_entries_def journal_ids_def journal_get_def demo_journal_def commit_def journal_new_def demo1_def demo2_def
      List.map_filter_simps)

lemma demo1_append: "append_entry demo_hash (\<lambda>_. None) None KClockRead (ActorId 1) [] (ClockRead 5) = Inr demo1"
proof -
  have "replicate 20 (0 :: u8) = [0, 0, 0, 0, 0, 0, 0, 0, 0, 0, 0, 0, 0, 0, 0, 0, 0, 0, 0, 0]"
    by (simp add: eval_nat_numeral)
  then show ?thesis by (simp add: demo_eval demo1_def)
qed

lemma demo2_append:
  "append_entry demo_hash [en_id demo1 \<mapsto> demo1] None KEpoch (ActorId 2) [en_id demo1] (Epoch \<lparr>ep_epoch = 2\<rparr>) = Inr demo2"
  by (simp add: demo_eval demo1_def demo2_def)

lemma demo_history: "history demo_hash [demo1, demo2]"
proof -
  have "history demo_hash ([] @ [demo1])"
    using demo1_append by (intro history_snoc [OF history_Nil, where a = "ActorId 1" and kind = KClockRead and observed = "[]" and p = "ClockRead 5"])
      (simp_all add: history_get_def [abs_def] history_head_def entry_ok_def demo1_def make_data_def MAX_VECTOR_CLOCK_ACTORS_def)
  then have "history demo_hash ([demo1] @ [demo2])"
    using demo2_append
    by (intro history_snoc [where a = "ActorId 2" and kind = KEpoch and observed = "[en_id demo1]" and p = "Epoch \<lparr>ep_epoch = 2\<rparr>"])
      (simp_all add: history_get_snoc [of demo1 "[]", simplified] history_get_def [abs_def] history_head_def entry_ok_def demo1_def demo2_def
        make_data_def MAX_VECTOR_CLOCK_ACTORS_def hash_ok_def)
  then show ?thesis by simp
qed

lemma demo_ok: "journal_ok demo_hash demo_journal"
proof -
  have ids: "en_id demo1 \<noteq> en_id demo2" "entry_actor demo1 = ActorId 1" "entry_actor demo2 = ActorId 2"
    by (simp_all add: demo1_def demo2_def make_data_def)
  have new: "store_wf journal_new" "view journal_new = view_of []"
    by (simp_all add: store_wf_def view_def view_of_def journal_new_def journal_get_def journal_ids_def history_get_def history_head_def
        fun_eq_iff)
  let ?s = "commit (ActorId 1) demo1 journal_new"
  have s: "store_wf ?s" "view ?s = view_of [demo1]"
    using commit_refines [OF new(1)] add_entry_view_of [of "[]" "view journal_new" demo1] new(2) ids by simp_all
  have "store_wf demo_journal" "view demo_journal = view_of [demo1, demo2]"
    using commit_refines [OF s(1)] add_entry_view_of [of "[demo1]" "view ?s" demo2] s(2) ids by (simp_all add: demo_journal_def)
  then show ?thesis using demo_history by (auto simp: journal_ok_def)
qed

theorem clocks_decide_causality_witness:
  "(demo1, demo2) \<in> (parent_of (journal_entries demo_journal))\<^sup>*"
  using clocks_decide_causality [OF demo_ok, of demo1 demo2]
  by (simp add: demo_entries) (simp add: demo1_def demo2_def happens_before_or_equal_def)

end

