(* ===== verification/Journal_Slice.thy ===== *)
theory Journal_Slice
  imports Journal_Causality
begin

text \<open>
  Causal slices, forward cones and subgraphs (\<open>slice.rs\<close>). The depth-first search of \<open>causal_slice\<close>
  is a function of the stack and the seen set; each step either pops a known id or marks a new one, so it
  terminates whatever the journal holds.
\<close>

section \<open>Operations\<close>

text \<open>\<open>while let Some(id) = stack.pop()\<close>, with the top of the stack at the head of the list.\<close>

function slice_loop :: "journal_state \<Rightarrow> entry_hash list \<Rightarrow> entry_hash set \<Rightarrow> entry_hash set" where
  "slice_loop st [] seen = seen"
| "slice_loop st (i # stack) seen =
     (if i \<in> seen then slice_loop st stack seen
      else case journal_get st i of
        None \<Rightarrow> slice_loop st stack (insert i seen)
      | Some e \<Rightarrow> slice_loop st (rev (ed_parents (en_data e)) @ stack) (insert i seen))"
  by pat_completeness auto
termination
proof (relation "measures [\<lambda>(st, stack, seen). card (dom (journal_get st) - seen), \<lambda>(st, stack, seen). length stack]", goal_cases)
  case (4 st i stack seen e)
  then have "dom (journal_get st) - insert i seen \<subset> dom (journal_get st) - seen" by auto
  then have "card (dom (journal_get st) - insert i seen) < card (dom (journal_get st) - seen)"
    by (intro psubset_card_mono) (simp_all add: journal_get_finite)
  then show ?case by simp
next
  case (3 st i stack seen)
  have "card (dom (journal_get st) - insert i seen) \<le> card (dom (journal_get st) - seen)"
    by (intro card_mono) (auto simp: journal_get_finite)
  then show ?case by auto
qed auto

primrec find_missing :: "journal_state \<Rightarrow> entry_hash list \<Rightarrow> journal_error + unit" where
  "find_missing st [] = Inr ()"
| "find_missing st (i # targets) = (if journal_get st i = None then Inl (MissingParent i) else find_missing st targets)"

definition causal_slice :: "journal_state \<Rightarrow> entry_hash list \<Rightarrow> journal_error + entry_hash list" where
  "causal_slice st targets =
     res_bind (find_missing st targets) (\<lambda>_.
     let seen = slice_loop st (rev targets) {} in Inr (filter (\<lambda>i. i \<in> seen) (journal_ids st)))"

text \<open>One pass over the entries in append order.\<close>

primrec cone_loop :: "entry list \<Rightarrow> entry_hash set \<Rightarrow> entry_hash set" where
  "cone_loop [] affected = affected"
| "cone_loop (e # es) affected =
     cone_loop es (if \<exists>p\<in>set (ed_parents (en_data e)). p \<in> affected then insert (en_id e) affected else affected)"

definition forward_cone :: "journal_state \<Rightarrow> entry_hash list \<Rightarrow> entry_hash list" where
  "forward_cone st sources =
     (let affected = cone_loop (journal_entries st) (set sources) in filter (\<lambda>i. i \<in> affected) (journal_ids st))"

definition causal_slice_forward :: "journal_state \<Rightarrow> entry_hash list \<Rightarrow> journal_error + entry_hash list" where
  "causal_slice_forward st targets =
     res_bind (causal_slice st targets) (\<lambda>backward. causal_slice st (forward_cone st backward))"

definition subgraph_step ::
  "journal_state \<Rightarrow> entry_hash set \<Rightarrow> journal_state \<Rightarrow> entry_hash \<Rightarrow> journal_state" where
  "subgraph_step st keep sub i =
     (if i \<in> keep then
        case journal_get st i of
          None \<Rightarrow> sub
        | Some e \<Rightarrow> sub\<lparr>js_heads := hm_insert (ed_actor (en_data e)) i (js_heads sub),
                       js_base := hm_insert i e (js_base sub), js_order := js_order sub @ [i]\<rparr>
      else sub)"

definition subgraph :: "journal_state \<Rightarrow> entry_hash list \<Rightarrow> journal_error + journal_state" where
  "subgraph st hashes = Inr (foldl (subgraph_step st (set hashes)) journal_new (journal_ids st))"

text \<open>The ids an id depends on, itself included, along the parents of known entries.\<close>

definition depends :: "journal_state \<Rightarrow> (entry_hash \<times> entry_hash) set" where
  "depends st = {(i, q). \<exists>e. journal_get st i = Some e \<and> q \<in> set (ed_parents (en_data e))}"

definition history_depends :: "entry list \<Rightarrow> (entry_hash \<times> entry_hash) set" where
  "history_depends es = {(en_id e, q) | e q. e \<in> set es \<and> q \<in> set (ed_parents (en_data e))}"

section \<open>What the loops compute\<close>

lemma slice_loop_sound: "slice_loop st stack seen \<subseteq> seen \<union> (depends st)\<^sup>* `` set stack"
proof (induction st stack seen rule: slice_loop.induct)
  case (2 st i stack seen)
  show ?case
  proof (cases "i \<in> seen")
    case True
    then show ?thesis using 2 by auto
  next
    case False
    show ?thesis
    proof (cases "journal_get st i")
      case (Some e)
      have "q \<in> set (ed_parents (en_data e)) \<Longrightarrow> (depends st)\<^sup>* `` {q} \<subseteq> (depends st)\<^sup>* `` {i}" for q
        using Some by (auto simp: depends_def intro: converse_rtrancl_into_rtrancl)
      then have "(depends st)\<^sup>* `` set (ed_parents (en_data e)) \<subseteq> (depends st)\<^sup>* `` {i}" by blast
      moreover have "slice_loop st (i # stack) seen \<subseteq> insert i seen \<union> ((depends st)\<^sup>* `` set (ed_parents (en_data e)) \<union> (depends st)\<^sup>* `` set stack)"
        using 2(3) [OF False Some] False Some by (simp add: Image_Un)
      moreover have "insert i (set stack) = {i} \<union> set stack" "i \<in> (depends st)\<^sup>* `` {i}" by auto
      ultimately show ?thesis by (simp add: Image_Un del: slice_loop.simps) blast
    qed (use 2 False in auto)
  qed
qed simp

text \<open>The seen set only grows, contains the stack, and is closed except for what is still on the stack.\<close>

lemma slice_loop_closed:
  assumes "depends st `` seen \<subseteq> seen \<union> set stack"
  shows "seen \<union> set stack \<subseteq> slice_loop st stack seen \<and> depends st `` slice_loop st stack seen \<subseteq> slice_loop st stack seen"
  using assms
proof (induction st stack seen rule: slice_loop.induct)
  case (2 st i stack seen)
  show ?case
  proof (cases "i \<in> seen")
    case True
    then show ?thesis using 2 by auto
  next
    case False
    show ?thesis
    proof (cases "journal_get st i")
      case None
      then have "depends st `` insert i seen \<subseteq> insert i seen \<union> set stack" using 2(4) by (auto simp: depends_def)
      then show ?thesis using 2(2) [OF False None] None False by auto
    next
      case (Some e)
      then have "depends st `` insert i seen \<subseteq> insert i seen \<union> set (rev (ed_parents (en_data e)) @ stack)"
        using 2(4) by (auto simp: depends_def)
      then show ?thesis using 2(3) [OF False Some] Some False by auto
    qed
  qed
qed auto

lemma slice_loop_eq: "slice_loop st stack {} = (depends st)\<^sup>* `` set stack"
proof
  show "slice_loop st stack {} \<subseteq> (depends st)\<^sup>* `` set stack" using slice_loop_sound [of st stack "{}"] by simp
  have c: "set stack \<subseteq> slice_loop st stack {}" "depends st `` slice_loop st stack {} \<subseteq> slice_loop st stack {}"
    using slice_loop_closed [of st "{}" stack] by auto
  have "(i, q) \<in> (depends st)\<^sup>* \<Longrightarrow> i \<in> set stack \<Longrightarrow> q \<in> slice_loop st stack {}" for i q
    by (induction rule: rtrancl_induct) (use c in auto)
  then show "(depends st)\<^sup>* `` set stack \<subseteq> slice_loop st stack {}" by auto
qed

lemma find_missing_Inr: "find_missing st targets = Inr () \<longleftrightarrow> (\<forall>i\<in>set targets. journal_get st i \<noteq> None)"
  by (induction targets) auto

lemma cone_loop_snoc:
  "cone_loop (es @ [e]) A = (let B = cone_loop es A in
     if \<exists>p\<in>set (ed_parents (en_data e)). p \<in> B then insert (en_id e) B else B)"
  by (induction es arbitrary: A) (simp_all add: Let_def)

lemma history_parents:
  assumes "history blake3 es" "e \<in> set es"
  shows "set (ed_parents (en_data e)) \<subseteq> en_id ` set es"
proof -
  from history_entry [OF assms] obtain b c where "es = b @ e # c" "extends blake3 b e" by metis
  then show ?thesis by (auto simp: extends_def Let_def)
qed

lemma history_depends_snoc:
  assumes "history blake3 (es @ [n])"
  shows "(i, s) \<in> (history_depends (es @ [n]))\<^sup>* \<longleftrightarrow>
    (if i = en_id n then s = en_id n \<or> (\<exists>p\<in>set (ed_parents (en_data n)). (p, s) \<in> (history_depends es)\<^sup>*)
     else (i, s) \<in> (history_depends es)\<^sup>*)"
proof -
  have h: "history blake3 es" "extends blake3 es n" "en_id n \<notin> en_id ` set es" using history_extends [OF assms] by auto
  note par = history_parents [OF h(1)]
  have par_n: "set (ed_parents (en_data n)) \<subseteq> en_id ` set es" using h(2) by (simp add: extends_def Let_def)
  let ?R = "(history_depends es)\<inverse>" and ?S = "({en_id n} \<times> set (ed_parents (en_data n)))\<inverse>"
  have "(history_depends (es @ [n]))\<inverse> = ?R \<union> ?S" by (auto simp: history_depends_def)
  moreover have "en_id n \<notin> Domain (?R \<union> ?S)" "en_id n \<notin> Range ?R" "snd ` ?S \<subseteq> {en_id n}"
    using par par_n h(3) by (auto simp: history_depends_def)
  ultimately have "(s, i) \<in> ((history_depends (es @ [n]))\<inverse>)\<^sup>* \<longleftrightarrow>
    (if i = en_id n then s = en_id n \<or> (\<exists>p. (p, en_id n) \<in> ?S \<and> (s, p) \<in> ?R\<^sup>*) else (s, i) \<in> ?R\<^sup>*)"
    using rtrancl_fresh [of "en_id n" ?R ?S s i] by simp
  then show ?thesis by (auto simp: rtrancl_converse)
qed

lemma history_parents_known: "history blake3 (es @ [n]) \<Longrightarrow> p \<in> set (ed_parents (en_data n)) \<Longrightarrow> p \<in> en_id ` set es"
  using history_extends [of blake3 es n] by (auto simp: extends_def Let_def)

lemma cone_loop_history:
  assumes "history blake3 es"
  shows "i \<in> cone_loop es A \<longleftrightarrow> i \<in> A \<or> i \<in> en_id ` set es \<and> (\<exists>s\<in>A. (i, s) \<in> (history_depends es)\<^sup>*)"
  using assms
proof (induction arbitrary: i rule: history_induct)
  case (snoc es n)
  have "(\<exists>p\<in>set (ed_parents (en_data n)). p \<in> cone_loop es A) \<longleftrightarrow>
      (\<exists>p\<in>set (ed_parents (en_data n)). \<exists>s\<in>A. (p, s) \<in> (history_depends es)\<^sup>*)"
    using history_parents_known [OF snoc.hyps(5)] snoc.IH by (auto intro: rtrancl.rtrancl_refl)
  moreover have "en_id n \<in> cone_loop es A \<longleftrightarrow> en_id n \<in> A" using snoc by blast
  ultimately show ?case
    using snoc.IH [of i] history_depends_snoc [OF snoc.hyps(5), of i]
    by (cases "i = en_id n") (auto simp: cone_loop_snoc Let_def)
qed simp

lemma depends_history: "history blake3 es \<Longrightarrow> view st = view_of es \<Longrightarrow> depends st = history_depends es"
  using history_get_Some [of blake3 es] by (auto simp: depends_def history_depends_def view_def view_of_def)

section \<open>Subgraphs\<close>

lemma merge_parents_cong: "(\<And>q. q \<in> set ps \<Longrightarrow> get q = get' q) \<Longrightarrow> merge_parents get ps c = merge_parents get' ps c"
  by (induction ps arbitrary: c) auto

lemma append_entry_cong:
  assumes "\<And>q. q \<in> set_option h \<union> set observed \<Longrightarrow> get q = get' q"
  shows "append_entry blake3 get h kind a observed p = append_entry blake3 get' h kind a observed p"
proof (cases "assemble_parents h observed None")
  case (Inr ps)
  then have "q \<in> set ps \<Longrightarrow> get q = get' q" for q using assms assemble_parents_Inr(2) by blast
  then have "merge_parents get ps [] = merge_parents get' ps []" "length ps = 1 \<Longrightarrow> get (ps ! 0) = get' (ps ! 0)"
    by (auto intro: merge_parents_cong)
  with Inr show ?thesis
    using assms by (cases h; cases "length ps = 1"; cases "get' (the h)") (auto simp: append_entry_def)
qed (simp add: append_entry_def)

lemma append_entry_parents:
  "append_entry blake3 get h kind a observed p = Inr e \<Longrightarrow> set (ed_parents (en_data e)) = set_option h \<union> set observed"
  by (erule append_entry_Inr) (auto simp: new_with_scratch_Inr make_data_def dest: assemble_parents_Inr(2))

lemma last_filter: "xs \<noteq> [] \<Longrightarrow> P (last xs) \<Longrightarrow> filter P xs \<noteq> [] \<and> last (filter P xs) = last xs"
  by (induction xs rule: rev_induct) auto

lemma history_filter:
  assumes "history blake3 es" "\<forall>e\<in>set es. en_id e \<in> K \<longrightarrow> set (ed_parents (en_data e)) \<subseteq> K"
  shows "history blake3 (filter (\<lambda>e. en_id e \<in> K) es)"
  using assms
proof (induction rule: history.induct)
  case (history_snoc es a kind observed p e)
  let ?f = "filter (\<lambda>e. en_id e \<in> K)"
  have f: "history blake3 (?f es)" using history_snoc by simp
  show ?case
  proof (cases "en_id e \<in> K")
    case True
    note ext = append_entry_extends [OF history_snoc(2)]
    have K: "set (ed_parents (en_data e)) \<subseteq> K" using history_snoc.prems True by simp
    have get: "history_get (?f es) q = history_get es q" if "q \<in> K" for q
      using that by (induction es) (auto simp: history_get_def)
    have head: "history_head (?f es) a = history_head es a"
    proof (cases "filter (\<lambda>e. entry_actor e = a) es = []")
      case False
      then have "history_head es a = Some (en_id (last (filter (\<lambda>e. entry_actor e = a) es)))" by (simp add: history_head_def)
      with ext K have "en_id (last (filter (\<lambda>e. entry_actor e = a) es)) \<in> K" by (auto simp: extends_def Let_def)
      from last_filter [of _ "\<lambda>e. en_id e \<in> K", OF False this] show ?thesis
        by (simp add: history_head_def Let_def conj_commute False)
    qed (auto simp: history_head_def Let_def filter_empty_conv)
    have "history_get (?f es) q = history_get es q" if "q \<in> set_option (history_head es a) \<union> set observed" for q
      using append_entry_parents [OF history_snoc(2)] K get that by blast
    then have "append_entry blake3 (history_get (?f es)) (history_head es a) kind a observed p
        = append_entry blake3 (history_get es) (history_head es a) kind a observed p"
      by (rule append_entry_cong)
    then have "append_entry blake3 (history_get (?f es)) (history_head es a) kind a observed p = Inr e"
      using history_snoc(2) by simp
    then have "history blake3 (?f es @ [e])"
      using history_snoc(3,4) by (intro history.history_snoc [OF f, of a kind observed p e]) (auto simp: head)
    then show ?thesis using True by simp
  qed (use f in simp)
qed (simp add: history_Nil)

lemma journal_new_view: "store_wf journal_new" "view journal_new = view_of []"
  by (simp_all add: store_wf_def view_def view_of_def journal_new_def journal_get_def journal_ids_def history_get_def history_head_def
      fun_eq_iff)

lemma subgraph_step_view:
  assumes "journal_get st (en_id e) = Some e" "en_id e \<in> K" "js_overlay sub = []" "js_overlay_order sub = []" "store_wf sub"
  shows "store_wf (subgraph_step st K sub (en_id e))" "view (subgraph_step st K sub (en_id e)) = add_entry (entry_actor e) e (view sub)"
  using assms
  by (simp_all add: subgraph_step_def store_wf_def view_def add_entry_def journal_get_map journal_ids_def hm.wf_insert hm.lookup_insert)

lemma subgraph_fold:
  assumes "history blake3 es" "view st = view_of es" "set fs \<subseteq> set es" "distinct (map en_id fs)"
  shows "\<exists>sub. foldl (subgraph_step st K) journal_new (map en_id fs) = sub \<and> js_overlay sub = [] \<and> js_overlay_order sub = []
    \<and> store_wf sub \<and> view sub = view_of (filter (\<lambda>e. en_id e \<in> K) fs)"
  using assms(3,4)
proof (induction fs rule: rev_induct)
  case Nil
  then show ?case using journal_new_view by (simp add: journal_new_def)
next
  case (snoc f fs)
  define sub where "sub = foldl (subgraph_step st K) journal_new (map en_id fs)"
  have sub: "js_overlay sub = []" "js_overlay_order sub = []" "store_wf sub" "view sub = view_of (filter (\<lambda>e. en_id e \<in> K) fs)"
    using snoc by (auto simp: sub_def)
  have g: "journal_get st (en_id f) = Some f"
    using history_get_mem [OF assms(1), of f] assms(2) snoc.prems by (simp add: view_def view_of_def)
  show ?case
  proof (cases "en_id f \<in> K")
    case True
    have "en_id f \<notin> en_id ` set (filter (\<lambda>e. en_id e \<in> K) fs)" using snoc.prems by auto
    from subgraph_step_view [OF g True sub(1-3)] add_entry_view_of [OF sub(4) [symmetric] this]
    have "store_wf (subgraph_step st K sub (en_id f))"
      "view (subgraph_step st K sub (en_id f)) = view_of (filter (\<lambda>e. en_id e \<in> K) (fs @ [f]))" using True by simp_all
    moreover have "js_overlay (subgraph_step st K sub (en_id f)) = []" "js_overlay_order (subgraph_step st K sub (en_id f)) = []"
      using sub(1,2) g by (simp_all add: subgraph_step_def)
    ultimately show ?thesis by (simp add: sub_def)
  next
    case False
    then have "subgraph_step st K sub (en_id f) = sub" by (simp add: subgraph_step_def)
    then show ?thesis using sub False by (simp add: sub_def)
  qed
qed

lemma demo_get: "journal_get demo_journal (en_id demo2) = Some demo2"
proof -
  have "view demo_journal = view_of [demo1, demo2]" using journal_okE [OF demo_ok] demo_entries by metis
  then show ?thesis using history_get_mem [OF demo_history, of demo2] by (simp add: view_def view_of_def)
qed

section \<open>Properties\<close>

text \<open>
  C15: \<open>causal_slice\<close> terminates on every journal and, when all targets are known, returns in append order
  exactly the ids that the targets depend on along parent links, the targets included.
\<close>

theorem causal_slice_is_closure:
  assumes "\<forall>t\<in>set targets. journal_get st t \<noteq> None"
  shows "causal_slice st targets = Inr (filter (\<lambda>i. \<exists>t\<in>set targets. (t, i) \<in> (depends st)\<^sup>*) (journal_ids st))"
proof -
  have "find_missing st targets = Inr ()" using assms by (simp add: find_missing_Inr)
  then show ?thesis by (simp add: causal_slice_def slice_loop_eq Image_def)
qed

theorem causal_slice_is_closure_witness:
  "causal_slice demo_journal [en_id demo2]
     = Inr (filter (\<lambda>i. \<exists>t\<in>set [en_id demo2]. (t, i) \<in> (depends demo_journal)\<^sup>*) (journal_ids demo_journal))"
  by (rule causal_slice_is_closure) (simp add: demo_get)

text \<open>
  C32: in a journal built by appends, the single pass of \<open>forward_cone\<close> finds every entry that depends on a
  source, directly or through others, since entries stand after their parents.
\<close>

theorem forward_cone_is_closure:
  assumes "journal_ok blake3 st"
  shows "forward_cone st sources = filter (\<lambda>i. \<exists>s\<in>set sources. (i, s) \<in> (depends st)\<^sup>*) (journal_ids st)"
proof -
  have h: "history blake3 (journal_entries st)" and v: "view st = view_of (journal_entries st)"
    using journal_okE [OF assms] by blast+
  have ids: "journal_ids st = map en_id (journal_entries st)" using v by (simp add: view_def view_of_def)
  show ?thesis
    unfolding forward_cone_def Let_def depends_history [OF h v]
    by (rule filter_cong [OF refl]) (auto simp: cone_loop_history [OF h] ids)
qed

theorem forward_cone_is_closure_witness:
  "forward_cone demo_journal [en_id demo1]
     = filter (\<lambda>i. \<exists>s\<in>set [en_id demo1]. (i, s) \<in> (depends demo_journal)\<^sup>*) (journal_ids demo_journal)"
  by (rule forward_cone_is_closure [OF demo_ok])

text \<open>
  C20: the subgraph of a causal slice is itself a journal: it satisfies the journal invariant, so its
  sequence numbers, clocks and heads are those that appends would have produced.
\<close>

theorem slice_subgraph_is_journal:
  assumes "journal_ok blake3 st" "causal_slice st targets = Inr ids"
  shows "\<exists>sub. subgraph st ids = Inr sub \<and> journal_ok blake3 sub
    \<and> journal_entries sub = filter (\<lambda>e. en_id e \<in> set ids) (journal_entries st)"
proof -
  let ?es = "journal_entries st"
  have h: "history blake3 ?es" and v: "view st = view_of ?es" using journal_okE [OF assms(1)] by blast+
  have seen: "set ids = set (journal_ids st) \<inter> (depends st)\<^sup>* `` set targets"
    using assms(2) by (auto simp: causal_slice_def slice_loop_eq)
  have all: "journal_ids st = map en_id ?es" using v by (simp add: view_def view_of_def)
  have "set (ed_parents (en_data e)) \<subseteq> set ids" if "e \<in> set ?es" "en_id e \<in> set ids" for e
  proof
    fix q assume q: "q \<in> set (ed_parents (en_data e))"
    then have "(en_id e, q) \<in> depends st" using that(1) by (auto simp: depends_history [OF h v] history_depends_def)
    with that q history_parents [OF h that(1)] show "q \<in> set ids" by (auto simp: seen all intro: rtrancl_into_rtrancl)
  qed
  then have f: "history blake3 (filter (\<lambda>e. en_id e \<in> set ids) ?es)" by (intro history_filter [OF h]) blast
  obtain sub where sub: "foldl (subgraph_step st (set ids)) journal_new (map en_id ?es) = sub" "store_wf sub"
      "view sub = view_of (filter (\<lambda>e. en_id e \<in> set ids) ?es)"
    using subgraph_fold [OF h v subset_refl history_distinct [OF h], of "set ids"] by blast
  then have "journal_ok blake3 sub" unfolding journal_ok_def using f by blast
  then show ?thesis using sub(1) view_entries [OF f sub(3)] by (simp add: subgraph_def all)
qed

theorem slice_subgraph_is_journal_witness:
  "\<exists>ids sub. causal_slice demo_journal [en_id demo2] = Inr ids \<and> subgraph demo_journal ids = Inr sub \<and> journal_ok demo_hash sub"
proof -
  obtain ids where "causal_slice demo_journal [en_id demo2] = Inr ids" by (simp add: causal_slice_def demo_get)
  from slice_subgraph_is_journal [OF demo_ok this] this show ?thesis by blast
qed

end

