(* ===== verification/Journal_Monitor.thy ===== *)
theory Journal_Monitor
  imports Journal_Causality "HOL-Library.Char_ord"
begin

text \<open>
  The correctness monitor (\<open>monitor.rs\<close>): it re-derives the sequence number and the clock of every entry,
  checks the kinds of parents, the coverage of effects and the fidelity of replays, and orders its issues.
\<close>

section \<open>Issues\<close>

datatype monitor_issue =
    IssueSequence actor_id u64 u64
  | IssueMissingParent entry_hash entry_hash
  | IssueParentKind entry_hash string string
  | IssueClock entry_hash vector_clock vector_clock
  | IssueReplay nat
  | IssueCoverage actor_id u64 u64

record verification_report =
  vr_entries_audited :: nat
  vr_actors_count :: nat
  vr_root_hash :: entry_hash

primrec kind_name :: "entry_kind \<Rightarrow> string" where
  "kind_name KSpawn = ''Spawn''" | "kind_name KBlock = ''Block''" | "kind_name KWake = ''Wake''"
| "kind_name KTimerSet = ''TimerSet''" | "kind_name KTimerFire = ''TimerFire''" | "kind_name KClockRead = ''ClockRead''"
| "kind_name KSend = ''Send''" | "kind_name KRecv = ''Recv''" | "kind_name KFsWrite = ''FsWrite''"
| "kind_name KFsFsync = ''FsFsync''" | "kind_name KFsRead = ''FsRead''" | "kind_name KRngDraw = ''RngDraw''"
| "kind_name KOutcome = ''Outcome''" | "kind_name KAssert = ''Assert''" | "kind_name KSnapshot = ''Snapshot''"
| "kind_name KEpoch = ''Epoch''" | "kind_name KInputStep = ''InputStep''" | "kind_name KCapRequest = ''CapRequest''"
| "kind_name KCapGrant = ''CapGrant''" | "kind_name KCapInvoke = ''CapInvoke''" | "kind_name KCapRevoke = ''CapRevoke''"
| "kind_name KFault = ''Fault''" | "kind_name KStepBegin = ''StepBegin''" | "kind_name KStepEnd = ''StepEnd''"

definition cmp_clock :: "vector_clock \<Rightarrow> vector_clock \<Rightarrow> ordering" where
  "cmp_clock l r = cmp l r"

primrec issue_tag :: "monitor_issue \<Rightarrow> nat" where
  "issue_tag (IssueSequence a x y) = 0"
| "issue_tag (IssueMissingParent i p) = 1"
| "issue_tag (IssueParentKind i x y) = 2"
| "issue_tag (IssueClock i c d) = 3"
| "issue_tag (IssueReplay n) = 4"
| "issue_tag (IssueCoverage a x y) = 5"

definition cmp_issue :: "monitor_issue \<Rightarrow> monitor_issue \<Rightarrow> ordering" where
  "cmp_issue l r = then_with (cmp (issue_tag l) (issue_tag r))
     (case (l, r) of
        (IssueSequence a x y, IssueSequence a' x' y') \<Rightarrow> then_with (then_with (cmp a a') (cmp x x')) (cmp y y')
      | (IssueMissingParent i p, IssueMissingParent i' p') \<Rightarrow> then_with (cmp i i') (cmp p p')
      | (IssueParentKind i x y, IssueParentKind i' x' y') \<Rightarrow> then_with (then_with (cmp i i') (cmp x x')) (cmp y y')
      | (IssueClock i c d, IssueClock i' c' d') \<Rightarrow> then_with (then_with (cmp i i') (cmp_clock c c')) (cmp_clock d d')
      | (IssueReplay n, IssueReplay n') \<Rightarrow> cmp n n'
      | (IssueCoverage a x y, IssueCoverage a' x' y') \<Rightarrow> then_with (then_with (cmp a a') (cmp x x')) (cmp y y')
      | _ \<Rightarrow> Equal)"

definition required_parent :: "entry_kind \<Rightarrow> string option" where
  "required_parent k =
     (if k = KRecv then Some ''Send'' else if k = KFsRead then Some ''FsWrite''
      else if k = KWake then Some ''enabler'' else None)"

definition is_enabler :: "entry_kind \<Rightarrow> bool" where
  "is_enabler k \<longleftrightarrow> k = KSend \<or> k = KRecv \<or> k = KFsWrite \<or> k = KFsFsync \<or> k = KTimerFire"

definition parent_matches :: "string \<Rightarrow> entry_kind \<Rightarrow> bool" where
  "parent_matches expected k \<longleftrightarrow>
     (if expected = ''Send'' then k = KSend else if expected = ''FsWrite'' then k = KFsWrite else is_enabler k)"

text \<open>The loop over the parents: whether one matched, and the kind last looked at.\<close>

primrec match_parents :: "journal_state \<Rightarrow> string \<Rightarrow> entry_hash list \<Rightarrow> string \<Rightarrow> bool \<times> string" where
  "match_parents st expected [] actual = (False, actual)"
| "match_parents st expected (p # ps) actual =
     (case journal_get st p of
        None \<Rightarrow> match_parents st expected ps actual
      | Some e \<Rightarrow> if parent_matches expected (ed_kind (en_data e)) then (True, kind_name (ed_kind (en_data e)))
                  else match_parents st expected ps (kind_name (ed_kind (en_data e))))"

definition check_parent_kind :: "journal_state \<Rightarrow> entry \<Rightarrow> monitor_issue list" where
  "check_parent_kind st e =
     (case required_parent (ed_kind (en_data e)) of
        None \<Rightarrow> []
      | Some expected \<Rightarrow>
          (case match_parents st expected (ed_parents (en_data e)) ''none'' of
             (matched, actual) \<Rightarrow> if matched then [] else [IssueParentKind (en_id e) expected actual]))"

text \<open>The loop over the parents that recomputes the clock and reports dangling references.\<close>

primrec audit_parents :: "journal_state \<Rightarrow> entry_hash \<Rightarrow> entry_hash list \<Rightarrow> vector_clock \<Rightarrow> bool
     \<Rightarrow> vector_clock \<times> bool \<times> monitor_issue list" where
  "audit_parents st i [] clock resolvable = (clock, resolvable, [])"
| "audit_parents st i (p # ps) clock resolvable =
     (case journal_get st p of
        Some e \<Rightarrow> audit_parents st i ps (vc_merge clock (en_clock e)) resolvable
      | None \<Rightarrow> (case audit_parents st i ps clock False of
                   (c, r, issues) \<Rightarrow> (c, r, IssueMissingParent i p # issues)))"

definition audit_entry :: "journal_state \<Rightarrow> u64 \<Rightarrow> entry \<Rightarrow> monitor_issue list" where
  "audit_entry st expected e =
     (let d = en_data e; actual = sequence_val (ed_sequence d);
          (clock, resolvable, missing) = audit_parents st (en_id e) (ed_parents d) [] True
      in (if actual \<noteq> expected then [IssueSequence (ed_actor d) expected actual] else []) @
         missing @ check_parent_kind st e @
         (if resolvable then
            let expected_clock = vc_incremented clock (ed_actor d)
            in if expected_clock \<noteq> en_clock e then [IssueClock (en_id e) expected_clock (en_clock e)] else []
          else []))"

text \<open>\<open>actor_seqs\<close> holds the next sequence number of each actor; \<open>expected + 1\<close> is a \<open>u64\<close> addition.\<close>

primrec audit_loop :: "journal_state \<Rightarrow> entry list \<Rightarrow> (actor_id \<times> u64) list \<Rightarrow> monitor_issue list" where
  "audit_loop st [] actor_seqs = []"
| "audit_loop st (e # es) actor_seqs =
     (let expected = (case map_of actor_seqs (ed_actor (en_data e)) of None \<Rightarrow> 0 | Some v \<Rightarrow> v)
      in audit_entry st expected e @ audit_loop st es (hm_insert (ed_actor (en_data e)) (expected + 1) actor_seqs))"

definition audit :: "journal_state \<Rightarrow> monitor_issue list" where
  "audit st = sort_by cmp_issue (audit_loop st (journal_entries st) [])"

definition hex2 :: "u8 \<Rightarrow> string" where
  "hex2 b = [digit (unat b div 16), digit (unat b mod 16)]"

fun comma_sep :: "string list \<Rightarrow> string" where
  "comma_sep [] = []"
| "comma_sep [x] = x"
| "comma_sep (x # y # xs) = x @ '', '' @ comma_sep (y # xs)"

text \<open>\<open>{:02x?}\<close> of the first four bytes of an id.\<close>

definition short_id :: "entry_hash \<Rightarrow> string" where
  "short_id h = ''['' @ comma_sep (map hex2 (take 4 (hash_bytes h))) @ '']''"

primrec issue_to_error :: "monitor_issue \<Rightarrow> journal_error" where
  "issue_to_error (IssueSequence a expected actual) = NonMonotonicSequence a expected actual"
| "issue_to_error (IssueMissingParent i p) = MissingParent p"
| "issue_to_error (IssueParentKind i expected actual) =
     InvariantViolation (''entry '' @ short_id i @ '' requires a '' @ expected @ '' parent, found '' @ actual)"
| "issue_to_error (IssueClock i c d) =
     InvariantViolation (''entry '' @ short_id i @ '' vector clock does not match recomputation'')"
| "issue_to_error (IssueReplay n) =
     InvariantViolation (''forked replay diverges from original at position '' @ digits 10 n)"
| "issue_to_error (IssueCoverage a b j) =
     InvariantViolation (''actor '' @ digits 10 (unat (actor_val a)) @ '' boundary reported '' @ digits 10 (unat b)
       @ '' entries, journal holds '' @ digits 10 (unat j))"

definition verify :: "hasher \<Rightarrow> journal_state \<Rightarrow> journal_error + verification_report" where
  "verify blake3 st =
     (case audit st of
        issue # _ \<Rightarrow> Inl (issue_to_error issue)
      | [] \<Rightarrow> Inr \<lparr>vr_entries_audited = journal_len st,
          vr_actors_count = length (foldl (\<lambda>m e. hm_insert (ed_actor (en_data e)) () m) [] (journal_entries st)), vr_root_hash = root_hash blake3 st\<rparr>)"

fun replay_loop :: "entry_hash list \<Rightarrow> entry_hash list \<Rightarrow> nat \<Rightarrow> monitor_issue list + unit" where
  "replay_loop (l # ls) (r # rs) position = (if l = r then replay_loop ls rs (position + 1) else Inl [IssueReplay position])"
| "replay_loop [] [] position = Inr ()"
| "replay_loop _ _ position = Inl [IssueReplay position]"

definition verify_replay_fidelity :: "journal_state \<Rightarrow> journal_state \<Rightarrow> monitor_issue list + unit" where
  "verify_replay_fidelity original fork_st =
     replay_loop (map en_id (journal_entries original)) (map en_id (journal_entries fork_st)) 0"

text \<open>Counting entries per actor, in a hash map.\<close>

primrec count_entries :: "entry list \<Rightarrow> (actor_id \<times> u64) list \<Rightarrow> (actor_id \<times> u64) list" where
  "count_entries [] m = m"
| "count_entries (e # es) m =
     count_entries es (hm_insert (ed_actor (en_data e)) ((case map_of m (ed_actor (en_data e)) of None \<Rightarrow> 0 | Some v \<Rightarrow> v) + 1) m)"

definition check_coverage :: "journal_state \<Rightarrow> (actor_id \<times> u64) list \<Rightarrow> monitor_issue list" where
  "check_coverage st boundary_entries =
     (let journal_counts = count_entries (journal_entries st) [];
          reported = hm_extend [] boundary_entries;
          issues = List.map_filter (\<lambda>(a, reported_count).
            let actual = (case map_of journal_counts a of None \<Rightarrow> 0 | Some v \<Rightarrow> v)
            in if reported_count = actual then None else Some (IssueCoverage a reported_count actual)) reported;
          rest = List.map_filter (\<lambda>(a, actual). if map_of reported a = None then Some (IssueCoverage a 0 actual) else None)
            journal_counts
      in sort_by cmp_issue (issues @ rest))"

definition issue_key :: "monitor_issue \<Rightarrow>
    nat \<times> actor_id \<times> entry_hash \<times> entry_hash \<times> u64 \<times> u64 \<times> string \<times> string \<times> vector_clock \<times> vector_clock \<times> nat" where
  "issue_key x = (issue_tag x,
     (case x of IssueSequence a _ _ \<Rightarrow> a | IssueCoverage a _ _ \<Rightarrow> a | _ \<Rightarrow> ActorId 0),
     (case x of IssueMissingParent i _ \<Rightarrow> i | IssueParentKind i _ _ \<Rightarrow> i | IssueClock i _ _ \<Rightarrow> i | _ \<Rightarrow> EntryHash []),
     (case x of IssueMissingParent _ p \<Rightarrow> p | _ \<Rightarrow> EntryHash []),
     (case x of IssueSequence _ n _ \<Rightarrow> n | IssueCoverage _ n _ \<Rightarrow> n | _ \<Rightarrow> 0),
     (case x of IssueSequence _ _ n \<Rightarrow> n | IssueCoverage _ _ n \<Rightarrow> n | _ \<Rightarrow> 0),
     (case x of IssueParentKind _ s _ \<Rightarrow> s | _ \<Rightarrow> []), (case x of IssueParentKind _ _ s \<Rightarrow> s | _ \<Rightarrow> []),
     (case x of IssueClock _ c _ \<Rightarrow> c | _ \<Rightarrow> []), (case x of IssueClock _ _ c \<Rightarrow> c | _ \<Rightarrow> []),
     (case x of IssueReplay n \<Rightarrow> n | _ \<Rightarrow> 0))"

text \<open>An entry as the audit expects it, given the entries before it.\<close>

definition audited :: "journal_state \<Rightarrow> entry list \<Rightarrow> entry \<Rightarrow> bool" where
  "audited st before e \<longleftrightarrow>
     entry_seq e = of_nat (actor_count before (entry_actor e))
     \<and> (\<forall>p\<in>set (ed_parents (en_data e)). journal_get st p \<noteq> None)
     \<and> en_clock e = vc_incremented (foldl vc_merge [] (map (\<lambda>p. en_clock (the (journal_get st p))) (ed_parents (en_data e))))
         (entry_actor e)"

definition parent_kind_ok :: "journal_state \<Rightarrow> entry \<Rightarrow> bool" where
  "parent_kind_ok st e \<longleftrightarrow> (\<forall>expected. required_parent (ed_kind (en_data e)) = Some expected \<longrightarrow>
     (\<exists>p\<in>set (ed_parents (en_data e)). \<exists>f. journal_get st p = Some f \<and> parent_matches expected (ed_kind (en_data f))))"

text \<open>The audit with the sequence numbers counted in the entries before.\<close>

primrec audit_from :: "journal_state \<Rightarrow> entry list \<Rightarrow> entry list \<Rightarrow> monitor_issue list" where
  "audit_from st before [] = []"
| "audit_from st before (e # es) =
     audit_entry st (of_nat (actor_count before (entry_actor e))) e @ audit_from st (before @ [e]) es"

section \<open>The order of issues\<close>

lemma cmp_prod: "cmp (a, b) (a', b') = then_with (cmp a a') (cmp b b')"
  by (cases a a' rule: linorder_cases) (auto simp: cmp_def)

lemma then_with_assoc: "then_with (then_with x y) z = then_with x (then_with y z)"
  by (cases x) simp_all

lemma then_with_Equal [simp]: "then_with x Equal = x"
  by (cases x) simp_all

lemma cmp_issue_key: "cmp_issue x y = cmp (issue_key x) (issue_key y)"
  by (cases x; cases y) (simp_all add: cmp_issue_def issue_key_def cmp_prod cmp_clock_def then_with_assoc)

lemma inj_issue_key: "inj issue_key"
proof (rule injI)
  fix x y show "issue_key x = issue_key y \<Longrightarrow> x = y"
    by (cases x; cases y) (simp_all add: issue_key_def)
qed

section \<open>What the audit reports\<close>

lemma audit_parents_eq:
  "audit_parents st i ps c r = (c', r', issues) \<Longrightarrow>
     r' = (r \<and> (\<forall>p\<in>set ps. journal_get st p \<noteq> None))
     \<and> (issues = [] \<longleftrightarrow> (\<forall>p\<in>set ps. journal_get st p \<noteq> None))
     \<and> set issues \<subseteq> range (IssueMissingParent i)
     \<and> ((\<forall>p\<in>set ps. journal_get st p \<noteq> None) \<longrightarrow> c' = foldl vc_merge c (map (\<lambda>p. en_clock (the (journal_get st p))) ps))"
proof (induction ps arbitrary: c r c' r' issues)
  case (Cons p ps)
  show ?case
  proof (cases "journal_get st p")
    case None
    obtain c1 r1 i1 where a: "audit_parents st i ps c False = (c1, r1, i1)" by (metis prod_cases3)
    from Cons.IH [OF a] Cons.prems None a show ?thesis by auto
  next
    case (Some e)
    with Cons.IH [of "vc_merge c (en_clock e)" r c' r' issues] Cons.prems show ?thesis by simp
  qed
qed simp

lemma match_parents_fst:
  "fst (match_parents st x ps k) \<longleftrightarrow> (\<exists>p\<in>set ps. \<exists>f. journal_get st p = Some f \<and> parent_matches x (ed_kind (en_data f)))"
  by (induction ps arbitrary: k) (auto split: option.split)

lemma check_parent_kind_Nil: "check_parent_kind st e = [] \<longleftrightarrow> parent_kind_ok st e"
  using match_parents_fst [of st _ "ed_parents (en_data e)" "''none''"]
  by (auto simp: check_parent_kind_def parent_kind_ok_def split: option.splits prod.splits) (metis fst_conv)+

lemma check_parent_kind_set: "set (check_parent_kind st e) \<subseteq> {IssueParentKind i x y | i x y. True}"
  by (auto simp: check_parent_kind_def split: option.splits prod.splits if_splits)

lemma audit_entry_Nil:
  "audit_entry st (of_nat (actor_count before (entry_actor e))) e = [] \<longleftrightarrow> audited st before e \<and> parent_kind_ok st e"
proof -
  obtain c r m where a: "audit_parents st (en_id e) (ed_parents (en_data e)) [] True = (c, r, m)" by (metis prod_cases3)
  from audit_parents_eq [OF a] show ?thesis
    by (auto simp: audit_entry_def a audited_def check_parent_kind_Nil [symmetric] Let_def)
qed

lemma audit_entry_audited:
  assumes "audited st before e"
  shows "set (audit_entry st (of_nat (actor_count before (entry_actor e))) e) \<subseteq> {IssueParentKind i x y | i x y. True}"
proof -
  obtain c r m where a: "audit_parents st (en_id e) (ed_parents (en_data e)) [] True = (c, r, m)" by (metis prod_cases3)
  from audit_parents_eq [OF a] assms show ?thesis
    using check_parent_kind_set [of st e] by (auto simp: audit_entry_def a audited_def Let_def)
qed

text \<open>The loop audits each entry against the number of entries of its actor before it.\<close>

lemma audit_loop_from:
  assumes "\<And>a. (case map_of m a of None \<Rightarrow> 0 | Some v \<Rightarrow> v) = of_nat (actor_count before a)"
  shows "audit_loop st es m = audit_from st before es"
  using assms
proof (induction es arbitrary: m before)
  case (Cons e es)
  let ?m = "hm_insert (entry_actor e) (of_nat (actor_count before (entry_actor e)) + 1) m"
  have "(case map_of ?m a of None \<Rightarrow> 0 | Some v \<Rightarrow> v) = of_nat (actor_count (before @ [e]) a)" for a
    using Cons.prems [of a] by (simp add: update_conv' actor_count_snoc)
  then have "audit_loop st es ?m = audit_from st (before @ [e]) es" by (rule Cons.IH)
  then show ?case using Cons.prems [of "entry_actor e"] by (simp add: Let_def)
qed simp

lemma audit_from_Nil:
  "audit_from st before es = [] \<longleftrightarrow>
     (\<forall>b e c. es = b @ e # c \<longrightarrow> audited st (before @ b) e \<and> parent_kind_ok st e)"
proof (induction es arbitrary: before)
  case (Cons x es)
  have "(\<forall>b e c. x # es = b @ e # c \<longrightarrow> audited st (before @ b) e \<and> parent_kind_ok st e) \<longleftrightarrow>
      audited st before x \<and> parent_kind_ok st x
      \<and> (\<forall>b e c. es = b @ e # c \<longrightarrow> audited st ((before @ [x]) @ b) e \<and> parent_kind_ok st e)"
    by (auto simp: Cons_eq_append_conv)
  then show ?case using Cons.IH [of "before @ [x]"] by (simp only: audit_from.simps append_is_Nil_conv audit_entry_Nil) blast
qed simp

lemma audit_from_kinds:
  "(\<forall>b e c. es = b @ e # c \<longrightarrow> audited st (before @ b) e) \<Longrightarrow>
     set (audit_from st before es) \<subseteq> {IssueParentKind i x y | i x y. True}"
proof (induction es arbitrary: before)
  case (Cons x es)
  have "audited st before x" using Cons.prems [rule_format, of "[]" x es] by simp
  moreover have "\<forall>b e c. es = b @ e # c \<longrightarrow> audited st ((before @ [x]) @ b) e"
    using Cons.prems [rule_format, of "x # b" for b] by simp
  ultimately show ?case using Cons.IH [of "before @ [x]"] audit_entry_audited [of st before x] by auto
qed simp

lemma audit_eq: "audit st = sort_by cmp_issue (audit_from st [] (journal_entries st))"
  unfolding audit_def by (subst audit_loop_from [of _ "[]"]) (simp_all add: actor_count_def)

lemma sort_by_Nil: "sort_by c xs = [] \<longleftrightarrow> xs = []"
  by (metis length_0_conv length_sort_by)

lemma history_audited:
  assumes h: "history blake3 es" and v: "view st = view_of es" and len: "length es < 18446744073709551615" and es: "es = b @ e # c"
  shows "audited st b e"
proof -
  have hb: "history blake3 b" "extends blake3 b e"
    using history_extends [of blake3 b e] history_prefix [of blake3 "b @ [e]" c] h es by simp_all
  have le: "actor_count b (entry_actor e) \<le> 18446744073709551615" using actor_count_le [of b "entry_actor e"] len es by simp
  have seq: "unat (entry_seq e) = actor_count b (entry_actor e)" by (rule extends_sequence [OF hb le])
  have get: "journal_get st = history_get es" using v by (simp add: view_def view_of_def)
  have ps: "history_get es q = history_get b q \<and> history_get b q \<noteq> None" if q: "q \<in> set (ed_parents (en_data e))" for q
  proof -
    obtain p where "p \<in> set b" "en_id p = q" using extends_parent [OF hb q] by blast
    then show ?thesis using history_get_mem [OF h, of p] history_get_mem [OF hb(1), of p] es by simp
  qed
  then have clocks: "map (\<lambda>p. en_clock (the (history_get es p))) (ed_parents (en_data e))
      = map (\<lambda>p. en_clock (the (history_get b p))) (ed_parents (en_data e))" by simp
  have "entry_seq e = of_nat (actor_count b (entry_actor e))" using arg_cong [OF seq, of "of_nat :: nat \<Rightarrow> u64"] by simp
  moreover have "en_clock e = vc_incremented (foldl vc_merge [] (map (\<lambda>q. en_clock (the (history_get b q)))
      (ed_parents (en_data e)))) (entry_actor e)"
    using hb(2) by (simp add: extends_def Let_def)
  moreover have "\<forall>p\<in>set (ed_parents (en_data e)). history_get es p \<noteq> None" using ps by simp
  ultimately show ?thesis unfolding audited_def get clocks by blast
qed

lemma count_entries_map:
  "map_of (count_entries es m) a = (if actor_count es a = 0 then map_of m a
     else Some ((case map_of m a of None \<Rightarrow> 0 | Some v \<Rightarrow> v) + of_nat (actor_count es a)))"
proof (induction es arbitrary: m)
  case (Cons e es)
  then show ?case by (simp add: update_conv' actor_count_def)
qed (simp add: actor_count_def)

lemma hm_wf_count_entries: "hm_wf m \<Longrightarrow> hm_wf (count_entries es m)"
  by (induction es arbitrary: m) (simp_all add: hm.wf_insert)

lemma map_filter_Nil: "List.map_filter f m = [] \<longleftrightarrow> (\<forall>k v. (k, v) \<in> set m \<longrightarrow> f (k, v) = None)"
  by (induction m) (auto split: option.splits)

lemma hm_wf_mem: "hm_wf m \<Longrightarrow> (k, v) \<in> set m \<longleftrightarrow> map_of m k = Some v"
  by (simp add: hm_wf_def)

lemma replay_loop_Inr: "replay_loop ls rs n = Inr () \<longleftrightarrow> ls = rs"
  by (induction ls rs n rule: replay_loop.induct) auto

lemma replay_loop_Inl:
  "replay_loop ls rs n = Inl is \<Longrightarrow> \<exists>k. is = [IssueReplay (n + k)] \<and> take k ls = take k rs \<and> take (Suc k) ls \<noteq> take (Suc k) rs"
proof (induction ls rs n rule: replay_loop.induct)
  case (1 l ls r rs n)
  show ?case
  proof (cases "l = r")
    case True
    with 1 obtain k where "is = [IssueReplay (Suc n + k)]" "take k ls = take k rs" "take (Suc k) ls \<noteq> take (Suc k) rs" by auto
    with True show ?thesis by (intro exI [of _ "Suc k"]) simp
  qed (use 1 in \<open>auto intro!: exI [of _ 0]\<close>)
qed (auto intro!: exI [of _ 0])

section \<open>Properties\<close>

text \<open>
  C14: the audit reports nothing exactly when every entry has the sequence number of its actor, resolvable
  parents, a parent of the kind it requires, and the clock recomputed from its parents.
\<close>

theorem audit_exact:
  "audit st = [] \<longleftrightarrow> (\<forall>b e c. journal_entries st = b @ e # c \<longrightarrow> audited st b e \<and> parent_kind_ok st e)"
  using audit_from_Nil [of st "[]"] by (simp add: audit_eq sort_by_Nil)

theorem audit_exact_witness: "audited demo_journal [demo1] demo2"
proof -
  have "view demo_journal = view_of [demo1, demo2]" using journal_okE [OF demo_ok] demo_entries by metis
  moreover have "length [demo1, demo2] < 18446744073709551615" by simp
  ultimately have "audited demo_journal b e" if "[demo1, demo2] = b @ e # c" for b e c
    using history_audited [OF demo_history _ _ that] by simp
  moreover have "parent_kind_ok demo_journal e" if "[demo1, demo2] = b @ e # c" for b e c
  proof -
    have "e \<in> {demo1, demo2}" using arg_cong [OF that, of set] by auto
    then show ?thesis by (auto simp: parent_kind_ok_def required_parent_def demo1_def demo2_def make_data_def)
  qed
  ultimately have "audit demo_journal = []" by (simp add: audit_eq sort_by_Nil demo_entries audit_from_Nil del: audit_from.simps)
  with audit_exact [of demo_journal] demo_entries have "journal_entries demo_journal = [demo1] @ demo2 # [] \<longrightarrow> audited demo_journal [demo1] demo2"
    by blast
  then show ?thesis by (simp add: demo_entries)
qed

text \<open>
  C18: a journal built by appends passes verification as soon as its entries have the parent kinds that they
  require; nothing else can fail.
\<close>

theorem appended_journal_verifies:
  assumes "journal_ok blake3 st" "length (journal_entries st) < 18446744073709551615"
  shows "set (audit st) \<subseteq> {IssueParentKind i x y | i x y. True}
    \<and> ((\<forall>e\<in>set (journal_entries st). parent_kind_ok st e) \<longrightarrow> (\<exists>report. verify blake3 st = Inr report))"
proof -
  have h: "history blake3 (journal_entries st)" and v: "view st = view_of (journal_entries st)"
    using journal_okE [OF assms(1)] by blast+
  note aud = history_audited [OF h v assms(2)]
  then have "set (audit st) \<subseteq> {IssueParentKind i x y | i x y. True}"
    using audit_from_kinds [of "journal_entries st" st "[]"] by (simp add: audit_eq)
  moreover have "\<forall>e\<in>set (journal_entries st). parent_kind_ok st e \<Longrightarrow> audit_from st [] (journal_entries st) = []"
    using aud by (simp add: audit_from_Nil)
  then have "(\<forall>e\<in>set (journal_entries st). parent_kind_ok st e) \<longrightarrow> (\<exists>report. verify blake3 st = Inr report)"
    by (auto simp: verify_def audit_eq)
  ultimately show ?thesis by blast
qed

theorem appended_journal_verifies_witness: "\<exists>report. verify demo_hash demo_journal = Inr report"
proof -
  have "\<forall>e\<in>set (journal_entries demo_journal). parent_kind_ok demo_journal e"
    by (simp add: demo_entries parent_kind_ok_def required_parent_def demo1_def demo2_def make_data_def)
  then show ?thesis using appended_journal_verifies [OF demo_ok] by (simp add: demo_entries)
qed

text \<open>
  C38: the order of issues is total, so the reported list does not depend on the order in which they were
  found, and in particular not on the iteration order of the hash maps.
\<close>

theorem issue_order_deterministic:
  assumes "mset xs = mset ys"
  shows "sort_by cmp_issue xs = sort_by cmp_issue ys"
proof -
  have "sort_by cmp_issue zs = sort_key issue_key zs" for zs by (rule sort_by_key) (rule cmp_issue_key)
  moreover have "sort_key issue_key xs = sort_key issue_key ys"
    using assms inj_issue_key by (intro sort_key_inj_key_eq) (auto intro: inj_on_subset)
  ultimately show ?thesis by simp
qed

theorem issue_order_deterministic_witness:
  "sort_by cmp_issue [IssueReplay 2, IssueCoverage (ActorId 1) 2 3, IssueReplay 1]
     = sort_by cmp_issue [IssueReplay 1, IssueReplay 2, IssueCoverage (ActorId 1) 2 3]"
  by (rule issue_order_deterministic) simp

text \<open>
  C39: the coverage check reports nothing exactly when the boundary reported, for every actor, the number of
  entries that the journal holds for it.
\<close>

theorem coverage_exact:
  assumes "length (journal_entries st) < 18446744073709551615"
  shows "check_coverage st reported = [] \<longleftrightarrow>
    (\<forall>a. (case map_of (rev reported) a of None \<Rightarrow> 0 | Some r \<Rightarrow> r) = of_nat (actor_count (journal_entries st) a))"
proof -
  let ?c = "count_entries (journal_entries st) []" and ?r = "hm_extend [] reported" and ?n = "actor_count (journal_entries st)"
  have wf: "hm_wf ?c" "hm_wf ?r" by (simp_all add: hm_wf_count_entries hm_extend)
  have r: "map_of ?r = map_of (rev reported)" by (simp add: hm_extend)
  have c: "map_of ?c a = (if ?n a = 0 then None else Some (of_nat (?n a)))" for a by (simp add: count_entries_map)
  then have count: "(case map_of ?c a of None \<Rightarrow> 0 | Some v \<Rightarrow> v) = of_nat (?n a)" for a by simp
  have n: "of_nat (?n a) = (0 :: u64) \<longleftrightarrow> ?n a = 0" for a
  proof -
    have "?n a < 2 ^ 64" using assms actor_count_le [of "journal_entries st" a] by simp
    then have "unat (of_nat (?n a) :: u64) = ?n a" by (rule unat_of_nat_u64)
    then show ?thesis by auto
  qed
  have "check_coverage st reported = [] \<longleftrightarrow>
      (\<forall>a x. map_of ?r a = Some x \<longrightarrow> x = of_nat (?n a)) \<and> (\<forall>a x. map_of ?c a = Some x \<longrightarrow> map_of ?r a \<noteq> None)"
    unfolding check_coverage_def Let_def sort_by_Nil append_is_Nil_conv map_filter_Nil hm_wf_mem [OF wf(1)] hm_wf_mem [OF wf(2)]
      prod.case count
    by (intro conj_cong) (auto split: if_splits)
  also have "\<dots> \<longleftrightarrow> (\<forall>a. (case map_of (rev reported) a of None \<Rightarrow> 0 | Some x \<Rightarrow> x) = of_nat (?n a))"
    by (auto simp: r c n split: option.splits if_splits)
  finally show ?thesis .
qed

theorem coverage_exact_witness: "check_coverage demo_journal [(ActorId 1, 1), (ActorId 2, 1)] = []"
  by (subst coverage_exact) (auto simp: demo_entries actor_count_def demo1_def demo2_def make_data_def)

text \<open>
  C33: replay fidelity holds exactly when the entry streams are equal, and a reported position is the first
  at which they differ.
\<close>

theorem replay_position_exact:
  "(verify_replay_fidelity j k = Inr () \<longleftrightarrow> map en_id (journal_entries j) = map en_id (journal_entries k))
   \<and> (\<forall>is. verify_replay_fidelity j k = Inl is \<longrightarrow> (\<exists>n. is = [IssueReplay n]
        \<and> take n (map en_id (journal_entries j)) = take n (map en_id (journal_entries k))
        \<and> take (Suc n) (map en_id (journal_entries j)) \<noteq> take (Suc n) (map en_id (journal_entries k))))"
  using replay_loop_Inl [of "map en_id (journal_entries j)" "map en_id (journal_entries k)" 0]
  by (auto simp: verify_replay_fidelity_def replay_loop_Inr)

theorem replay_position_exact_witness: "verify_replay_fidelity demo_journal demo_journal = Inr ()"
  using replay_position_exact [of demo_journal demo_journal] by simp

end

