(* ===== verification/Sim_File.thy ===== *)
theory Sim_File
  imports Journal_Monitor
begin

text \<open>
  Sparse byte files of the storage simulator (\<open>ledger-sim/src/simfs.rs\<close>, \<open>File\<close> and the two window
  algorithms of \<open>write_bytes\<close> and \<open>read_bytes\<close>). A file is a volatile cache and a durable snapshot of byte
  ranges by start offset; replacing a window trims the ranges it overlaps, and reading one walks the
  ranges in order and fills the holes with zeros.

  The bytes a list of ranges stands for are \<open>ranges_bytes\<close>. Replacing a window splices its bytes into them,
  and the read loop returns them, for ranges that are ordered, disjoint and within the hard extent limit
  (\<open>ranges_ok\<close>), which both algorithms keep.
\<close>

section \<open>Sparse byte files\<close>

datatype page_state = Clean | Dirty | Allocated

record byte_range =
  br_content :: bytes
  br_write_id :: entry_hash
  br_state :: page_state

type_synonym ranges = "(u64 \<times> byte_range) list"

record fs_file =
  f_cache :: ranges
  f_durable :: ranges
  f_length :: u64
  f_created_by :: "entry_hash option"
  f_durable_exists :: bool

definition file_default :: fs_file where
  "file_default = \<lparr>f_cache = [], f_durable = [], f_length = 0, f_created_by = None, f_durable_exists = False\<rparr>"

definition u64_saturating_sub :: "u64 \<Rightarrow> u64 \<Rightarrow> u64" where
  "u64_saturating_sub a b = (if a < b then 0 else a - b)"

definition content_len :: "byte_range \<Rightarrow> u64" where
  "content_len r = of_nat (length (br_content r))"

fun range_end :: "u64 \<times> byte_range \<Rightarrow> u64" where
  "range_end (s, r) = u64_saturating_add s (content_len r)"

definition persist :: "fs_file \<Rightarrow> fs_file" where
  "persist f = f\<lparr>f_durable := om_collect (map (\<lambda>(offset, range). (offset, range\<lparr>br_state := Clean\<rparr>)) (f_cache f)),
     f_durable_exists := True\<rparr>"

definition recompute_length :: "fs_file \<Rightarrow> fs_file" where
  "recompute_length f = f\<lparr>f_length := (case map range_end (f_cache f) of [] \<Rightarrow> 0 | e # es \<Rightarrow> fold max es e)\<rparr>"

definition drop_unsynced :: "fs_file \<Rightarrow> bool \<times> fs_file" where
  "drop_unsynced f =
     (if \<not> f_durable_exists f then (False, f)
      else (True, recompute_length (f\<lparr>f_cache := om_collect (f_durable f)\<rparr>)))"

section \<open>Writing a window\<close>

definition affected_ranges :: "u64 \<Rightarrow> u64 \<Rightarrow> ranges \<Rightarrow> ranges" where
  "affected_ranges window_start window_end cache =
     filter (\<lambda>p. range_end p > window_start) (filter (\<lambda>p. fst p < max window_end 1) cache)"

fun split_range :: "u64 \<Rightarrow> u64 \<Rightarrow> u64 \<times> byte_range \<Rightarrow> (u64 \<times> entry_hash \<times> bytes) list" where
  "split_range window_start window_end (range_start, r) =
     (let content = br_content r; write_id = br_write_id r
      in (if range_start < window_start then
            let left_len = unat (window_start - range_start)
            in if left_len > 0 then [(range_start, write_id, take (min left_len (length content)) content)] else []
          else []) @
         (if range_end (range_start, r) > window_end then
            let right_start = unat (window_end - range_start)
            in if right_start < length content then [(window_end, write_id, drop right_start content)] else []
          else []))"

definition insert_dirty :: "u64 \<Rightarrow> entry_hash \<Rightarrow> bytes \<Rightarrow> ranges \<Rightarrow> ranges" where
  "insert_dirty offset i content cache =
     om_insert offset \<lparr>br_content = content, br_write_id = i, br_state = Dirty\<rparr> cache"

definition replace_window :: "u64 \<Rightarrow> u64 \<Rightarrow> entry_hash \<Rightarrow> bytes \<Rightarrow> ranges \<Rightarrow> ranges" where
  "replace_window window_start window_end i content cache =
     (let affected = affected_ranges window_start window_end cache;
          splits = concat (map (split_range window_start window_end) affected);
          kept = fold (\<lambda>p. om_remove (fst p)) affected cache
      in insert_dirty window_start i content (fold (\<lambda>(s, w, c). insert_dirty s w c) splits kept))"

section \<open>Reading a window\<close>

text \<open>The loop of \<open>read_bytes\<close>; \<open>None\<close> is the panic of an out-of-range slice.\<close>

fun read_loop :: "u64 \<Rightarrow> ranges \<Rightarrow> u64 \<Rightarrow> bytes \<Rightarrow> entry_hash list \<Rightarrow> (u64 \<times> bytes \<times> entry_hash list) option" where
  "read_loop window_end [] cursor out parents = Some (cursor, out, parents)"
| "read_loop window_end ((range_start, r) # rs) cursor out parents =
     (if range_end (range_start, r) \<le> cursor then read_loop window_end rs cursor out parents
      else
        let (out', cursor') = (if range_start > cursor
              then (out @ replicate (unat (range_start - cursor)) 0, range_start) else (out, cursor));
            copy_from = cursor' - range_start;
            copy_len = u64_saturating_sub (min (range_end (range_start, r)) window_end) cursor'
        in if unat copy_from + unat copy_len > length (br_content r) then None
           else read_loop window_end rs (u64_saturating_add cursor' copy_len)
             (out' @ take (unat copy_len) (drop (unat copy_from) (br_content r)))
             (insort_insert (br_write_id r) parents))"

section \<open>The bytes of a file\<close>

abbreviation rlo :: "u64 \<times> byte_range \<Rightarrow> nat" where
  "rlo p \<equiv> unat (fst p)"

definition rhi :: "u64 \<times> byte_range \<Rightarrow> nat" where
  "rhi p = rlo p + length (br_content (snd p))"

definition MAX_FILE_EXTENT_HARD :: u64 where "MAX_FILE_EXTENT_HARD = 1024 * 1024 * 1024 * 1024"

definition ranges_ok :: "ranges \<Rightarrow> bool" where
  "ranges_ok c \<longleftrightarrow> om_wf c \<and> (\<forall>p\<in>set c. \<forall>q\<in>set c. fst p < fst q \<longrightarrow> rhi p \<le> rlo q)
     \<and> (\<forall>p\<in>set c. rhi p \<le> unat MAX_FILE_EXTENT_HARD)"

definition ranges_len :: "ranges \<Rightarrow> nat" where
  "ranges_len c = foldr (\<lambda>p. max (rhi p)) c 0"

definition byte_at :: "ranges \<Rightarrow> nat \<Rightarrow> u8" where
  "byte_at c i = (case find (\<lambda>p. rlo p \<le> i \<and> i < rhi p) c of
     Some p \<Rightarrow> br_content (snd p) ! (i - rlo p) | None \<Rightarrow> 0)"

definition ranges_bytes :: "ranges \<Rightarrow> bytes" where
  "ranges_bytes c = map (byte_at c) [0..<ranges_len c]"

definition splice_at :: "bytes \<Rightarrow> nat \<Rightarrow> bytes \<Rightarrow> bytes" where
  "splice_at xs off ys = take off (xs @ replicate (off - length xs) 0) @ ys @ drop (off + length ys) xs"

definition file_ok :: "fs_file \<Rightarrow> bool" where
  "file_ok f \<longleftrightarrow> ranges_ok (f_cache f) \<and> ranges_ok (f_durable f) \<and> unat (f_length f) = ranges_len (f_cache f)"

section \<open>Replacing a window\<close>

definition dirty_range :: "u64 \<times> entry_hash \<times> bytes \<Rightarrow> u64 \<times> byte_range" where
  "dirty_range = (\<lambda>(s, w, c). (s, \<lparr>br_content = c, br_write_id = w, br_state = Dirty\<rparr>))"

text \<open>The part of a range in front of the window and the part behind it.\<close>

definition left_part :: "u64 \<Rightarrow> u64 \<times> byte_range \<Rightarrow> u64 \<times> entry_hash \<times> bytes" where
  "left_part ws p = (fst p, br_write_id (snd p), take (unat ws - rlo p) (br_content (snd p)))"

definition right_part :: "u64 \<Rightarrow> u64 \<times> byte_range \<Rightarrow> u64 \<times> entry_hash \<times> bytes" where
  "right_part we p = (we, br_write_id (snd p), drop (unat we - rlo p) (br_content (snd p)))"

abbreviation overlaps :: "nat \<Rightarrow> nat \<Rightarrow> u64 \<times> byte_range \<Rightarrow> bool" where
  "overlaps a b p \<equiv> rlo p < b \<and> a < rhi p"

definition window_parts :: "u64 \<Rightarrow> u64 \<Rightarrow> ranges \<Rightarrow> (u64 \<times> entry_hash \<times> bytes) set" where
  "window_parts ws we c = left_part ws ` {p \<in> set c. rlo p < unat ws \<and> unat ws < rhi p}
     \<union> right_part we ` {p \<in> set c. rlo p < unat we \<and> unat we < rhi p}"

text \<open>The writes of the ranges that reach beyond a position, and of those that hold bytes beyond it.\<close>

definition reaching :: "nat \<Rightarrow> ranges \<Rightarrow> entry_hash set" where
  "reaching a c = (\<lambda>p. br_write_id (snd p)) ` {p \<in> set c. a < rhi p}"

definition contributing :: "nat \<Rightarrow> ranges \<Rightarrow> entry_hash set" where
  "contributing a c = (\<lambda>p. br_write_id (snd p)) ` {p \<in> set c. rlo p < rhi p \<and> a < rhi p}"

section \<open>Ranges and bytes\<close>

lemma max_extent: "unat MAX_FILE_EXTENT_HARD = 1099511627776"
  by (simp add: MAX_FILE_EXTENT_HARD_def)

lemma range_end_unat: "rhi p \<le> unat MAX_FILE_EXTENT_HARD \<Longrightarrow> unat (range_end p) = rhi p"
  by (cases p) (simp add: rhi_def unat_saturating_add content_len_def max_extent unat_of_nat_u64)

lemma ranges_okD:
  assumes "ranges_ok c"
  shows "om_wf c" "\<And>p q. p \<in> set c \<Longrightarrow> q \<in> set c \<Longrightarrow> fst p < fst q \<Longrightarrow> rhi p \<le> rlo q"
    "\<And>p. p \<in> set c \<Longrightarrow> rhi p \<le> unat MAX_FILE_EXTENT_HARD"
  using assms by (auto simp: ranges_ok_def)

lemma byte_at_in:
  assumes "ranges_ok c" "p \<in> set c" "rlo p \<le> i" "i < rhi p"
  shows "byte_at c i = br_content (snd p) ! (i - rlo p)"
proof -
  have "find (\<lambda>p. rlo p \<le> i \<and> i < rhi p) c \<noteq> None" unfolding find_None_iff using assms by blast
  then obtain q where q: "find (\<lambda>p. rlo p \<le> i \<and> i < rhi p) c = Some q" by blast
  then have *: "q \<in> set c" "rlo q \<le> i" "i < rhi q" by (auto simp: find_Some_iff)
  have "q = p"
  proof (cases "fst q" "fst p" rule: linorder_cases)
    case less
    then show ?thesis using ranges_okD(2) [OF assms(1) *(1) assms(2) less] * assms by simp
  next
    case equal
    then show ?thesis using om_wf_key ranges_okD(1) assms * by blast
  next
    case greater
    then show ?thesis using ranges_okD(2) [OF assms(1,2) *(1) greater] * assms by simp
  qed
  then show ?thesis by (simp add: byte_at_def q)
qed

lemma byte_at_out: "\<forall>p\<in>set c. \<not> (rlo p \<le> i \<and> i < rhi p) \<Longrightarrow> byte_at c i = 0"
proof -
  assume "\<forall>p\<in>set c. \<not> (rlo p \<le> i \<and> i < rhi p)"
  then have "find (\<lambda>p. rlo p \<le> i \<and> i < rhi p) c = None" by (simp add: find_None_iff)
  then show ?thesis by (simp add: byte_at_def)
qed

lemma ranges_len_Max: "ranges_len c = Max (insert 0 (rhi ` set c))"
proof (induction c)
  case (Cons p c)
  have "Max (insert 0 (insert (rhi p) (rhi ` set c))) = max (rhi p) (Max (insert 0 (rhi ` set c)))"
    by (subst insert_commute) (subst Max.insert, simp_all)
  then show ?case using Cons by (simp add: ranges_len_def)
qed (simp add: ranges_len_def)

lemma rhi_le_len: "p \<in> set c \<Longrightarrow> rhi p \<le> ranges_len c"
  by (simp add: ranges_len_Max)

lemma byte_at_beyond: "ranges_len c \<le> i \<Longrightarrow> byte_at c i = 0"
  by (rule byte_at_out) (use rhi_le_len in fastforce)

lemma fst_dirty_range [simp]: "fst (dirty_range x) = fst x"
  by (simp add: dirty_range_def split: prod.splits)

lemma fold_insert_dirty:
  assumes "om_wf m" "\<And>x p. x \<in> set xs \<Longrightarrow> p \<in> set m \<union> dirty_range ` set xs \<Longrightarrow> fst p = fst x \<Longrightarrow> p = dirty_range x"
  shows "om_wf (fold (\<lambda>(s, w, c). insert_dirty s w c) xs m)
    \<and> set (fold (\<lambda>(s, w, c). insert_dirty s w c) xs m) = set m \<union> dirty_range ` set xs"
  using assms
proof (induction xs arbitrary: m)
  case (Cons x xs)
  obtain s w c where x: "x = (s, w, c)" by (cases x) auto
  let ?m = "insert_dirty s w c m"
  have ins: "om_wf ?m" "set ?m = insert (dirty_range x) {p \<in> set m. fst p \<noteq> s}"
    using Cons.prems(1) by (simp_all add: insert_dirty_def om_wf_insert set_om_insert dirty_range_def x)
  have "{p \<in> set m. fst p = s} \<subseteq> {dirty_range x}" 
  proof
    fix p assume "p \<in> {p \<in> set m. fst p = s}"
    then show "p \<in> {dirty_range x}" using Cons.prems(2) [of x p] by (simp add: x)
  qed
  then have set_m: "set ?m = insert (dirty_range x) (set m)" unfolding ins(2) by blast
  have "om_wf (fold (\<lambda>(s, w, c). insert_dirty s w c) xs ?m)
    \<and> set (fold (\<lambda>(s, w, c). insert_dirty s w c) xs ?m) = set ?m \<union> dirty_range ` set xs"
  proof (rule Cons.IH [OF ins(1)])
    fix y p assume "y \<in> set xs" "p \<in> set ?m \<union> dirty_range ` set xs" "fst p = fst y"
    then show "p = dirty_range y" using Cons.prems(2) [of y p] by (simp add: set_m)
  qed
  then show ?case by (simp add: x set_m [unfolded x])
qed simp

lemma unat_diff_word: "(b::u64) \<le> a \<Longrightarrow> unat (a - b) = unat a - unat b"
  by (simp add: unat_sub word_le_nat_alt)

lemma split_range_parts:
  assumes "rhi p \<le> unat MAX_FILE_EXTENT_HARD" "fst p < we"
  shows "set (split_range ws we p) =
    (if rlo p < unat ws then {left_part ws p} else {}) \<union> (if unat we < rhi p then {right_part we p} else {})"
proof -
  obtain s r where p: "p = (s, r)" by force
  have "unat (range_end (s, r)) = rhi p" using range_end_unat [OF assms(1)] p by simp
  moreover have "unat (we - s) = unat we - unat s" using assms(2) p by (simp add: unat_diff_word)
  moreover have "s < ws \<Longrightarrow> unat (ws - s) = unat ws - unat s" by (simp add: unat_diff_word)
  moreover have "s < ws \<longleftrightarrow> unat s < unat ws" "we < range_end (s, r) \<longleftrightarrow> unat we < unat (range_end (s, r))"
    by (simp_all add: word_less_nat_alt)
  moreover have "unat s < unat we" using assms(2) p by (simp add: word_less_nat_alt)
  moreover from calculation have "unat we - unat s < length (br_content r) \<longleftrightarrow> unat we < unat s + length (br_content r)"
    by linarith
  moreover have "take (min n (length xs)) xs = take n xs" for n and xs :: bytes by (simp add: min_def)
  ultimately show ?thesis
    by (cases "unat s < unat ws"; cases "unat we < rhi p")
      (simp_all add: p Let_def left_part_def right_part_def rhi_def insert_commute del: range_end.simps take_all_iff)
qed

lemma straddle_unique:
  assumes "ranges_ok c" "p \<in> set c" "q \<in> set c" "rlo p < a" "a < rhi p" "rlo q \<le> a" "a \<le> rhi q"
    "rlo q < a \<Longrightarrow> a < rhi q"
  shows "q = p"
proof (cases "fst q" "fst p" rule: linorder_cases)
  case less
  then have "rlo q < rlo p" by (simp add: word_less_nat_alt)
  then show ?thesis using ranges_okD(2) [OF assms(1,3,2) less] assms(4-) by linarith
next
  case equal
  then show ?thesis using om_wf_key [OF ranges_okD(1)] assms(1-3) by blast
next
  case greater
  then show ?thesis using ranges_okD(2) [OF assms(1,2,3) greater] assms(4-) by linarith
qed

lemma affected_set:
  assumes "ranges_ok c" "unat ws < unat we"
  shows "set (affected_ranges ws we c) = {p \<in> set c. overlaps (unat ws) (unat we) p}"
proof -
  have "1 \<le> we" using assms(2) by (simp add: word_le_nat_alt)
  then have "max we 1 = we" by (rule max_absorb1)
  moreover have "ws < range_end p \<longleftrightarrow> unat ws < rhi p" if "p \<in> set c" for p
    using range_end_unat [OF ranges_okD(3) [OF assms(1) that]] by (simp add: word_less_nat_alt)
  ultimately show ?thesis by (auto simp: affected_ranges_def word_less_nat_alt)
qed

lemma splits_set:
  assumes "ranges_ok c" "unat ws < unat we"
  shows "set (concat (map (split_range ws we) (affected_ranges ws we c))) = window_parts ws we c"
proof -
  have "set (split_range ws we p) = (if rlo p < unat ws then {left_part ws p} else {})
      \<union> (if unat we < rhi p then {right_part we p} else {})"
    if "p \<in> set c" "overlaps (unat ws) (unat we) p" for p
    using split_range_parts [OF ranges_okD(3) [OF assms(1) that(1)]] that(2) by (simp add: word_less_nat_alt)
  then have "set (concat (map (split_range ws we) (affected_ranges ws we c))) =
    (\<Union>p\<in>{p \<in> set c. overlaps (unat ws) (unat we) p}. (if rlo p < unat ws then {left_part ws p} else {})
      \<union> (if unat we < rhi p then {right_part we p} else {}))"
    by (simp add: affected_set [OF assms])
  also have "\<dots> = window_parts ws we c" using assms(2) by (auto simp: window_parts_def split: if_splits)
  finally show ?thesis .
qed

lemma window_parts_key:
  assumes "ranges_ok c" "unat ws < unat we" "x \<in> window_parts ws we c"
    "p \<in> {p \<in> set c. \<not> overlaps (unat ws) (unat we) p} \<union> dirty_range ` window_parts ws we c" "fst p = fst x"
  shows "p = dirty_range x"
proof -
  have ne: "a \<noteq> we" if "a \<in> fst ` {p \<in> set c. rlo p < unat ws}" for a
    using that assms(2) by auto
  consider (l) p' where "p' \<in> set c" "rlo p' < unat ws" "unat ws < rhi p'" "x = left_part ws p'"
    | (r) p' where "p' \<in> set c" "rlo p' < unat we" "unat we < rhi p'" "x = right_part we p'"
    using assms(3) by (auto simp: window_parts_def)
  then show ?thesis
  proof cases
    case l
    have "p \<notin> {p \<in> set c. \<not> overlaps (unat ws) (unat we) p}"
      using om_wf_key [OF ranges_okD(1) [OF assms(1)] l(1), of p] l assms(2,5) by (auto simp: left_part_def)
    then obtain y where y: "y \<in> window_parts ws we c" "p = dirty_range y" using assms(4) by auto
    have "fst y = fst p'" using assms(5) y l(4) by (simp add: left_part_def)
    then obtain q where "q \<in> set c" "y = left_part ws q"
      using y(1) ne [of "fst p'"] l(1,2) by (auto simp: window_parts_def right_part_def)
    moreover have "q = p'"
      using om_wf_key [OF ranges_okD(1) [OF assms(1)], of q p'] calculation \<open>fst y = fst p'\<close> l(1) by (simp add: left_part_def)
    ultimately show ?thesis using y(2) l(4) by simp
  next
    case r
    have "p \<notin> {p \<in> set c. \<not> overlaps (unat ws) (unat we) p}"
      using straddle_unique [OF assms(1) r(1) _ r(2,3), of p] r assms(2,5) by (auto simp: right_part_def rhi_def)
    then obtain y where y: "y \<in> window_parts ws we c" "p = dirty_range y" using assms(4) by auto
    have "fst y = we" using assms(5) y r(4) by (simp add: right_part_def)
    then obtain q where "q \<in> set c" "rlo q < unat we" "unat we < rhi q" "y = right_part we q"
      using y(1) assms(2) by (auto simp: window_parts_def left_part_def)
    moreover have "q = p'"
      using straddle_unique [OF assms(1) r(1) _ r(2,3), of q] calculation by simp
    ultimately show ?thesis using y(2) r(4) by simp
  qed
qed

lemma replace_window_set:
  assumes "ranges_ok c" "unat ws < unat we"
  shows "om_wf (replace_window ws we i content c)"
    "set (replace_window ws we i content c) = insert (dirty_range (ws, i, content))
      {p \<in> {p \<in> set c. \<not> overlaps (unat ws) (unat we) p} \<union> dirty_range ` window_parts ws we c. fst p \<noteq> ws}"
proof -
  let ?kept = "fold (\<lambda>p. om_remove (fst p)) (affected_ranges ws we c) c"
  let ?splits = "concat (map (split_range ws we) (affected_ranges ws we c))"
  have "fst p \<notin> fst ` {p \<in> set c. overlaps (unat ws) (unat we) p} \<longleftrightarrow> \<not> overlaps (unat ws) (unat we) p"
    if "p \<in> set c" for p
    using om_wf_key [OF ranges_okD(1) [OF assms(1)] that] that by blast
  then have kept: "om_wf ?kept" "set ?kept = {p \<in> set c. \<not> overlaps (unat ws) (unat we) p}"
    using fold_om_remove [OF ranges_okD(1) [OF assms(1)], of "affected_ranges ws we c"]
    unfolding affected_set [OF assms] by blast+
  have "om_wf (fold (\<lambda>(s, w, c). insert_dirty s w c) ?splits ?kept)
    \<and> set (fold (\<lambda>(s, w, c). insert_dirty s w c) ?splits ?kept) = set ?kept \<union> dirty_range ` set ?splits"
    by (rule fold_insert_dirty [OF kept(1)]) (use window_parts_key [OF assms] in \<open>simp only: kept(2) splits_set [OF assms]\<close>)
  then show "om_wf (replace_window ws we i content c)"
    "set (replace_window ws we i content c) = insert (dirty_range (ws, i, content))
      {p \<in> {p \<in> set c. \<not> overlaps (unat ws) (unat we) p} \<union> dirty_range ` window_parts ws we c. fst p \<noteq> ws}"
    unfolding replace_window_def Let_def insert_dirty_def [of ws] kept(2) splits_set [OF assms]
    by (simp_all only: om_wf_insert set_om_insert) (simp add: dirty_range_def)
qed

lemma dirty_parts:
  "rlo (dirty_range x) = unat (fst x)" "rhi (dirty_range x) = unat (fst x) + length (snd (snd x))"
  "br_content (snd (dirty_range x)) = snd (snd x)"
  by (simp_all add: dirty_range_def rhi_def split: prod.splits)

text \<open>What a range of the new cache is, as an interval of bytes of the old one.\<close>

lemma window_parts_range:
  assumes "x \<in> window_parts ws we c"
  obtains p where "p \<in> set c" "rlo p \<le> unat (fst x)" "unat (fst x) + length (snd (snd x)) \<le> rhi p"
    "unat (fst x) + length (snd (snd x)) \<le> unat ws \<and> unat (fst x) = rlo p \<or> unat (fst x) = unat we"
    "\<And>i. i < length (snd (snd x)) \<Longrightarrow> snd (snd x) ! i = br_content (snd p) ! (unat (fst x) + i - rlo p)"
  using assms unfolding window_parts_def
proof (elim UnE imageE)
  fix p assume x: "x = left_part ws p" and p: "p \<in> {p \<in> set c. rlo p < unat ws \<and> unat ws < rhi p}"
  then have "min (length (br_content (snd p))) (unat ws - rlo p) = unat ws - rlo p" by (auto simp: rhi_def)
  with p show thesis by (intro that [of p]) (simp_all add: left_part_def rhi_def x)
next
  fix p assume x: "x = right_part we p" and "p \<in> {p \<in> set c. rlo p < unat we \<and> unat we < rhi p}"
  then show thesis by (intro that [of p]) (simp_all add: right_part_def rhi_def x add.commute)
qed

lemma replace_window_cases:
  assumes "ranges_ok c" "unat ws < unat we" "unat we = unat ws + length content"
    "q \<in> set (replace_window ws we i content c)"
  obtains (new) "q = dirty_range (ws, i, content)" | (part) p where "p \<in> set c" "rlo p \<le> rlo q" "rhi q \<le> rhi p"
    "rhi q \<le> unat ws \<and> rlo q = rlo p \<or> unat we \<le> rlo q \<and> (rlo q = rlo p \<or> rlo q = unat we)"
    "\<And>j. j < length (br_content (snd q)) \<Longrightarrow> br_content (snd q) ! j = br_content (snd p) ! (rlo q + j - rlo p)"
proof -
  consider "q = dirty_range (ws, i, content)" | (old) "q \<in> set c" "\<not> overlaps (unat ws) (unat we) q" "fst q \<noteq> ws"
    | (part) x where "x \<in> window_parts ws we c" "q = dirty_range x" "fst q \<noteq> ws"
    using assms(4) unfolding replace_window_set(2) [OF assms(1,2)] by blast
  then show thesis
  proof cases
    case old
    then show thesis by (intro that(2) [of q]) auto
  next
    case part
    obtain p where "p \<in> set c" "rlo p \<le> unat (fst x)" "unat (fst x) + length (snd (snd x)) \<le> rhi p"
      "unat (fst x) + length (snd (snd x)) \<le> unat ws \<and> unat (fst x) = rlo p \<or> unat (fst x) = unat we"
      "\<And>i. i < length (snd (snd x)) \<Longrightarrow> snd (snd x) ! i = br_content (snd p) ! (unat (fst x) + i - rlo p)"
      using window_parts_range [OF part(1)] by blast
    then show thesis by (intro that(2) [of p]) (use part in \<open>auto simp: dirty_parts\<close>)
  qed (rule that(1))
qed

lemma replace_window_ok:
  assumes "ranges_ok c" "unat ws < unat we" "unat we = unat ws + length content" "unat we \<le> unat MAX_FILE_EXTENT_HARD"
  shows "ranges_ok (replace_window ws we i content c)"
  unfolding ranges_ok_def
proof (intro conjI ballI impI)
  show "om_wf (replace_window ws we i content c)" by (rule replace_window_set(1) [OF assms(1,2)])
next
  fix q assume "q \<in> set (replace_window ws we i content c)"
  with assms(1-3) show "rhi q \<le> unat MAX_FILE_EXTENT_HARD"
    by (cases rule: replace_window_cases)
      (use assms ranges_okD(3) [OF assms(1)] in \<open>force simp: dirty_parts\<close>)+
next
  fix p q assume p: "p \<in> set (replace_window ws we i content c)" and q: "q \<in> set (replace_window ws we i content c)"
    and "fst p < fst q"
  then have less: "rlo p < rlo q" by (simp add: word_less_nat_alt)
  have ends: "rlo (dirty_range (ws, i, content)) = unat ws" "rhi (dirty_range (ws, i, content)) = unat we"
    using assms(3) by (simp_all add: dirty_parts)
  have rlo_rhi: "rlo x \<le> rhi x" for x by (simp add: rhi_def)
  from assms(1-3) p show "rhi p \<le> rlo q"
  proof (cases rule: replace_window_cases)
    case new
    from assms(1-3) q show ?thesis
      by (cases rule: replace_window_cases) (use new less ends assms(2) rlo_rhi [of q] in auto)
  next
    case p': (part p')
    from assms(1-3) q show ?thesis
    proof (cases rule: replace_window_cases)
      case new
      then show ?thesis using new p'(4) less ends assms(2) by auto
    next
      case q': (part q')
      show ?thesis
      proof (cases "fst p'" "fst q'" rule: linorder_cases)
        case less
        then show ?thesis using ranges_okD(2) [OF assms(1) p'(1) q'(1)] p'(3) q'(2) by linarith
      next
        case equal
        then show ?thesis using p'(2,4) q'(2,4) \<open>rlo p < rlo q\<close> assms(2) rlo_rhi [of q] by auto
      next
        case greater
        then show ?thesis
          using ranges_okD(2) [OF assms(1) q'(1) p'(1)] p'(2) q'(3) \<open>rlo p < rlo q\<close> rlo_rhi [of q] by linarith
      qed
    qed
  qed
qed

lemma replace_window_new:
  assumes "ranges_ok c" "unat ws < unat we"
  shows "dirty_range (ws, i, content) \<in> set (replace_window ws we i content c)"
  by (simp add: replace_window_set [OF assms])

text \<open>Every byte outside the window is still covered by a range.\<close>

lemma replace_window_covers:
  assumes "ranges_ok c" "unat ws < unat we" "p \<in> set c" "rlo p \<le> j" "j < rhi p" "j < unat ws \<or> unat we \<le> j"
  shows "\<exists>q\<in>set (replace_window ws we i content c). rlo q \<le> j \<and> j < rhi q"
proof (cases "overlaps (unat ws) (unat we) p")
  case False
  then have "p \<in> set (replace_window ws we i content c)"
    using assms by (auto simp: replace_window_set [OF assms(1,2)])
  then show ?thesis using assms by blast
next
  case True
  define x where "x = (if j < unat ws then left_part ws p else right_part we p)"
  have "x \<in> window_parts ws we c"
    using True assms(3-6) by (auto simp: x_def window_parts_def)
  moreover have "fst x \<noteq> ws" using assms(2,4) by (auto simp: x_def left_part_def right_part_def)
  ultimately have "dirty_range x \<in> set (replace_window ws we i content c)"
    by (simp add: replace_window_set [OF assms(1,2)])
  moreover have "rlo (dirty_range x) \<le> j" "j < rhi (dirty_range x)"
    using assms(4-6) True by (auto simp: dirty_parts x_def left_part_def right_part_def rhi_def)
  ultimately show ?thesis by blast
qed

lemma replace_window_byte:
  assumes "ranges_ok c" "unat ws < unat we" "unat we = unat ws + length content" "unat we \<le> unat MAX_FILE_EXTENT_HARD"
  shows "byte_at (replace_window ws we i content c) j =
    (if unat ws \<le> j \<and> j < unat we then content ! (j - unat ws) else byte_at c j)"
proof -
  let ?c = "replace_window ws we i content c"
  have ok: "ranges_ok ?c" by (rule replace_window_ok [OF assms])
  consider (inside) "unat ws \<le> j" "j < unat we" | (kept) p where "j < unat ws \<or> unat we \<le> j" "p \<in> set c" "rlo p \<le> j" "j < rhi p"
    | (hole) "j < unat ws \<or> unat we \<le> j" "\<forall>p\<in>set c. \<not> (rlo p \<le> j \<and> j < rhi p)" by (meson not_le)
  then show ?thesis
  proof cases
    case inside
    then show ?thesis
      using byte_at_in [OF ok replace_window_new [OF assms(1,2)], of j] assms(3) by (simp add: dirty_parts)
  next
    case kept
    then obtain q where q: "q \<in> set ?c" "rlo q \<le> j" "j < rhi q" using replace_window_covers [OF assms(1,2)] by blast
    from assms(1-3) q(1) show ?thesis
    proof (cases rule: replace_window_cases)
      case new
      then show ?thesis using q kept(1) assms(3) by (auto simp: dirty_parts)
    next
      case r: (part p')
      have "byte_at ?c j = br_content (snd q) ! (j - rlo q)" by (rule byte_at_in [OF ok q])
      also have "\<dots> = br_content (snd p') ! (j - rlo p')" using r(2) r(5) [of "j - rlo q"] q by (simp add: rhi_def)
      also have "\<dots> = byte_at c j" using byte_at_in [OF assms(1) r(1), of j] q r(2,3) by simp
      finally show ?thesis using kept(1) by auto
    qed
  next
    case hole
    have "\<not> (rlo q \<le> j \<and> j < rhi q)" if "q \<in> set ?c" for q
      using assms(1-3) that
    proof (cases rule: replace_window_cases)
      case new
      then show ?thesis using hole(1) assms(3) by (auto simp: dirty_parts)
    next
      case (part p)
      then show ?thesis using hole(2) by fastforce
    qed
    then show ?thesis using hole byte_at_out by (metis not_less)
  qed
qed

lemma replace_window_len:
  assumes "ranges_ok c" "unat ws < unat we" "unat we = unat ws + length content"
  shows "ranges_len (replace_window ws we i content c) = max (ranges_len c) (unat we)"
proof (rule antisym)
  let ?c = "replace_window ws we i content c"
  have "rhi q \<le> max (ranges_len c) (unat we)" if "q \<in> set ?c" for q
    using assms that
  proof (cases rule: replace_window_cases)
    case new
    then show ?thesis using assms(3) by (simp add: dirty_parts)
  next
    case (part p)
    then show ?thesis using rhi_le_len [of p c] by simp
  qed
  then show "ranges_len ?c \<le> max (ranges_len c) (unat we)" by (simp add: ranges_len_Max [of ?c])
  have we: "unat we \<le> ranges_len ?c"
    using rhi_le_len [OF replace_window_new [OF assms(1,2)], of i content] assms(3) by (simp add: dirty_parts)
  have "rhi p \<le> ranges_len ?c" if p: "p \<in> set c" for p
  proof (cases "rhi p \<le> unat we \<or> rlo p = rhi p")
    case True
    then show ?thesis
    proof
      assume "rlo p = rhi p"
      then show ?thesis
        using p we rhi_le_len [of p ?c] assms(2)
        by (cases "unat we \<le> rlo p"; cases "fst p = ws") (auto simp: replace_window_set [OF assms(1,2)])
    qed (use we in simp)
  next
    case False
    then have "rlo p < rhi p" "unat we < rhi p" by (auto simp: rhi_def)
    then have "rlo p \<le> rhi p - 1" "rhi p - 1 < rhi p" "unat we \<le> rhi p - 1" by linarith+
    then obtain q where "q \<in> set ?c" "rhi p - 1 < rhi q"
      using replace_window_covers [OF assms(1,2) p, of "rhi p - 1"] by blast
    then show ?thesis using rhi_le_len [of q ?c] by simp
  qed
  then show "max (ranges_len c) (unat we) \<le> ranges_len ?c" using we by (simp add: ranges_len_Max [of c])
qed

lemma length_splice_at: "length (splice_at xs off ys) = max (length xs) (off + length ys)"
  by (simp add: splice_at_def)

lemma nth_splice_at: "i < length (splice_at xs off ys) \<Longrightarrow> splice_at xs off ys ! i =
   (if off \<le> i \<and> i < off + length ys then ys ! (i - off) else if i < length xs then xs ! i else 0)"
  by (auto simp: splice_at_def nth_append min_def)

lemma replace_window_bytes:
  assumes "ranges_ok c" "unat ws < unat we" "unat we = unat ws + length content" "unat we \<le> unat MAX_FILE_EXTENT_HARD"
  shows "ranges_bytes (replace_window ws we i content c) = splice_at (ranges_bytes c) (unat ws) content"
proof (rule nth_equalityI)
  fix j assume "j < length (ranges_bytes (replace_window ws we i content c))"
  then show "ranges_bytes (replace_window ws we i content c) ! j = splice_at (ranges_bytes c) (unat ws) content ! j"
    using assms(3) byte_at_beyond [of c j]
    by (simp add: ranges_bytes_def replace_window_len [OF assms(1-3)] replace_window_byte [OF assms] nth_splice_at length_splice_at)
qed (simp add: ranges_bytes_def replace_window_len [OF assms(1-3)] length_splice_at assms(3))

section \<open>Reading back\<close>

lemma byte_at_Cons:
  "byte_at (p # c) i = (if rlo p \<le> i \<and> i < rhi p then br_content (snd p) ! (i - rlo p) else byte_at c i)"
  by (simp add: byte_at_def)

lemma unat_saturating_sub: "unat (u64_saturating_sub a b) = unat a - unat b"
  by (simp add: u64_saturating_sub_def word_less_nat_alt unat_sub word_le_nat_alt)

lemma upt_split: "i \<le> j \<Longrightarrow> j \<le> k \<Longrightarrow> [i..<k] = [i..<j] @ [j..<k]"
  using upt_add_eq_append [of i j "k - j"] by simp

lemma map_replicate_zero: "(\<And>i. a \<le> i \<Longrightarrow> i < b \<Longrightarrow> f i = 0) \<Longrightarrow> map f [a..<b] = replicate (b - a) (0::u8)"
  by (rule nth_equalityI) simp_all

lemma reaching_Cons [simp]: "reaching a (p # c) = (if a < rhi p then {br_write_id (snd p)} else {}) \<union> reaching a c"
  by (auto simp: reaching_def)

lemma contributing_Cons [simp]:
  "contributing a (p # c) = (if rlo p < rhi p \<and> a < rhi p then {br_write_id (snd p)} else {}) \<union> contributing a c"
  by (auto simp: contributing_def)

lemma reaching_Nil [simp]: "reaching a [] = {}" "contributing a [] = {}"
  by (simp_all add: reaching_def contributing_def)

lemma copied_bytes:
  assumes "rlo p \<le> a" "a \<le> e" "e \<le> rhi p"
  shows "take (e - a) (drop (a - rlo p) (br_content (snd p))) = map (byte_at (p # c)) [a..<e]"
  by (rule nth_equalityI) (use assms in \<open>auto simp: rhi_def byte_at_Cons\<close>)

text \<open>
  The loop of \<open>read_bytes\<close> from a cursor: what it has copied, filled up with zeros to the end of the
  window, are the bytes from the cursor on, and it collects the writes of the ranges that reach beyond
  the cursor.
\<close>

lemma read_loop_bytes:
  assumes "sorted_wrt (\<lambda>p q. rhi p \<le> rlo q) c" "\<forall>p\<in>set c. rhi p \<le> unat MAX_FILE_EXTENT_HARD"
    "\<forall>p\<in>set c. rlo p < unat we \<or> rlo p \<le> unat cur" "unat cur \<le> unat we"
  shows "\<exists>cur' out' ps'. read_loop we c cur out ps = Some (cur', out', ps') \<and> unat cur' \<le> unat we
    \<and> out' @ replicate (unat we - unat cur') 0 = out @ map (byte_at c) [unat cur..<unat we]
    \<and> set ps' \<subseteq> set ps \<union> reaching (unat cur) c \<and> set ps \<union> contributing (unat cur) c \<subseteq> set ps'
    \<and> (sorted ps \<and> distinct ps \<longrightarrow> sorted ps' \<and> distinct ps')"
  using assms
proof (induction c arbitrary: cur out ps)
  case Nil
  then show ?case by (simp add: map_replicate_zero byte_at_def)
next
  case (Cons p c)
  obtain s r where p: "p = (s, r)" by force
  have hi: "unat (range_end (s, r)) = rhi p" using Cons.prems(2) range_end_unat [of p] p by simp
  show ?case
  proof (cases "rhi p \<le> unat cur")
    case True
    then have "range_end (s, r) \<le> cur" using hi by (simp add: word_le_nat_alt)
    then have step: "read_loop we (p # c) cur out ps = read_loop we c cur out ps" by (simp add: p del: range_end.simps)
    have "map (byte_at (p # c)) [unat cur..<unat we] = map (byte_at c) [unat cur..<unat we]"
      using True by (auto simp: byte_at_Cons)
    then show ?thesis using Cons.IH [of cur out ps] Cons.prems True by (simp only: step, simp)
  next
    case False
    define cur1 where "cur1 = (if s > cur then s else cur)"
    define out1 where "out1 = (if s > cur then out @ replicate (unat (s - cur)) 0 else out)"
    define len where "len = u64_saturating_sub (min (range_end (s, r)) we) cur1"
    define cur2 where "cur2 = u64_saturating_add cur1 len"
    define out2 where "out2 = out1 @ take (unat len) (drop (unat (cur1 - s)) (br_content r))"
    have lo: "rlo p < unat we \<or> rlo p \<le> unat cur" using Cons.prems(3) by simp
    have cur1: "unat cur1 = max (unat cur) (rlo p)" by (auto simp: cur1_def p word_less_nat_alt)
    have off: "unat (cur1 - s) = unat cur1 - rlo p" by (rule trans [OF unat_diff_word]) (auto simp: cur1_def p not_less)
    have len: "unat len = min (rhi p) (unat we) - unat cur1"
      using hi by (simp add: len_def unat_saturating_sub min_def word_le_nat_alt)
    have le: "unat cur1 \<le> min (rhi p) (unat we)" using cur1 lo False Cons.prems(4) by (auto simp: rhi_def)
    moreover have "unat we \<le> 18446744073709551615" using unat_u64_less [of we] by linarith
    ultimately have cur2: "unat cur2 = min (rhi p) (unat we)"
      using len by (simp add: cur2_def unat_saturating_add min.absorb1 min.coboundedI2)
    have bound: "unat (cur1 - s) + unat len \<le> length (br_content r)"
      using off len le cur1 by (simp add: p rhi_def)
    then have step: "read_loop we (p # c) cur out ps = read_loop we c cur2 out2 (insort_insert (br_write_id r) ps)"
      using False hi unfolding p read_loop.simps cur2_def out2_def
      by (auto simp: cur1_def out1_def len_def word_le_nat_alt Let_def)
    have rest: "\<forall>q\<in>set c. rhi p \<le> rlo q" using Cons.prems(1) by simp
    have "map (byte_at (p # c)) [unat cur..<unat cur1] = replicate (unat cur1 - unat cur) 0"
      by (rule map_replicate_zero) (use cur1 rest in \<open>auto simp: byte_at_Cons rhi_def intro!: byte_at_out\<close>)
    then have "out1 = out @ map (byte_at (p # c)) [unat cur..<unat cur1]"
      using cur1 by (auto simp: out1_def cur1_def word_less_nat_alt unat_diff_word word_le_nat_alt)
    moreover have "take (unat len) (drop (unat (cur1 - s)) (br_content r)) = map (byte_at (p # c)) [unat cur1..<unat cur2]"
      using copied_bytes [of p "unat cur1" "unat cur2" c] cur1 cur2 le len off by (simp add: p)
    moreover have "map (byte_at (p # c)) [unat cur2..<unat we] = map (byte_at c) [unat cur2..<unat we]"
      using cur2 by (auto simp: byte_at_Cons)
    moreover have "[unat cur..<unat we] = [unat cur..<unat cur1] @ [unat cur1..<unat cur2] @ [unat cur2..<unat we]"
      using cur1 cur2 le upt_split [of "unat cur" "unat cur1" "unat we"] upt_split [of "unat cur1" "unat cur2" "unat we"]
      by simp
    ultimately have bytes: "out2 @ map (byte_at c) [unat cur2..<unat we] = out @ map (byte_at (p # c)) [unat cur..<unat we]"
      by (simp add: out2_def)
    have "\<forall>q\<in>set c. rlo q < unat we \<or> rlo q \<le> unat cur2" using Cons.prems(3) rest False by fastforce
    then obtain cur' out' ps' where ih: "read_loop we c cur2 out2 (insort_insert (br_write_id r) ps) = Some (cur', out', ps')"
      "unat cur' \<le> unat we" "out' @ replicate (unat we - unat cur') 0 = out2 @ map (byte_at c) [unat cur2..<unat we]"
      "set ps' \<subseteq> set (insort_insert (br_write_id r) ps) \<union> reaching (unat cur2) c"
      "set (insort_insert (br_write_id r) ps) \<union> contributing (unat cur2) c \<subseteq> set ps'"
      "sorted (insort_insert (br_write_id r) ps) \<and> distinct (insort_insert (br_write_id r) ps) \<longrightarrow> sorted ps' \<and> distinct ps'"
      using Cons.IH [of cur2 out2 "insort_insert (br_write_id r) ps"] Cons.prems cur2 by auto
    have "reaching (unat cur2) c \<subseteq> reaching (unat cur) c"
      using False cur2 cur1 le by (auto simp: reaching_def)
    moreover have "contributing (unat cur) c \<subseteq> contributing (unat cur2) c"
      using rest cur2 by (fastforce simp: contributing_def)
    moreover have ins: "set (insort_insert (br_write_id r) ps) = insert (br_write_id r) (set ps)"
      by (rule set_insort_insert)
    ultimately have "set ps' \<subseteq> set ps \<union> reaching (unat cur) (p # c)" "set ps \<union> contributing (unat cur) (p # c) \<subseteq> set ps'"
      using ih(4,5) False by (auto simp: p)
    moreover have "sorted ps \<and> distinct ps \<longrightarrow> sorted ps' \<and> distinct ps'"
      using ih(6) by (simp add: sorted_insort_insert distinct_insort_insert)
    ultimately show ?thesis using ih(1-3) unfolding step bytes by blast
  qed
qed

section \<open>Files\<close>

lemma ranges_sorted: "ranges_ok c \<Longrightarrow> sorted_wrt (\<lambda>p q. rhi p \<le> rlo q) c"
proof -
  assume ok: "ranges_ok c"
  then have "sorted_wrt (\<lambda>p q. fst p < fst q) c"
    using ranges_okD(1) [OF ok] by (simp add: om_wf_def sorted_wrt_map)
  then show ?thesis by (rule sorted_wrt_mono_rel [rotated]) (use ranges_okD(2) [OF ok] in blast)
qed

text \<open>The page state of a range has no bearing on its bytes.\<close>

lemma clean_ranges:
  fixes c :: ranges
  defines "c' \<equiv> map (\<lambda>(offset, range). (offset, range\<lparr>br_state := Clean\<rparr>)) c"
  shows "ranges_ok c \<Longrightarrow> ranges_ok c'" "ranges_bytes c' = ranges_bytes c"
proof -
  have rhi: "rhi (s, r\<lparr>br_state := Clean\<rparr>) = rhi (s, r)" for s r by (simp add: rhi_def)
  show "ranges_ok c \<Longrightarrow> ranges_ok c'"
    unfolding ranges_ok_def c'_def by (auto simp: om_wf_map_snd rhi) force
  have "byte_at c' i = byte_at c i" for i
    unfolding c'_def by (induction c) (auto simp: byte_at_Cons byte_at_def [of "[]"] rhi)
  moreover have "ranges_len c' = ranges_len c"
    unfolding c'_def by (induction c) (auto simp: ranges_len_def rhi)
  ultimately show "ranges_bytes c' = ranges_bytes c" by (simp add: ranges_bytes_def)
qed

lemma fold_max_unat: "unat (fold max es (e::u64)) = fold max (map unat es) (unat e)"
  by (induction es arbitrary: e) (auto simp: max_def word_le_nat_alt)

lemma recomputed_length:
  assumes "ranges_ok (f_cache f)"
  shows "unat (f_length (recompute_length f)) = ranges_len (f_cache f)"
proof -
  have ends: "map (unat \<circ> range_end) (f_cache f) = map rhi (f_cache f)"
    using range_end_unat ranges_okD(3) [OF assms] by auto
  have "unat (case map range_end c of [] \<Rightarrow> 0 | e # es \<Rightarrow> fold max es e) = fold max (map (unat \<circ> range_end) c) 0" for c
    by (cases c) (simp_all add: fold_max_unat)
  moreover have "fold max (map rhi c) a = max a (ranges_len c)" for c a
    by (induction c arbitrary: a) (simp_all add: ranges_len_def max.assoc max.commute)
  ultimately show ?thesis by (simp add: recompute_length_def ends)
qed

end

