(* ===== verification/Sim_Fs.thy ===== *)
theory Sim_Fs
  imports Sim_File
begin

text \<open>
  The storage simulator (\<open>ledger-sim/src/simfs.rs\<close>): a table of files, the journaled operations on it
  and the crash operators. The Boolean argument \<open>journaling\<close> is the build feature \<open>sim-fs-journaling\<close>;
  without it the pending journal and the pending renames stay empty.
\<close>

section \<open>Errors\<close>

text \<open>
  Paths are the bytes of their UTF-8 text. \<open>FsPanic\<close> is not a variant of the source: it stands for the
  panic of a checked build (an overflowing addition, a slice out of range, a failed debug assertion).
\<close>

datatype sim_fs_error =
    AlreadyExists bytes
  | NotFound bytes
  | WriteTooLarge u64 u64
  | ReadTooLarge u64 u64
  | FileExtentTooLarge u64
  | BudgetExhausted string
  | UnknownWriteTarget
  | UnaddressablePath bytes
  | EmptyXor
  | BitOutOfRange u8
  | FsJournal journal_error
  | FsPanic string

definition byte_text :: "bytes \<Rightarrow> string" where
  "byte_text b = map (\<lambda>x. char_of (unat x)) b"

definition dec :: "u64 \<Rightarrow> string" where
  "dec n = digits 10 (unat n)"

primrec journal_error_display :: "journal_error \<Rightarrow> string" where
  "journal_error_display (MissingParent h) = ''missing parent '' @ short_id h"
| "journal_error_display (NonMonotonicSequence a e n) =
     ''actor '' @ digits 10 (unat (actor_val a)) @ '' expected sequence '' @ dec e @ '', got '' @ dec n"
| "journal_error_display (InvariantViolation msg) = ''journal invariant violated: '' @ msg"
| "journal_error_display (InvalidPayload msg) = ''payload cannot be canonically encoded: '' @ msg"
| "journal_error_display (SegmentCorrupt msg) = ''corrupt segment: '' @ msg"
| "journal_error_display SnapshotHashMismatch = ''snapshot state hash mismatch''"
| "journal_error_display (SnapshotStoreError msg) = ''corrupt snapshot store: '' @ msg"
| "journal_error_display ArchiveHashMismatch = ''corrupt archive: hash chain mismatch''"

primrec sim_fs_error_display :: "sim_fs_error \<Rightarrow> string" where
  "sim_fs_error_display (AlreadyExists p) = ''file already exists: '' @ byte_text p"
| "sim_fs_error_display (NotFound p) = ''file not found: '' @ byte_text p"
| "sim_fs_error_display (WriteTooLarge n m) = ''write of '' @ dec n @ '' bytes exceeds the '' @ dec m @ '' byte limit''"
| "sim_fs_error_display (ReadTooLarge n m) = ''read of '' @ dec n @ '' bytes exceeds the '' @ dec m @ '' byte limit''"
| "sim_fs_error_display (FileExtentTooLarge m) = ''file extent would exceed the '' @ dec m @ '' byte hard limit''"
| "sim_fs_error_display (BudgetExhausted s) = ''resident budget exhausted: '' @ s"
| "sim_fs_error_display UnknownWriteTarget = ''crash operator targets unknown write entry''"
| "sim_fs_error_display (UnaddressablePath p) = ''crash operator path is not addressable: '' @ byte_text p"
| "sim_fs_error_display EmptyXor = ''crash operator has an empty XOR payload''"
| "sim_fs_error_display (BitOutOfRange b) = ''crash operator bit '' @ digits 10 (unat b) @ '' is out of range 0..8''"
| "sim_fs_error_display (FsJournal e) = journal_error_display e"
| "sim_fs_error_display (FsPanic s) = s"

definition into_journal :: "sim_fs_error \<Rightarrow> journal_error" where
  "into_journal e = InvalidPayload (sim_fs_error_display e)"

section \<open>Paths\<close>

text \<open>\<open>b"ldgr.fs.path.v2\0"\<close>\<close>

definition PATH_DOMAIN :: bytes where
  "PATH_DOMAIN = [108, 100, 103, 114, 46, 102, 115, 46, 112, 97, 116, 104, 46, 118, 50, 0]"

definition path_ref :: "hasher \<Rightarrow> bytes \<Rightarrow> path_ref" where
  "path_ref blake3 p =
     (let canonical = (case canonicalize p of Inr c \<Rightarrow> c | Inl _ \<Rightarrow> p)
      in \<lparr>path_hash = take 32 (blake3 (PATH_DOMAIN @ canonical)), canonical_path = canonical\<rparr>)"

definition path_key :: "hasher \<Rightarrow> bytes \<Rightarrow> bytes" where
  "path_key blake3 p = (let c = canonical_path (path_ref blake3 p) in if utf8_valid c then c else p)"

section \<open>The store\<close>

definition MAX_WRITE_BYTES :: u64 where "MAX_WRITE_BYTES = 16 * 1024 * 1024"

definition MAX_READ_BYTES :: u64 where "MAX_READ_BYTES = 16 * 1024 * 1024"

datatype journaling_mode = Writeback | Ordered | DataMode

record sim_fs =
  fs_files :: "(bytes \<times> fs_file) list"
  fs_max_file_extent :: u64
  fs_max_resident_bytes :: "u64 option"
  fs_journal :: "(bytes \<times> (u64 \<times> entry_hash) list) list"
  fs_pending_renames :: "(bytes \<times> bytes) list"
  fs_journal_mode :: journaling_mode

definition sim_fs_default :: sim_fs where
  "sim_fs_default = \<lparr>fs_files = [], fs_max_file_extent = 0, fs_max_resident_bytes = None, fs_journal = [],
     fs_pending_renames = [], fs_journal_mode = DataMode\<rparr>"

definition sim_fs_new :: sim_fs where
  "sim_fs_new = sim_fs_default\<lparr>fs_max_file_extent := MAX_FILE_EXTENT_HARD, fs_max_resident_bytes := None\<rparr>"

definition with_budgets :: "u64 \<Rightarrow> u64 option \<Rightarrow> sim_fs" where
  "with_budgets extent resident =
     sim_fs_default\<lparr>fs_max_file_extent := min extent MAX_FILE_EXTENT_HARD, fs_max_resident_bytes := resident\<rparr>"

definition file_mut :: "bytes \<Rightarrow> (fs_file \<Rightarrow> fs_file) \<Rightarrow> sim_fs \<Rightarrow> sim_fs" where
  "file_mut key f fs =
     (let file = (case map_of (fs_files fs) key of Some x \<Rightarrow> x | None \<Rightarrow> file_default)
      in fs\<lparr>fs_files := om_insert key (f file) (fs_files fs)\<rparr>)"

text \<open>The sums of \<open>u64\<close> lengths of what is in memory do not wrap; the saturating sums are written out.\<close>

definition sat :: "nat \<Rightarrow> nat" where
  "sat n = min n 18446744073709551615"

definition charge_resident :: "sim_fs \<Rightarrow> nat \<Rightarrow> bool \<Rightarrow> bool \<Rightarrow> sim_fs_error + unit" where
  "charge_resident fs additional_bytes new_range new_path =
     (case fs_max_resident_bytes fs of
        None \<Rightarrow> Inr ()
      | Some budget \<Rightarrow>
          let content = sum_list (map (\<lambda>(_, file). sum_list (map (\<lambda>(_, r). length (br_content r)) (f_cache file))) (fs_files fs));
              range_nodes = sum_list (map (\<lambda>(_, file). length (f_cache file)) (fs_files fs));
              paths = length (fs_files fs);
              charged = sat (sat (sat (content + additional_bytes)
                + sat (sat (range_nodes + of_bool new_range) * 64)) + sat (sat (paths + of_bool new_path) * 128))
          in if charged > unat budget then Inl (BudgetExhausted ''resident byte budget'') else Inr ())"

section \<open>Mutations\<close>

type_synonym 'a fs_call = "sim_fs \<times> journal_state \<Rightarrow> (sim_fs_error + 'a) \<times> sim_fs \<times> journal_state"

text \<open>\<open>journal.append(..)?\<close> followed by the rest of the operation.\<close>

definition fs_append :: "hasher \<Rightarrow> bool \<Rightarrow> entry_kind \<Rightarrow> actor_id \<Rightarrow> entry_hash list \<Rightarrow> entry_payload
     \<Rightarrow> (entry_hash \<Rightarrow> sim_fs \<Rightarrow> 'a \<times> sim_fs) \<Rightarrow> 'a fs_call" where
  "fs_append blake3 base_unique kind a parents p k = (\<lambda>(fs, j).
     case append blake3 base_unique kind a parents p j of
       (Inl err, j') \<Rightarrow> (Inl (FsJournal err), fs, j')
     | (Inr i, j') \<Rightarrow> let (x, fs') = k i fs in (Inr x, fs', j'))"

definition check_write :: "sim_fs \<Rightarrow> u64 \<Rightarrow> nat \<Rightarrow> sim_fs_error + u64" where
  "check_write fs offset len =
     (if len > unat MAX_WRITE_BYTES then Inl (WriteTooLarge (of_nat len) MAX_WRITE_BYTES)
      else if unat offset + len > 18446744073709551615 then Inl (FileExtentTooLarge (fs_max_file_extent fs))
      else let window_end = offset + of_nat len
        in if window_end > fs_max_file_extent fs then Inl (FileExtentTooLarge (fs_max_file_extent fs)) else Inr window_end)"

definition write_file :: "bool \<Rightarrow> u64 \<Rightarrow> u64 \<Rightarrow> entry_hash \<Rightarrow> bytes \<Rightarrow> fs_file \<Rightarrow> fs_file" where
  "write_file present offset window_end i content f =
     (let f1 = (if \<not> present then f\<lparr>f_created_by := Some i\<rparr> else f)
      in f1\<lparr>f_length := max (f_length f1) window_end, f_cache := replace_window offset window_end i content (f_cache f1)\<rparr>)"

definition journal_write :: "bool \<Rightarrow> bytes \<Rightarrow> u64 \<Rightarrow> entry_hash \<Rightarrow> sim_fs \<Rightarrow> sim_fs" where
  "journal_write journaling key offset i fs =
     (if journaling then fs\<lparr>fs_journal := om_insert key
        ((case map_of (fs_journal fs) key of Some ws \<Rightarrow> ws | None \<Rightarrow> []) @ [(offset, i)]) (fs_journal fs)\<rparr>
      else fs)"

definition write_bytes :: "hasher \<Rightarrow> bool \<Rightarrow> bool \<Rightarrow> actor_id \<Rightarrow> bytes \<Rightarrow> u64 \<Rightarrow> bytes \<Rightarrow> entry_hash fs_call" where
  "write_bytes blake3 base_unique journaling a path offset content = (\<lambda>(fs, j).
     let len = length content
     in case check_write fs offset len of
       Inl err \<Rightarrow> (Inl err, fs, j)
     | Inr window_end \<Rightarrow>
       let key = path_key blake3 path; present = map_of (fs_files fs) key \<noteq> None
       in case charge_resident fs len (\<not> present \<or> len > 0) (\<not> present) of
         Inl err \<Rightarrow> (Inl err, fs, j)
       | Inr _ \<Rightarrow> fs_append blake3 base_unique KFsWrite a [] (FsWrite (Write (path_ref blake3 path) offset content))
           (\<lambda>i fs. (i, if len = 0 then fs
              else journal_write journaling key offset i
                (file_mut key (write_file present offset window_end i content) fs))) (fs, j))"

definition fs_write :: "hasher \<Rightarrow> bool \<Rightarrow> bool \<Rightarrow> actor_id \<Rightarrow> bytes \<Rightarrow> u64
     \<Rightarrow> sim_fs \<times> journal_state \<Rightarrow> (journal_error + entry_hash) \<times> sim_fs \<times> journal_state" where
  "fs_write blake3 base_unique journaling a path v st =
     (let (r, st') = write_bytes blake3 base_unique journaling a path 0 (le_bytes 8 (unat v)) st
      in (map_err into_journal r, st'))"

definition allocate :: "hasher \<Rightarrow> bool \<Rightarrow> actor_id \<Rightarrow> bytes \<Rightarrow> entry_hash fs_call" where
  "allocate blake3 base_unique a path = (\<lambda>(fs, j).
     let key = path_key blake3 path
     in if map_of (fs_files fs) key \<noteq> None then (Inl (AlreadyExists path), fs, j)
        else case charge_resident fs 0 True True of
          Inl err \<Rightarrow> (Inl err, fs, j)
        | Inr _ \<Rightarrow> fs_append blake3 base_unique KFsWrite a [] (FsWrite (Allocate (path_ref blake3 path)))
            (\<lambda>i fs. (i, file_mut key (\<lambda>f. f\<lparr>f_created_by := Some i\<rparr>) fs)) (fs, j))"

section \<open>Reading\<close>

text \<open>The bytes a present file shows in a window, with the writes they come from.\<close>

definition read_window :: "fs_file \<Rightarrow> u64 \<Rightarrow> u64 \<Rightarrow> sim_fs_error + bytes \<times> entry_hash list" where
  "read_window file offset requested_len =
     (let available = u64_saturating_sub (f_length file) offset;
          take_len = min available requested_len;
          window_end = u64_saturating_add offset take_len
      in if offset = 18446744073709551615 then Inl (FsPanic ''attempt to add with overflow'')
         else case read_loop window_end (filter (\<lambda>p. fst p < max window_end (offset + 1)) (f_cache file)) offset [] [] of
           None \<Rightarrow> Inl (FsPanic ''range end index out of range'')
         | Some (cursor, out, parents) \<Rightarrow>
             let out' = (if cursor < window_end then out @ replicate (unat (window_end - cursor)) 0 else out)
             in if length out' \<noteq> unat take_len then Inl (FsPanic ''assertion failed: out.len() == take'')
                else Inr (out', sort (if parents = [] then (case f_created_by file of Some c \<Rightarrow> [c] | None \<Rightarrow> [])
                                      else parents)))"

definition read_bytes :: "hasher \<Rightarrow> bool \<Rightarrow> actor_id \<Rightarrow> bytes \<Rightarrow> u64 \<Rightarrow> u64 \<Rightarrow> observed_read fs_call" where
  "read_bytes blake3 base_unique a path offset requested_len = (\<lambda>(fs, j).
     let payload = (\<lambda>obs. FsRead \<lparr>fr_path_ref = path_ref blake3 path, fr_offset = offset,
           fr_requested_len = requested_len, fr_observed = obs\<rparr>)
     in if requested_len > MAX_READ_BYTES then (Inl (ReadTooLarge requested_len MAX_READ_BYTES), fs, j)
        else case map_of (fs_files fs) (path_key blake3 path) of
          None \<Rightarrow> fs_append blake3 base_unique KFsRead a [] (payload Missing) (\<lambda>_ fs. (Missing, fs)) (fs, j)
        | Some file \<Rightarrow>
            (case read_window file offset requested_len of
               Inl err \<Rightarrow> (Inl err, fs, j)
             | Inr (out, parents) \<Rightarrow>
                 fs_append blake3 base_unique KFsRead a parents (payload (Present out)) (\<lambda>_ fs. (Present out, fs)) (fs, j)))"

definition fs_read :: "hasher \<Rightarrow> bool \<Rightarrow> actor_id \<Rightarrow> bytes
     \<Rightarrow> sim_fs \<times> journal_state \<Rightarrow> (journal_error + u64 option) \<times> sim_fs \<times> journal_state" where
  "fs_read blake3 base_unique a path st =
     (let (r, st') = read_bytes blake3 base_unique a path 0 8 st
      in (res_map (\<lambda>obs. case obs of Missing \<Rightarrow> None
            | Present content \<Rightarrow> let n = min (length content) 8
                in Some (of_nat (le_val (take n content @ replicate (8 - n) 0)))) (map_err into_journal r), st'))"

section \<open>Barriers and renames\<close>

definition mark_clean :: "(u64 \<times> entry_hash) list \<Rightarrow> ranges \<Rightarrow> ranges" where
  "mark_clean = fold (\<lambda>(offset, i) c. case map_of c offset of
     Some r \<Rightarrow> if br_write_id r = i then om_insert offset (r\<lparr>br_state := Clean\<rparr>) c else c | None \<Rightarrow> c)"

definition update_file :: "bytes \<Rightarrow> (fs_file \<Rightarrow> fs_file) \<Rightarrow> (bytes \<times> fs_file) list \<Rightarrow> (bytes \<times> fs_file) list" where
  "update_file key f files = (case map_of files key of Some x \<Rightarrow> om_insert key (f x) files | None \<Rightarrow> files)"

definition rename_file :: "bytes \<times> bytes \<Rightarrow> (bytes \<times> fs_file) list \<Rightarrow> (bytes \<times> fs_file) list" where
  "rename_file = (\<lambda>(src, dst) files.
     case map_of files src of Some x \<Rightarrow> om_insert dst x (om_remove src files) | None \<Rightarrow> files)"

definition commit_journaled :: "sim_fs \<Rightarrow> sim_fs" where
  "commit_journaled fs =
     (let files1 = fold (\<lambda>(path, ws). update_file path (\<lambda>f. f\<lparr>f_cache := mark_clean ws (f_cache f)\<rparr>)) (fs_journal fs) (fs_files fs)
      in fs\<lparr>fs_files := fold rename_file (fs_pending_renames fs) files1, fs_journal := [], fs_pending_renames := []\<rparr>)"

definition persist_all :: "sim_fs \<Rightarrow> sim_fs" where
  "persist_all fs = fs\<lparr>fs_files := map (\<lambda>(k, f). (k, persist f)) (fs_files fs)\<rparr>"

definition fsync :: "hasher \<Rightarrow> bool \<Rightarrow> bool \<Rightarrow> actor_id
     \<Rightarrow> sim_fs \<times> journal_state \<Rightarrow> (journal_error + entry_hash) \<times> sim_fs \<times> journal_state" where
  "fsync blake3 base_unique journaling a = (\<lambda>(fs, j).
     case append blake3 base_unique KFsFsync a [] (FsFsync \<lparr>fy_path_ref = path_ref blake3 [47]\<rparr>) j of
       (Inl err, j') \<Rightarrow> (Inl err, fs, j')
     | (Inr i, j') \<Rightarrow> (Inr i, persist_all (if journaling then commit_journaled fs else fs), j'))"

definition fsync_path :: "hasher \<Rightarrow> bool \<Rightarrow> actor_id \<Rightarrow> bytes \<Rightarrow> entry_hash fs_call" where
  "fsync_path blake3 base_unique a path = (\<lambda>(fs, j).
     let key = path_key blake3 path
     in if map_of (fs_files fs) key = None then (Inl (NotFound path), fs, j)
        else fs_append blake3 base_unique KFsFsync a [] (FsFsync \<lparr>fy_path_ref = path_ref blake3 path\<rparr>)
          (\<lambda>i fs. (i, fs\<lparr>fs_files := update_file key persist (fs_files fs)\<rparr>)) (fs, j))"

definition rename :: "hasher \<Rightarrow> bool \<Rightarrow> bool \<Rightarrow> actor_id \<Rightarrow> bytes \<Rightarrow> bytes \<Rightarrow> entry_hash fs_call" where
  "rename blake3 base_unique journaling a src dst = (\<lambda>(fs, j).
     let from_key = path_key blake3 src; to_key = path_key blake3 dst
     in if map_of (fs_files fs) from_key = None then (Inl (NotFound src), fs, j)
        else fs_append blake3 base_unique KFsWrite a [] (FsWrite (Rename (path_ref blake3 src) (path_ref blake3 dst)))
          (\<lambda>i fs. (i, if from_key = to_key then fs
             else let fs1 = fs\<lparr>fs_files := rename_file (from_key, to_key) (fs_files fs)\<rparr>
               in if journaling then fs1\<lparr>fs_pending_renames := om_insert from_key to_key (fs_pending_renames fs1)\<rparr>
                  else fs1)) (fs, j))"

definition append_tear :: "hasher \<Rightarrow> bool \<Rightarrow> bool \<Rightarrow> actor_id \<Rightarrow> bytes \<Rightarrow> u64 \<Rightarrow> entry_hash fs_call" where
  "append_tear blake3 base_unique journaling a path v = (\<lambda>(fs, j).
     let offset = (case map_of (fs_files fs) (path_key blake3 path) of Some f \<Rightarrow> f_length f | None \<Rightarrow> 0)
     in write_bytes blake3 base_unique journaling a path offset (le_bytes 8 (unat v)) (fs, j))"

section \<open>Crashes\<close>

text \<open>
  \<open>String::from_utf8_lossy\<close>: the longest prefix of a well-formed sequence that is not one is replaced
  by U+FFFD. The length of the first character, or of the prefix to replace.
\<close>

definition utf8_head :: "bytes \<Rightarrow> nat" where
  "utf8_head b =
     (case b of
        [] \<Rightarrow> 0
      | a # r \<Rightarrow>
          let lead = (if 0xc2 \<le> a \<and> a \<le> 0xdf then 2 else if 0xe0 \<le> a \<and> a \<le> 0xef then 3
                else if 0xf0 \<le> a \<and> a \<le> 0xf4 then 4 else (1::nat));
              snd_ok = (\<lambda>c. cont_byte c \<and> (a = 0xe0 \<longrightarrow> 0xa0 \<le> c) \<and> (a = 0xed \<longrightarrow> c \<le> 0x9f)
                \<and> (a = 0xf0 \<longrightarrow> 0x90 \<le> c) \<and> (a = 0xf4 \<longrightarrow> c \<le> 0x8f))
          in if lead = 1 \<or> r = [] \<or> \<not> snd_ok (hd r) then 1
             else if lead = 2 \<or> length r < 2 \<or> \<not> cont_byte (r ! 1) then 2
             else if lead = 3 \<or> length r < 3 \<or> \<not> cont_byte (r ! 2) then 3 else 4)"

function from_utf8_lossy :: "bytes \<Rightarrow> bytes" where
  "from_utf8_lossy b =
     (if b = [] then []
      else let n = utf8_head b
        in (if utf8_valid (take n b) then take n b else [0xef, 0xbf, 0xbd]) @ from_utf8_lossy (drop n b))"
  by pat_completeness auto
termination
  by (relation "measure length") (auto simp: utf8_head_def Let_def split: list.splits)

fun drop_keys :: "path_ref list \<Rightarrow> bytes list \<Rightarrow> sim_fs_error + bytes list" where
  "drop_keys [] keys = Inr keys"
| "drop_keys (p # ps) keys =
     (if \<not> utf8_valid (canonical_path p) then Inl (UnaddressablePath (from_utf8_lossy (canonical_path p)))
      else if canonical_path p \<in> set keys then Inl (AlreadyExists (canonical_path p))
      else drop_keys ps (keys @ [canonical_path p]))"

definition drop_path :: "bytes \<Rightarrow> (bytes \<times> fs_file) list \<Rightarrow> (bytes \<times> fs_file) list" where
  "drop_path key files =
     (case map_of files key of
        None \<Rightarrow> files
      | Some f \<Rightarrow> let (survives, f') = drop_unsynced f; files' = om_insert key f' files
          in if survives then files' else om_remove key files')"

text \<open>The first range in file and offset order that carries the write, updated by \<open>g\<close>.\<close>

fun target_range :: "entry_hash \<Rightarrow> (byte_range \<Rightarrow> sim_fs_error + byte_range) \<Rightarrow> (fs_file \<Rightarrow> fs_file)
     \<Rightarrow> (bytes \<times> fs_file) list \<Rightarrow> sim_fs_error + (bytes \<times> fs_file) list" where
  "target_range i g h [] = Inl UnknownWriteTarget"
| "target_range i g h ((k, f) # files) =
     (case find (\<lambda>p. br_write_id (snd p) = i) (f_cache f) of
        Some (s, r) \<Rightarrow> res_bind (g r) (\<lambda>r'. Inr ((k, h (f\<lparr>f_cache := om_insert s r' (f_cache f)\<rparr>)) # files))
      | None \<Rightarrow> res_bind (target_range i g h files) (\<lambda>files'. Inr ((k, f) # files')))"

fun xor_window :: "bytes \<Rightarrow> bytes \<Rightarrow> bytes" where
  "xor_window (b # bs) (x # xs) = (b XOR x) # xor_window bs xs"
| "xor_window bs xs = bs"

definition tear_range :: "u64 \<Rightarrow> byte_range \<Rightarrow> sim_fs_error + byte_range" where
  "tear_range prefix r = (if unat prefix > length (br_content r) then Inl UnknownWriteTarget
     else Inr (r\<lparr>br_content := take (unat prefix) (br_content r), br_state := Dirty\<rparr>))"

definition corrupt_range :: "u64 \<Rightarrow> bytes \<Rightarrow> byte_range \<Rightarrow> sim_fs_error + byte_range" where
  "corrupt_range offset xs r = (if unat offset \<ge> length (br_content r) then Inl UnknownWriteTarget
     else Inr (r\<lparr>br_content := take (unat offset) (br_content r) @ xor_window (drop (unat offset) (br_content r)) xs\<rparr>))"

definition flip_bit :: "u64 \<Rightarrow> u8 \<Rightarrow> byte_range \<Rightarrow> sim_fs_error + byte_range" where
  "flip_bit offset b r = (if unat offset \<ge> length (br_content r) then Inl UnknownWriteTarget
     else Inr (r\<lparr>br_content := (br_content r)[unat offset := (br_content r ! unat offset) XOR push_bit (unat b) 1]\<rparr>))"

fun crash_files :: "crash_operation \<Rightarrow> (bytes \<times> fs_file) list \<Rightarrow> sim_fs_error + (bytes \<times> fs_file) list" where
  "crash_files DropAllUnsynced files =
     Inr (om_retain (\<lambda>f. let (survives, f') = drop_unsynced f in if survives then Some f' else None) files)"
| "crash_files (DropPaths paths) files = res_bind (drop_keys paths []) (\<lambda>keys. Inr (fold drop_path keys files))"
| "crash_files (TornWrite i prefix) files = target_range i (tear_range prefix) recompute_length files"
| "crash_files (CorruptRange i offset xs) files =
     (if xs = [] then Inl EmptyXor else target_range i (corrupt_range offset xs) (\<lambda>f. f) files)"
| "crash_files (BitFlip i offset b) files =
     (if b > 7 then Inl (BitOutOfRange b) else target_range i (flip_bit offset b) (\<lambda>f. f) files)"

definition apply_crash_operation :: "crash_operation \<Rightarrow> sim_fs \<Rightarrow> (sim_fs_error + unit) \<times> sim_fs" where
  "apply_crash_operation op fs =
     (case crash_files op (fs_files fs) of
        Inl err \<Rightarrow> (Inl err, fs)
      | Inr files \<Rightarrow> (Inr (), fs\<lparr>fs_files := files\<rparr>))"

definition crash :: "sim_fs \<Rightarrow> sim_fs" where
  "crash fs = snd (apply_crash_operation DropAllUnsynced fs)"

definition crash_journaled :: "sim_fs \<Rightarrow> sim_fs" where
  "crash_journaled fs =
     (let fs1 = (if fs_journal_mode fs = Writeback
            then fs\<lparr>fs_files := fold (\<lambda>(path, ws). update_file path
              (\<lambda>f. persist (f\<lparr>f_cache := mark_clean ws (f_cache f)\<rparr>))) (fs_journal fs) (fs_files fs)\<rparr>
            else fs)
      in snd (apply_crash_operation DropAllUnsynced (fs1\<lparr>fs_journal := [], fs_pending_renames := []\<rparr>)))"

definition set_journaling_mode :: "journaling_mode \<Rightarrow> sim_fs \<Rightarrow> sim_fs" where
  "set_journaling_mode mode fs = fs\<lparr>fs_journal_mode := mode\<rparr>"

end

