(* ===== verification/Sim_Fs_Refine.thy ===== *)
theory Sim_Fs_Refine
  imports Sim_Fs
begin

text \<open>
  The storage simulator against an abstract file system: a path has its volatile bytes and, once synced,
  its durable bytes. Every operation of the default build keeps the invariant of the store and does to the
  bytes what the specification says.
\<close>

section \<open>The abstract file system\<close>

type_synonym abs_file = "bytes \<times> bytes option"

type_synonym abs_fs = "bytes \<rightharpoonup> abs_file"

definition file_abs :: "fs_file \<Rightarrow> abs_file" where
  "file_abs f = (ranges_bytes (f_cache f), if f_durable_exists f then Some (ranges_bytes (f_durable f)) else None)"

definition fs_abs :: "sim_fs \<Rightarrow> abs_fs" where
  "fs_abs fs = map_option file_abs \<circ> map_of (fs_files fs)"

definition fs_ok :: "sim_fs \<Rightarrow> bool" where
  "fs_ok fs \<longleftrightarrow> om_wf (fs_files fs) \<and> (\<forall>(k, f)\<in>set (fs_files fs). file_ok f)
     \<and> fs_max_file_extent fs \<le> MAX_FILE_EXTENT_HARD"

definition spec_write :: "bytes \<Rightarrow> nat \<Rightarrow> bytes \<Rightarrow> abs_fs \<Rightarrow> abs_fs" where
  "spec_write key off b A = (if b = [] then A
     else A(key \<mapsto> (case A key of Some (v, d) \<Rightarrow> (splice_at v off b, d) | None \<Rightarrow> (splice_at [] off b, None))))"

definition spec_fsync :: "abs_fs \<Rightarrow> abs_fs" where
  "spec_fsync A = (\<lambda>k. map_option (\<lambda>(v, d). (v, Some v)) (A k))"

definition spec_fsync_path :: "bytes \<Rightarrow> abs_fs \<Rightarrow> abs_fs" where
  "spec_fsync_path key A = A(key := map_option (\<lambda>(v, d). (v, Some v)) (A key))"

definition spec_rename :: "bytes \<Rightarrow> bytes \<Rightarrow> abs_fs \<Rightarrow> abs_fs" where
  "spec_rename src dst A = (if src = dst then A else A(src := None, dst := A src))"

definition spec_crash :: "abs_fs \<Rightarrow> abs_fs" where
  "spec_crash A = (\<lambda>k. case A k of Some (v, Some d) \<Rightarrow> Some (d, Some d) | _ \<Rightarrow> None)"

text \<open>The volatile bytes change; the table, the durable bytes and the invariant do not.\<close>

definition same_durable :: "abs_fs \<Rightarrow> abs_fs \<Rightarrow> bool" where
  "same_durable A B \<longleftrightarrow> (\<forall>k. map_option snd (A k) = map_option snd (B k))"

definition target_keeps :: "(byte_range \<Rightarrow> sim_fs_error + byte_range) \<Rightarrow> (fs_file \<Rightarrow> fs_file) \<Rightarrow> bool" where
  "target_keeps g h \<longleftrightarrow> (\<forall>f s r r'. (s, r) \<in> set (f_cache f) \<and> file_ok f \<and> g r = Inr r' \<longrightarrow>
     file_ok (h (f\<lparr>f_cache := om_insert s r' (f_cache f)\<rparr>)) \<and>
     snd (file_abs (h (f\<lparr>f_cache := om_insert s r' (f_cache f)\<rparr>))) = snd (file_abs f))"

section \<open>Operations\<close>

datatype fs_op =
    OWrite actor_id bytes u64 bytes
  | OAppend actor_id bytes u64
  | OAllocate actor_id bytes
  | ORead actor_id bytes u64 u64
  | OFsync actor_id
  | OFsyncPath actor_id bytes
  | ORename actor_id bytes bytes
  | OCrash crash_operation

definition done_with :: "('e + 'a) \<times> 's \<Rightarrow> ('e + unit) \<times> 's" where
  "done_with = apfst (res_map (\<lambda>_. ()))"

primrec fs_exec :: "hasher \<Rightarrow> bool \<Rightarrow> fs_op \<Rightarrow> unit fs_call" where
  "fs_exec blake3 u (OWrite a p off b) = done_with \<circ> write_bytes blake3 u False a p off b"
| "fs_exec blake3 u (OAppend a p v) = done_with \<circ> append_tear blake3 u False a p v"
| "fs_exec blake3 u (OAllocate a p) = done_with \<circ> allocate blake3 u a p"
| "fs_exec blake3 u (ORead a p off n) = done_with \<circ> read_bytes blake3 u a p off n"
| "fs_exec blake3 u (OFsync a) = done_with \<circ> apfst (map_err FsJournal) \<circ> fsync blake3 u False a"
| "fs_exec blake3 u (OFsyncPath a p) = done_with \<circ> fsync_path blake3 u a p"
| "fs_exec blake3 u (ORename a p q) = done_with \<circ> rename blake3 u False a p q"
| "fs_exec blake3 u (OCrash op) = (\<lambda>(fs, j). case apply_crash_operation op fs of (r, fs') \<Rightarrow> (r, fs', j))"

definition volatile_len :: "bytes \<Rightarrow> abs_fs \<Rightarrow> nat" where
  "volatile_len key A = (case A key of Some (v, d) \<Rightarrow> length v | None \<Rightarrow> 0)"

fun spec_step :: "(bytes \<Rightarrow> bytes) \<Rightarrow> fs_op \<Rightarrow> abs_fs \<Rightarrow> abs_fs \<Rightarrow> bool" where
  "spec_step key (OWrite a p off b) A A' \<longleftrightarrow> A' = spec_write (key p) (unat off) b A"
| "spec_step key (OAppend a p v) A A' \<longleftrightarrow> A' = spec_write (key p) (volatile_len (key p) A) (le_bytes 8 (unat v)) A"
| "spec_step key (OAllocate a p) A A' \<longleftrightarrow> A (key p) = None \<and> A' = A(key p \<mapsto> ([], None))"
| "spec_step key (ORead a p off n) A A' \<longleftrightarrow> A' = A"
| "spec_step key (OFsync a) A A' \<longleftrightarrow> A' = spec_fsync A"
| "spec_step key (OFsyncPath a p) A A' \<longleftrightarrow> A (key p) \<noteq> None \<and> A' = spec_fsync_path (key p) A"
| "spec_step key (ORename a p q) A A' \<longleftrightarrow> A (key p) \<noteq> None \<and> A' = spec_rename (key p) (key q) A"
| "spec_step key (OCrash DropAllUnsynced) A A' \<longleftrightarrow> A' = spec_crash A"
| "spec_step key (OCrash (DropPaths ps)) A A' \<longleftrightarrow>
     A' = (\<lambda>k. if k \<in> canonical_path ` set ps then spec_crash A k else A k)"
| "spec_step key (OCrash op) A A' \<longleftrightarrow> same_durable A' A"

text \<open>What every operation keeps, and that a failing one changes nothing.\<close>

definition step_ok :: "(bytes \<Rightarrow> bytes) \<Rightarrow> fs_op \<Rightarrow> sim_fs \<times> journal_state \<Rightarrow> (sim_fs_error + unit) \<times> sim_fs \<times> journal_state \<Rightarrow> bool" where
  "step_ok key op = (\<lambda>(fs, j) (r, fs', j'). fs_ok fs' \<and>
     (case r of Inl e \<Rightarrow> fs' = fs \<and> j' = j | Inr _ \<Rightarrow> spec_step key op (fs_abs fs) (fs_abs fs')))"

section \<open>Runs\<close>

primrec fs_run :: "hasher \<Rightarrow> bool \<Rightarrow> fs_op list \<Rightarrow> sim_fs \<times> journal_state \<Rightarrow> sim_fs \<times> journal_state" where
  "fs_run blake3 u [] st = st"
| "fs_run blake3 u (op # ops) st = fs_run blake3 u ops (snd (fs_exec blake3 u op st))"

text \<open>Operations that touch no durable state.\<close>

fun volatile_op :: "fs_op \<Rightarrow> bool" where
  "volatile_op (OWrite a p off b) = True"
| "volatile_op (OAppend a p v) = True"
| "volatile_op (OAllocate a p) = True"
| "volatile_op (ORead a p off n) = True"
| "volatile_op (OCrash (TornWrite i n)) = True"
| "volatile_op (OCrash (CorruptRange i n xs)) = True"
| "volatile_op (OCrash (BitFlip i n b)) = True"
| "volatile_op op = False"

definition durable_part :: "abs_fs \<Rightarrow> bytes \<Rightarrow> bytes option" where
  "durable_part A k = Option.bind (A k) snd"

section \<open>Reads\<close>

definition known_writes :: "fs_file \<Rightarrow> entry_hash set" where
  "known_writes f = (\<lambda>p. br_write_id (snd p)) ` set (f_cache f) \<union> set_option (f_created_by f)"

section \<open>Files\<close>

lemma ranges_ok_Nil [simp]: "ranges_ok []" "ranges_bytes [] = []" "ranges_len [] = 0"
  by (simp_all add: ranges_ok_def ranges_bytes_def ranges_len_def)

lemma file_default_ok [simp]: "file_ok file_default" "file_abs file_default = ([], None)"
  by (simp_all add: file_ok_def file_abs_def file_default_def)

lemma check_write_Inr:
  assumes "check_write fs off len = Inr e"
  shows "unat e = unat off + len" "e \<le> fs_max_file_extent fs" "len \<le> unat MAX_WRITE_BYTES"
proof -
  have l: "len \<le> unat MAX_WRITE_BYTES" "unat off + len \<le> 18446744073709551615" "e = off + of_nat len" "e \<le> fs_max_file_extent fs"
    using assms by (auto simp: check_write_def Let_def split: if_splits)
  then show "e \<le> fs_max_file_extent fs" "len \<le> unat MAX_WRITE_BYTES" by simp_all
  show "unat e = unat off + len" using l(2,3) by (simp add: unat_word_ariths unat_of_nat_u64)
qed

lemma write_file_ok:
  assumes "file_ok f" "content \<noteq> []" "unat e = unat off + length content" "e \<le> MAX_FILE_EXTENT_HARD"
  shows "file_ok (write_file present off e i content f)"
    "file_abs (write_file present off e i content f) = (splice_at (fst (file_abs f)) (unat off) content, snd (file_abs f))"
proof -
  have w: "unat off < unat e" "unat e \<le> unat MAX_FILE_EXTENT_HARD" using assms(2-4) by (auto simp: word_le_nat_alt)
  have c: "ranges_ok (f_cache f)" "unat (f_length f) = ranges_len (f_cache f)" using assms(1) by (auto simp: file_ok_def)
  have "unat (max (f_length f) e) = max (unat (f_length f)) (unat e)" by (auto simp: max_def word_le_nat_alt)
  then show "file_ok (write_file present off e i content f)"
    using assms(1) replace_window_ok [OF c(1) w(1) assms(3) w(2)] replace_window_len [OF c(1) w(1) assms(3)] c(2)
    by (simp add: file_ok_def write_file_def Let_def)
  show "file_abs (write_file present off e i content f) = (splice_at (fst (file_abs f)) (unat off) content, snd (file_abs f))"
    using replace_window_bytes [OF c(1) w(1) assms(3) w(2)] by (simp add: file_abs_def write_file_def Let_def)
qed

lemma persist_ok:
  assumes "file_ok f"
  shows "file_ok (persist f)" "file_abs (persist f) = (fst (file_abs f), Some (fst (file_abs f)))"
proof -
  have c: "ranges_ok (f_cache f)" using assms by (simp add: file_ok_def)
  have "om_collect (map (\<lambda>(offset, range). (offset, range\<lparr>br_state := Clean\<rparr>)) (f_cache f)) =
      map (\<lambda>(offset, range). (offset, range\<lparr>br_state := Clean\<rparr>)) (f_cache f)"
    by (rule om_collect_wf) (use ranges_okD(1) [OF c] in \<open>simp add: om_wf_map_snd\<close>)
  then show "file_ok (persist f)" "file_abs (persist f) = (fst (file_abs f), Some (fst (file_abs f)))"
    using assms clean_ranges [of "f_cache f"] by (simp_all add: persist_def file_ok_def file_abs_def)
qed

lemma recompute_ok:
  assumes "ranges_ok (f_cache f)" "ranges_ok (f_durable f)"
  shows "file_ok (recompute_length f)" "file_abs (recompute_length f) = file_abs f"
  using assms recomputed_length [OF assms(1)] by (simp_all add: file_ok_def file_abs_def recompute_length_def)

lemma drop_unsynced_ok:
  assumes "file_ok f" "drop_unsynced f = (survives, f')"
  shows "survives = (snd (file_abs f) \<noteq> None)" "file_ok f'" "survives \<Longrightarrow> file_abs f' = (the (snd (file_abs f)), snd (file_abs f))"
proof -
  have d: "ranges_ok (f_durable f)" "om_collect (f_durable f) = f_durable f"
    using assms(1) om_collect_wf ranges_okD(1) by (auto simp: file_ok_def)
  then have "file_ok (recompute_length (f\<lparr>f_cache := om_collect (f_durable f)\<rparr>))"
    "file_abs (recompute_length (f\<lparr>f_cache := om_collect (f_durable f)\<rparr>)) = file_abs (f\<lparr>f_cache := f_durable f\<rparr>)"
    using recompute_ok [of "f\<lparr>f_cache := om_collect (f_durable f)\<rparr>"] by simp_all
  with assms show "survives = (snd (file_abs f) \<noteq> None)" "file_ok f'"
    "survives \<Longrightarrow> file_abs f' = (the (snd (file_abs f)), snd (file_abs f))"
    by (auto simp: drop_unsynced_def file_abs_def split: if_splits)
qed

section \<open>Tables of files\<close>

lemma fs_okD:
  assumes "fs_ok fs"
  shows "om_wf (fs_files fs)" "\<And>k f. map_of (fs_files fs) k = Some f \<Longrightarrow> file_ok f"
    "fs_max_file_extent fs \<le> MAX_FILE_EXTENT_HARD"
  using assms by (auto simp: fs_ok_def dest: map_of_SomeD)

lemma fs_okI:
  assumes "om_wf (fs_files fs)" "\<And>k f. map_of (fs_files fs) k = Some f \<Longrightarrow> file_ok f"
    "fs_max_file_extent fs \<le> MAX_FILE_EXTENT_HARD"
  shows "fs_ok fs"
  using assms by (auto simp: fs_ok_def om_wf_mem)

lemma fs_abs_apply: "fs_abs fs k = map_option file_abs (map_of (fs_files fs) k)"
  by (simp add: fs_abs_def)

lemma insert_file_ok:
  assumes "fs_ok fs" "file_ok f"
  shows "fs_ok (fs\<lparr>fs_files := om_insert key f (fs_files fs)\<rparr>)"
    "fs_abs (fs\<lparr>fs_files := om_insert key f (fs_files fs)\<rparr>) = (fs_abs fs)(key \<mapsto> file_abs f)"
  using assms fs_okD [OF assms(1)]
  by (auto intro!: fs_okI simp: om_wf_insert map_of_om_insert fs_abs_def split: if_splits)

lemma file_mut_ok:
  assumes "fs_ok fs" "\<And>f. file_ok f \<Longrightarrow> file_ok (g f)"
    "\<And>f. file_ok f \<Longrightarrow> file_abs (g f) = h (file_abs f)"
  shows "fs_ok (file_mut key g fs)"
    "fs_abs (file_mut key g fs) = (fs_abs fs)(key \<mapsto> h (case fs_abs fs key of Some x \<Rightarrow> x | None \<Rightarrow> ([], None)))"
proof -
  define f where "f = (case map_of (fs_files fs) key of Some x \<Rightarrow> x | None \<Rightarrow> file_default)"
  have f: "file_ok f" "file_abs f = (case fs_abs fs key of Some x \<Rightarrow> x | None \<Rightarrow> ([], None))"
    using fs_okD(2) [OF assms(1)] by (auto simp: f_def fs_abs_apply split: option.splits)
  show "fs_ok (file_mut key g fs)"
    "fs_abs (file_mut key g fs) = (fs_abs fs)(key \<mapsto> h (case fs_abs fs key of Some x \<Rightarrow> x | None \<Rightarrow> ([], None)))"
    using insert_file_ok [OF assms(1) assms(2) [OF f(1)], of key] assms(3) [OF f(1)] f(2)
    by (simp_all add: file_mut_def f_def)
qed

lemma update_file_ok:
  assumes "fs_ok fs" "\<And>f. file_ok f \<Longrightarrow> file_ok (g f)" "\<And>f. file_ok f \<Longrightarrow> file_abs (g f) = h (file_abs f)"
  shows "fs_ok (fs\<lparr>fs_files := update_file key g (fs_files fs)\<rparr>)"
    "fs_abs (fs\<lparr>fs_files := update_file key g (fs_files fs)\<rparr>) = (fs_abs fs)(key := map_option h (fs_abs fs key))"
proof -
  have "fs_ok (fs\<lparr>fs_files := update_file key g (fs_files fs)\<rparr>) \<and>
    fs_abs (fs\<lparr>fs_files := update_file key g (fs_files fs)\<rparr>) = (fs_abs fs)(key := map_option h (fs_abs fs key))"
  proof (cases "map_of (fs_files fs) key")
    case None
    then show ?thesis using assms(1) by (simp add: update_file_def fs_abs_apply fun_upd_idem)
  next
    case (Some f)
    then have "file_ok f" by (rule fs_okD(2) [OF assms(1)])
    then show ?thesis
      using insert_file_ok [OF assms(1,2), of f key] assms(3) Some by (simp add: update_file_def fs_abs_apply)
  qed
  then show "fs_ok (fs\<lparr>fs_files := update_file key g (fs_files fs)\<rparr>)"
    "fs_abs (fs\<lparr>fs_files := update_file key g (fs_files fs)\<rparr>) = (fs_abs fs)(key := map_option h (fs_abs fs key))"
    by simp_all
qed

lemma rename_file_ok:
  assumes "fs_ok fs" "map_of (fs_files fs) src \<noteq> None" "src \<noteq> dst"
  shows "fs_ok (fs\<lparr>fs_files := rename_file (src, dst) (fs_files fs)\<rparr>)"
    "fs_abs (fs\<lparr>fs_files := rename_file (src, dst) (fs_files fs)\<rparr>) = spec_rename src dst (fs_abs fs)"
  using assms fs_okD [OF assms(1)]
  by (auto intro!: fs_okI ext simp: rename_file_def om_wf_insert om_wf_remove map_of_om_insert map_of_om_remove
      fs_abs_def spec_rename_def split: if_splits)

lemma persist_all_ok:
  assumes "fs_ok fs"
  shows "fs_ok (persist_all fs)" "fs_abs (persist_all fs) = spec_fsync (fs_abs fs)"
proof -
  have m: "map_of (map (\<lambda>(k, f). (k, persist f)) xs) = map_option persist \<circ> map_of xs" for xs :: "(bytes \<times> fs_file) list"
    by (induction xs) auto
  show "fs_ok (persist_all fs)"
    using fs_okD [OF assms] by (intro fs_okI) (auto simp: persist_all_def om_wf_map_snd m persist_ok(1))
  show "fs_abs (persist_all fs) = spec_fsync (fs_abs fs)"
  proof
    fix k
    show "fs_abs (persist_all fs) k = spec_fsync (fs_abs fs) k"
      using fs_okD(2) [OF assms, of k] persist_ok(2)
      by (cases "map_of (fs_files fs) k") (auto simp: fs_abs_def persist_all_def m spec_fsync_def case_prod_beta)
  qed
qed

lemma crash_all_ok:
  assumes "fs_ok fs"
  shows "fs_ok (crash fs)" "fs_abs (crash fs) = spec_crash (fs_abs fs)"
proof -
  define h where "h = (\<lambda>f. let (survives, f') = drop_unsynced f in if survives then Some f' else None)"
  have files: "fs_files (crash fs) = om_retain h (fs_files fs)" "fs_max_file_extent (crash fs) = fs_max_file_extent fs"
    by (simp_all add: crash_def apply_crash_operation_def h_def)
  have m: "map_of (fs_files (crash fs)) k = Option.bind (map_of (fs_files fs) k) h" for k
    by (simp add: files map_of_om_retain fs_okD(1) [OF assms])
  have h: "map_option file_abs (h f) = (case file_abs f of (v, Some d) \<Rightarrow> Some (d, Some d) | _ \<Rightarrow> None)"
    "h f = Some f' \<Longrightarrow> file_ok f'" if "file_ok f" for f f'
  proof -
    obtain survives f1 where d: "drop_unsynced f = (survives, f1)" by force
    obtain v dd where a: "file_abs f = (v, dd)" by force
    show "map_option file_abs (h f) = (case file_abs f of (v, Some d) \<Rightarrow> Some (d, Some d) | _ \<Rightarrow> None)"
      using drop_unsynced_ok [OF that d] by (cases dd) (auto simp: h_def d a)
    show "h f = Some f' \<Longrightarrow> file_ok f'" using drop_unsynced_ok(2) [OF that d] by (auto simp: h_def d split: if_splits)
  qed
  show "fs_ok (crash fs)"
    using fs_okD [OF assms] h(2) by (intro fs_okI) (auto simp: files om_wf_retain map_of_om_retain bind_eq_Some_conv)
  show "fs_abs (crash fs) = spec_crash (fs_abs fs)"
  proof
    fix k
    show "fs_abs (crash fs) k = spec_crash (fs_abs fs) k"
      using h(1) [OF fs_okD(2) [OF assms, of k]]
      by (cases "map_of (fs_files fs) k") (auto simp: fs_abs_apply m spec_crash_def split: prod.splits option.splits)
  qed
qed

section \<open>Targeted crash operators\<close>

lemma set_range_ok:
  assumes "ranges_ok c" "(s, r) \<in> set c" "length (br_content r') \<le> length (br_content r)"
  shows "ranges_ok (om_insert s r' c)"
proof -
  have old: "\<exists>q'\<in>set c. fst q' = fst q \<and> rhi q \<le> rhi q'" if "q \<in> set (om_insert s r' c)" for q
  proof -
    have "q = (s, r') \<or> q \<in> set c" using that set_om_insert [OF ranges_okD(1) [OF assms(1)], of s r'] by blast
    then show ?thesis
    proof
      assume "q = (s, r')"
      then show ?thesis using assms(2,3) by (intro bexI [of _ "(s, r)"]) (simp_all add: rhi_def)
    qed auto
  qed
  show ?thesis
    unfolding ranges_ok_def
  proof (intro conjI ballI impI)
    show "om_wf (om_insert s r' c)" by (rule om_wf_insert [OF ranges_okD(1) [OF assms(1)]])
  next
    fix p q assume "p \<in> set (om_insert s r' c)" "q \<in> set (om_insert s r' c)" "fst p < fst q"
    moreover obtain p' q' where "p' \<in> set c" "fst p' = fst p" "rhi p \<le> rhi p'" "q' \<in> set c" "fst q' = fst q"
      using old calculation(1,2) by blast
    ultimately show "rhi p \<le> rlo q" using ranges_okD(2) [OF assms(1), of p' q'] by simp
  next
    fix p assume "p \<in> set (om_insert s r' c)"
    then obtain p' where "p' \<in> set c" "rhi p \<le> rhi p'" using old by blast
    then show "rhi p \<le> unat MAX_FILE_EXTENT_HARD" using ranges_okD(3) [OF assms(1)] by (meson order_trans)
  qed
qed

lemma set_range_len:
  assumes "ranges_ok c" "(s, r) \<in> set c" "length (br_content r') = length (br_content r)"
  shows "ranges_len (om_insert s r' c) = ranges_len c"
proof -
  have "p = (s, r)" if "p \<in> set c" "fst p = s" for p
    by (rule om_wf_key [OF ranges_okD(1) [OF assms(1)] that(1) assms(2)]) (simp add: that(2))
  then have c: "set c = insert (s, r) {p \<in> set c. fst p \<noteq> s}" using assms(2) by blast
  have "rhi (s, r') = rhi (s, r)" using assms(3) by (simp add: rhi_def)
  then have "rhi ` set (om_insert s r' c) = rhi ` insert (s, r) {p \<in> set c. fst p \<noteq> s}"
    by (simp add: set_om_insert [OF ranges_okD(1) [OF assms(1)]])
  then show ?thesis unfolding ranges_len_Max c [symmetric] by simp
qed

lemma target_range_files:
  assumes "target_range i g h files = Inr files'"
    "target_keeps g h"
    "\<forall>(k, f)\<in>set files. file_ok f"
  shows "map fst files' = map fst files \<and> (\<forall>(k, f)\<in>set files'. file_ok f)
    \<and> map_option (snd \<circ> file_abs) \<circ> map_of files' = map_option (snd \<circ> file_abs) \<circ> map_of files"
  using assms(1,3)
proof (induction files arbitrary: files')
  case (Cons x files)
  obtain k f where x: "x = (k, f)" by force
  show ?case
  proof (cases "find (\<lambda>p. br_write_id (snd p) = i) (f_cache f)")
    case None
    then obtain fs' where fs': "target_range i g h files = Inr fs'" "files' = (k, f) # fs'" using Cons.prems(1) by (auto simp: x)
    have "\<forall>(k, f)\<in>set files. file_ok f" using Cons.prems(2) by simp
    then show ?thesis using Cons.IH [OF fs'(1)] fs'(2) Cons.prems(2) by (auto simp: x fun_eq_iff)
  next
    case (Some p)
    obtain s r where p: "p = (s, r)" by force
    have "(s, r) \<in> set (f_cache f)" using Some by (auto simp: p find_Some_iff)
    moreover obtain r' where "g r = Inr r'" "files' = (k, h (f\<lparr>f_cache := om_insert s r' (f_cache f)\<rparr>)) # files"
      using Cons.prems(1) Some by (auto simp: x p)
    moreover have "file_ok f" using Cons.prems(2) by (simp add: x)
    ultimately have "file_ok (h (f\<lparr>f_cache := om_insert s r' (f_cache f)\<rparr>))"
      "snd (file_abs (h (f\<lparr>f_cache := om_insert s r' (f_cache f)\<rparr>))) = snd (file_abs f)"
      "files' = (k, h (f\<lparr>f_cache := om_insert s r' (f_cache f)\<rparr>)) # files"
      using assms(2) unfolding target_keeps_def by blast+
    then show ?thesis using Cons.prems(2) by (simp add: x fun_eq_iff)
  qed
qed simp

lemma target_range_ok:
  assumes "fs_ok fs" "target_range i g h (fs_files fs) = Inr files"
    "target_keeps g h"
  shows "fs_ok (fs\<lparr>fs_files := files\<rparr>)" "same_durable (fs_abs (fs\<lparr>fs_files := files\<rparr>)) (fs_abs fs)"
proof -
  have *: "map fst files = map fst (fs_files fs) \<and> (\<forall>(k, f)\<in>set files. file_ok f)
    \<and> map_option (snd \<circ> file_abs) \<circ> map_of files = map_option (snd \<circ> file_abs) \<circ> map_of (fs_files fs)"
    by (rule target_range_files [OF assms(2,3)]) (use assms(1) in \<open>auto simp: fs_ok_def\<close>)
  then show "fs_ok (fs\<lparr>fs_files := files\<rparr>)" using assms(1) by (simp add: fs_ok_def om_wf_def)
  from * show "same_durable (fs_abs (fs\<lparr>fs_files := files\<rparr>)) (fs_abs fs)"
    by (simp add: same_durable_def fs_abs_def option.map_comp fun_eq_iff)
qed

lemma length_xor_window [simp]: "length (xor_window bs xs) = length bs"
  by (induction bs xs rule: xor_window.induct) auto

lemma keep_length_target:
  assumes "\<And>r r'. g r = Inr r' \<Longrightarrow> length (br_content r') = length (br_content r)"
  shows "target_keeps g (\<lambda>f. f)"
  unfolding target_keeps_def
proof (intro allI impI, elim conjE)
  fix f s r r' assume "(s, r) \<in> set (f_cache f)" "file_ok f" "g r = Inr r'"
  then show "file_ok (f\<lparr>f_cache := om_insert s r' (f_cache f)\<rparr>) \<and>
      snd (file_abs (f\<lparr>f_cache := om_insert s r' (f_cache f)\<rparr>)) = snd (file_abs f)"
    using assms [of r r'] set_range_ok [of "f_cache f" s r r'] set_range_len [of "f_cache f" s r r']
    by (simp add: file_ok_def file_abs_def)
qed

lemma tear_target: "target_keeps (tear_range n) recompute_length"
  unfolding target_keeps_def
proof (intro allI impI, elim conjE)
  fix f s r r' assume *: "(s, r) \<in> set (f_cache f)" "file_ok f" "tear_range n r = Inr r'"
  have "length (br_content r') \<le> length (br_content r)" using *(3) by (auto simp: tear_range_def split: if_splits)
  then show "file_ok (recompute_length (f\<lparr>f_cache := om_insert s r' (f_cache f)\<rparr>)) \<and>
      snd (file_abs (recompute_length (f\<lparr>f_cache := om_insert s r' (f_cache f)\<rparr>))) = snd (file_abs f)"
    using *(1,2) set_range_ok [of "f_cache f" s r r'] recompute_ok [of "f\<lparr>f_cache := om_insert s r' (f_cache f)\<rparr>"]
    by (simp add: file_ok_def file_abs_def)
qed

lemma targeted_crash_ok:
  assumes "fs_ok fs" "crash_files op (fs_files fs) = Inr files"
    "case op of TornWrite i n \<Rightarrow> True | CorruptRange i n xs \<Rightarrow> True | BitFlip i n b \<Rightarrow> True | _ \<Rightarrow> False"
  shows "fs_ok (fs\<lparr>fs_files := files\<rparr>)" "same_durable (fs_abs (fs\<lparr>fs_files := files\<rparr>)) (fs_abs fs)"
proof -
  obtain i g h where gh: "target_range i g h (fs_files fs) = Inr files" and "target_keeps g h"
  proof (cases op)
    case (TornWrite i n)
    then show thesis using that [of i "tear_range n" recompute_length] assms(2) tear_target by simp
  next
    case (CorruptRange i n xs)
    have "target_keeps (corrupt_range n xs) (\<lambda>f. f)"
      by (rule keep_length_target) (auto simp: corrupt_range_def split: if_splits)
    then show thesis using that [of i "corrupt_range n xs" "\<lambda>f. f"] assms(2) CorruptRange by (simp split: if_splits)
  next
    case (BitFlip i n b)
    have "target_keeps (flip_bit n b) (\<lambda>f. f)"
      by (rule keep_length_target) (auto simp: flip_bit_def split: if_splits)
    then show thesis using that [of i "flip_bit n b" "\<lambda>f. f"] assms(2) BitFlip by (simp split: if_splits)
  qed (use assms(3) in simp_all)
  then show "fs_ok (fs\<lparr>fs_files := files\<rparr>)" "same_durable (fs_abs (fs\<lparr>fs_files := files\<rparr>)) (fs_abs fs)"
    using target_range_ok [OF assms(1)] by blast+
qed

lemma drop_path_ok:
  assumes "fs_ok fs"
  shows "fs_ok (fs\<lparr>fs_files := drop_path key (fs_files fs)\<rparr>)"
    "fs_abs (fs\<lparr>fs_files := drop_path key (fs_files fs)\<rparr>) = (fs_abs fs)(key := spec_crash (fs_abs fs) key)"
proof -
  have "fs_ok (fs\<lparr>fs_files := drop_path key (fs_files fs)\<rparr>) \<and>
    fs_abs (fs\<lparr>fs_files := drop_path key (fs_files fs)\<rparr>) = (fs_abs fs)(key := spec_crash (fs_abs fs) key)"
  proof (cases "map_of (fs_files fs) key")
    case None
    then show ?thesis using assms by (simp add: drop_path_def spec_crash_def fs_abs_apply fun_upd_idem)
  next
    case (Some f)
    have f: "file_ok f" by (rule fs_okD(2) [OF assms Some])
    obtain survives f' where d: "drop_unsynced f = (survives, f')" by force
    obtain v dd where a: "file_abs f = (v, dd)" by force
    have files: "drop_path key (fs_files fs) =
        (if survives then om_insert key f' (fs_files fs) else om_remove key (om_insert key f' (fs_files fs)))"
      by (simp add: drop_path_def Some d)
    show ?thesis
      using drop_unsynced_ok [OF f d] fs_okD [OF assms] a Some unfolding files
      by (cases dd) (auto intro!: fs_okI simp: om_wf_insert om_wf_remove map_of_om_insert map_of_om_remove
          fs_abs_def spec_crash_def split: if_splits)
  qed
  then show "fs_ok (fs\<lparr>fs_files := drop_path key (fs_files fs)\<rparr>)"
    "fs_abs (fs\<lparr>fs_files := drop_path key (fs_files fs)\<rparr>) = (fs_abs fs)(key := spec_crash (fs_abs fs) key)" by simp_all
qed

lemma spec_crash_idem: "spec_crash (A(k := spec_crash A k)) = (spec_crash A)"
  by (rule ext) (auto simp: spec_crash_def split: option.splits)

lemma drop_paths_ok:
  assumes "fs_ok fs"
  shows "fs_ok (fs\<lparr>fs_files := fold drop_path keys (fs_files fs)\<rparr>)"
    "fs_abs (fs\<lparr>fs_files := fold drop_path keys (fs_files fs)\<rparr>) =
       (\<lambda>k. if k \<in> set keys then spec_crash (fs_abs fs) k else fs_abs fs k)"
proof -
  have "fs_ok (fs\<lparr>fs_files := fold drop_path keys (fs_files fs)\<rparr>) \<and>
    fs_abs (fs\<lparr>fs_files := fold drop_path keys (fs_files fs)\<rparr>) =
       (\<lambda>k. if k \<in> set keys then spec_crash (fs_abs fs) k else fs_abs fs k)"
    using assms
  proof (induction keys arbitrary: fs)
    case (Cons key keys)
    let ?fs = "fs\<lparr>fs_files := drop_path key (fs_files fs)\<rparr>"
    have ok: "fs_ok ?fs" and eq: "fs_abs ?fs = (fs_abs fs)(key := spec_crash (fs_abs fs) key)"
      using drop_path_ok [OF Cons.prems] by simp_all
    have "fs_ok (fs\<lparr>fs_files := fold drop_path (key # keys) (fs_files fs)\<rparr>) \<and>
      fs_abs (fs\<lparr>fs_files := fold drop_path (key # keys) (fs_files fs)\<rparr>) =
        (\<lambda>k. if k \<in> set keys then spec_crash (fs_abs fs) k else ((fs_abs fs)(key := spec_crash (fs_abs fs) key)) k)"
      using Cons.IH [OF ok] unfolding eq spec_crash_idem by simp
    then show ?case by (auto simp: fun_eq_iff)
  qed simp
  then show "fs_ok (fs\<lparr>fs_files := fold drop_path keys (fs_files fs)\<rparr>)"
    "fs_abs (fs\<lparr>fs_files := fold drop_path keys (fs_files fs)\<rparr>) =
       (\<lambda>k. if k \<in> set keys then spec_crash (fs_abs fs) k else fs_abs fs k)" by simp_all
qed

lemma drop_keys_set: "drop_keys ps keys = Inr keys' \<Longrightarrow> set keys' = set keys \<union> canonical_path ` set ps"
  by (induction ps keys arbitrary: keys' rule: drop_keys.induct) (auto split: if_splits)

lemma append_error: "append blake3 u k a ps p j = (Inl e, j') \<Longrightarrow> j' = j"
  by (auto simp: append_def split: sum.splits)

lemma fs_append_ok:
  assumes "fs_ok fs" "\<And>i. fs_ok (snd (k i fs)) \<and> spec_step key op (fs_abs fs) (fs_abs (snd (k i fs)))"
  shows "step_ok key op (fs, j) (done_with (fs_append blake3 u kind a ps p k (fs, j)))"
  using assms(1) assms(2) append_error
  by (auto simp: step_ok_def fs_append_def done_with_def split: prod.splits sum.splits) (metis snd_conv)+

lemma step_ok_fail: "fs_ok fs \<Longrightarrow> step_ok key op (fs, j) (Inl e, fs, j)"
  by (simp add: step_ok_def)

lemma done_with_simps [simp]: "done_with (Inl e, st) = (Inl e, st)" "done_with (Inr x, st) = (Inr (), st)"
  by (simp_all add: done_with_def)

lemma write_step:
  assumes "fs_ok fs" "\<And>A'. spec_step (path_key blake3) op (fs_abs fs) A' \<longleftrightarrow> A' = spec_write (path_key blake3 p) (unat off) b (fs_abs fs)"
  shows "step_ok (path_key blake3) op (fs, j) (done_with (write_bytes blake3 u False a p off b (fs, j)))"
proof (cases "check_write fs off (length b)")
  case (Inl e)
  then show ?thesis using assms(1) by (simp add: write_bytes_def step_ok_fail)
next
  case (Inr e)
  let ?key = "path_key blake3 p"
  let ?present = "map_of (fs_files fs) ?key \<noteq> None"
  have e: "unat e = unat off + length b" "e \<le> MAX_FILE_EXTENT_HARD"
    using check_write_Inr [OF Inr] fs_okD(3) [OF assms(1)] by auto
  let ?k = "\<lambda>i fs. (i, if length b = 0 then fs else journal_write False ?key off i (file_mut ?key (write_file ?present off e i b) fs))"
  have "fs_ok (snd (?k i fs)) \<and> fs_abs (snd (?k i fs)) = spec_write ?key (unat off) b (fs_abs fs)" for i
  proof (cases "b = []")
    case False
    have "fs_ok (file_mut ?key (write_file ?present off e i b) fs)"
      "fs_abs (file_mut ?key (write_file ?present off e i b) fs) =
        (fs_abs fs)(?key \<mapsto> (\<lambda>x. (splice_at (fst x) (unat off) b, snd x)) (case fs_abs fs ?key of Some x \<Rightarrow> x | None \<Rightarrow> ([], None)))"
      using file_mut_ok [OF assms(1), of "write_file ?present off e i b" "\<lambda>x. (splice_at (fst x) (unat off) b, snd x)" ?key]
        write_file_ok [OF _ False e] by blast+
    then show ?thesis using False by (simp add: spec_write_def journal_write_def case_prod_beta split: option.splits)
  qed (simp add: assms(1) spec_write_def)
  then have "step_ok (path_key blake3) op (fs, j)
    (done_with (fs_append blake3 u KFsWrite a [] (FsWrite (Write (path_ref blake3 p) off b)) ?k (fs, j)))"
    by (intro fs_append_ok assms(1)) (simp add: assms(2))
  then show ?thesis
    using step_ok_fail [OF assms(1)] unfolding write_bytes_def Let_def prod.case Inr sum.case
    by (cases "charge_resident fs (length b) (\<not> ?present \<or> 0 < length b) (\<not> ?present)")
      (simp_all only: sum.case done_with_simps)
qed

lemma read_step:
  assumes "fs_ok fs"
  shows "step_ok key (ORead a p off n) (fs, j) (done_with (read_bytes blake3 u a p off n (fs, j)))"
proof -
  have "step_ok key (ORead a p off n) (fs, j) (done_with (fs_append blake3 u kind a ps q (\<lambda>_ fs. (x, fs)) (fs, j)))"
    for kind ps q and x :: observed_read
    by (rule fs_append_ok [OF assms]) (simp add: assms)
  then show ?thesis
    using step_ok_fail [OF assms] by (simp add: read_bytes_def Let_def split: option.splits sum.splits prod.splits)
qed

lemma fsync_step:
  assumes "fs_ok fs"
  shows "step_ok key (OFsync a) (fs, j) (done_with (apfst (map_err FsJournal) (fsync blake3 u False a (fs, j))))"
  using assms persist_all_ok [OF assms] append_error
  by (auto simp: fsync_def step_ok_def split: prod.splits sum.splits)

lemma fsync_path_step:
  assumes "fs_ok fs"
  shows "step_ok (path_key blake3) (OFsyncPath a p) (fs, j) (done_with (fsync_path blake3 u a p (fs, j)))"
proof (cases "map_of (fs_files fs) (path_key blake3 p)")
  case None
  then show ?thesis using assms by (simp add: fsync_path_def step_ok_fail)
next
  case (Some f)
  have "fs_ok (fs\<lparr>fs_files := update_file (path_key blake3 p) persist (fs_files fs)\<rparr>)"
    "fs_abs (fs\<lparr>fs_files := update_file (path_key blake3 p) persist (fs_files fs)\<rparr>) = spec_fsync_path (path_key blake3 p) (fs_abs fs)"
    unfolding spec_fsync_path_def
    by (intro update_file_ok [OF assms]; simp add: persist_ok case_prod_beta)+
  then have "step_ok (path_key blake3) (OFsyncPath a p) (fs, j)
    (done_with (fs_append blake3 u KFsFsync a [] (FsFsync \<lparr>fy_path_ref = path_ref blake3 p\<rparr>)
      (\<lambda>i fs. (i, fs\<lparr>fs_files := update_file (path_key blake3 p) persist (fs_files fs)\<rparr>)) (fs, j)))"
    by (intro fs_append_ok [OF assms]) (simp add: Some fs_abs_apply)
  then show ?thesis using Some by (simp add: fsync_path_def)
qed

lemma allocate_step:
  assumes "fs_ok fs"
  shows "step_ok (path_key blake3) (OAllocate a p) (fs, j) (done_with (allocate blake3 u a p (fs, j)))"
proof (cases "map_of (fs_files fs) (path_key blake3 p)")
  case None
  have "fs_ok (file_mut (path_key blake3 p) (\<lambda>f. f\<lparr>f_created_by := Some i\<rparr>) fs)"
    "fs_abs (file_mut (path_key blake3 p) (\<lambda>f. f\<lparr>f_created_by := Some i\<rparr>) fs) = (fs_abs fs)(path_key blake3 p \<mapsto> ([], None))" for i
    using file_mut_ok [OF assms, of "\<lambda>f. f\<lparr>f_created_by := Some i\<rparr>" "\<lambda>x. x" "path_key blake3 p"] None
    by (simp_all add: file_ok_def file_abs_def fs_abs_apply)
  then have "step_ok (path_key blake3) (OAllocate a p) (fs, j)
    (done_with (fs_append blake3 u KFsWrite a [] (FsWrite (Allocate (path_ref blake3 p)))
      (\<lambda>i fs. (i, file_mut (path_key blake3 p) (\<lambda>f. f\<lparr>f_created_by := Some i\<rparr>) fs)) (fs, j)))"
    by (intro fs_append_ok [OF assms]) (simp add: None fs_abs_apply)
  then show ?thesis
    using None step_ok_fail [OF assms] by (simp add: allocate_def split: sum.splits)
qed (use assms in \<open>simp add: allocate_def step_ok_fail\<close>)

lemma rename_step:
  assumes "fs_ok fs"
  shows "step_ok (path_key blake3) (ORename a p q) (fs, j) (done_with (rename blake3 u False a p q (fs, j)))"
proof (cases "map_of (fs_files fs) (path_key blake3 p)")
  case None
  then show ?thesis using assms by (simp add: rename_def step_ok_fail)
next
  case (Some f)
  define k where "k = (\<lambda>(i :: entry_hash) (fs :: sim_fs). (i, if path_key blake3 p = path_key blake3 q then fs
     else fs\<lparr>fs_files := rename_file (path_key blake3 p, path_key blake3 q) (fs_files fs)\<rparr>))"
  have "fs_ok (snd (k i fs)) \<and> fs_abs (snd (k i fs)) = spec_rename (path_key blake3 p) (path_key blake3 q) (fs_abs fs)" for i
    using rename_file_ok [OF assms, of "path_key blake3 p" "path_key blake3 q"] Some assms
    by (simp add: k_def spec_rename_def)
  then have "step_ok (path_key blake3) (ORename a p q) (fs, j)
    (done_with (fs_append blake3 u KFsWrite a [] (FsWrite (Rename (path_ref blake3 p) (path_ref blake3 q))) k (fs, j)))"
    by (intro fs_append_ok [OF assms]) (simp add: Some fs_abs_apply)
  then show ?thesis using Some by (simp add: rename_def k_def Let_def cong: if_cong)
qed

lemma crash_step:
  assumes "fs_ok fs" "apply_crash_operation op fs = (r, fs')"
  shows "step_ok key (OCrash op) (fs, j) (r, fs', j)"
proof (cases "crash_files op (fs_files fs)")
  case (Inl e)
  then show ?thesis using assms by (auto simp: apply_crash_operation_def step_ok_fail)
next
  case (Inr files)
  then have r: "r = Inr ()" "fs' = fs\<lparr>fs_files := files\<rparr>" using assms(2) by (auto simp: apply_crash_operation_def)
  show ?thesis
  proof (cases op)
    case DropAllUnsynced
    then have "fs' = crash fs" using assms(2) by (simp add: crash_def)
    then show ?thesis using crash_all_ok [OF assms(1)] DropAllUnsynced r(1) by (simp add: step_ok_def)
  next
    case (DropPaths ps)
    then obtain keys where "drop_keys ps [] = Inr keys" "files = fold drop_path keys (fs_files fs)" using Inr by auto
    then show ?thesis using drop_paths_ok [OF assms(1), of keys] drop_keys_set [of ps "[]" keys] DropPaths r
      by (simp add: step_ok_def)
  qed (use targeted_crash_ok [OF assms(1) Inr] r in \<open>simp_all add: step_ok_def\<close>)
qed

lemma append_step:
  assumes "fs_ok fs"
  shows "step_ok (path_key blake3) (OAppend a p v) (fs, j) (done_with (append_tear blake3 u False a p v (fs, j)))"
proof -
  define off where "off = (case map_of (fs_files fs) (path_key blake3 p) of Some f \<Rightarrow> f_length f | None \<Rightarrow> 0)"
  have "unat off = volatile_len (path_key blake3 p) (fs_abs fs)"
    using fs_okD(2) [OF assms, of "path_key blake3 p"]
    by (auto simp: off_def volatile_len_def fs_abs_apply file_ok_def file_abs_def ranges_bytes_def split: option.splits)
  then have "step_ok (path_key blake3) (OAppend a p v) (fs, j)
    (done_with (write_bytes blake3 u False a p off (le_bytes 8 (unat v)) (fs, j)))"
    by (intro write_step assms) simp
  then show ?thesis by (simp add: append_tear_def off_def Let_def)
qed

lemma fs_exec_step:
  assumes "fs_ok fs"
  shows "step_ok (path_key blake3) op (fs, j) (fs_exec blake3 u op (fs, j))"
  using assms write_step append_step allocate_step read_step fsync_step fsync_path_step rename_step crash_step
  by (cases op) (simp_all split: prod.splits)

lemma spec_crash_durable: "spec_crash A = (\<lambda>k. map_option (\<lambda>d. (d, Some d)) (durable_part A k))"
  by (rule ext) (auto simp: spec_crash_def durable_part_def split: option.splits)

lemma volatile_step: "spec_step key op A A' \<Longrightarrow> volatile_op op \<Longrightarrow> durable_part A' = durable_part A"
proof (rule ext)
  fix k assume step: "spec_step key op A A'" "volatile_op op"
  have same: "durable_part A' k = durable_part A k" if "same_durable A' A"
  proof -
    have "map_option snd (A' k) = map_option snd (A k)" using that by (simp add: same_durable_def)
    then show ?thesis by (cases "A k"; cases "A' k") (simp_all add: durable_part_def)
  qed
  have "durable_part (spec_write kk off b A) k = durable_part A k" for kk off b
    by (auto simp: spec_write_def durable_part_def split: option.splits)
  with step same show "durable_part A' k = durable_part A k"
    by (cases op rule: volatile_op.cases) (auto simp: durable_part_def)
qed

lemma fs_run_volatile:
  assumes "fs_ok fs" "\<forall>op\<in>set ops. volatile_op op" "fs_run blake3 u ops (fs, j) = (fs', j')"
  shows "fs_ok fs' \<and> durable_part (fs_abs fs') = durable_part (fs_abs fs)"
  using assms
proof (induction ops arbitrary: fs j)
  case (Cons op ops)
  obtain r fs1 j1 where e: "fs_exec blake3 u op (fs, j) = (r, fs1, j1)" by (metis prod_cases3)
  have "step_ok (path_key blake3) op (fs, j) (r, fs1, j1)" using fs_exec_step [OF Cons.prems(1), of blake3 op j u] e by simp
  then have "fs_ok fs1" "durable_part (fs_abs fs1) = durable_part (fs_abs fs)"
    using volatile_step [of "path_key blake3" op "fs_abs fs" "fs_abs fs1"] Cons.prems(2)
    by (auto simp: step_ok_def split: sum.splits)
  then show ?case using Cons.IH [of fs1 j1] Cons.prems(2,3) e by simp
qed simp

lemma byte_at_filter:
  "(\<And>p. p \<in> set c \<Longrightarrow> rlo p \<le> i \<Longrightarrow> P p) \<Longrightarrow> byte_at (filter P c) i = byte_at c i"
  by (induction c) (auto simp: byte_at_Cons)

lemma read_window_bytes:
  assumes "file_ok f" "off \<noteq> 18446744073709551615"
  shows "\<exists>ps. read_window f off n = Inr (take (unat n) (drop (unat off) (ranges_bytes (f_cache f))), ps)
    \<and> sorted ps \<and> distinct ps \<and> set ps \<subseteq> known_writes f
    \<and> (\<forall>p\<in>set (f_cache f). rlo p < rhi p \<and> unat off < rhi p \<and> rlo p < unat off + unat n \<longrightarrow> br_write_id (snd p) \<in> set ps)"
proof -
  define avail where "avail = u64_saturating_sub (f_length f) off"
  define tk where "tk = min avail n"
  define we where "we = u64_saturating_add off tk"
  define c where "c = filter (\<lambda>p. fst p < max we (off + 1)) (f_cache f)"
  have ok: "ranges_ok (f_cache f)" and len: "unat (f_length f) = ranges_len (f_cache f)" using assms(1) by (simp_all add: file_ok_def)
  have small: "ranges_len (f_cache f) \<le> 1099511627776"
    using ranges_okD(3) [OF ok] by (auto simp: ranges_len_Max max_extent)
  have tk: "unat tk = min (ranges_len (f_cache f) - unat off) (unat n)"
    by (simp add: tk_def avail_def min_def word_le_nat_alt unat_saturating_sub len)
  have "unat off \<le> 18446744073709551615" using unat_u64_less [of off] by linarith
  then have "unat off + unat tk \<le> 18446744073709551615" using small tk by linarith
  then have we: "unat we = unat off + unat tk" by (simp add: we_def unat_saturating_add)
  have "unat off \<noteq> 18446744073709551615" using assms(2) word_unat_eq_iff [of off 18446744073709551615] by simp
  then have "unat off + 1 < 18446744073709551616" using unat_u64_less [of off] by linarith
  then have off1: "unat (off + 1) = unat off + 1" by (simp add: unat_word_ariths)
  have limit: "unat (max we (off + 1)) = max (unat we) (unat off + 1)" using off1 by (auto simp: max_def word_le_nat_alt)
  have c: "sorted_wrt (\<lambda>p q. rhi p \<le> rlo q) c" "\<forall>p\<in>set c. rhi p \<le> unat MAX_FILE_EXTENT_HARD"
    "\<forall>p\<in>set c. rlo p < unat we \<or> rlo p \<le> unat off" "unat off \<le> unat we"
    using ranges_sorted [OF ok] ranges_okD(3) [OF ok] limit we by (auto simp: c_def sorted_wrt_filter word_less_nat_alt)
  obtain cur' out' ps' where loop: "read_loop we c off [] [] = Some (cur', out', ps')" "unat cur' \<le> unat we"
    "out' @ replicate (unat we - unat cur') 0 = map (byte_at c) [unat off..<unat we]"
    "set ps' \<subseteq> reaching (unat off) c" "contributing (unat off) c \<subseteq> set ps'" "sorted ps'" "distinct ps'"
    using read_loop_bytes [OF c, of "[]" "[]"] by auto
  define out where "out = (if cur' < we then out' @ replicate (unat (we - cur')) 0 else out')"
  have "out = out' @ replicate (unat we - unat cur') 0"
    using loop(2) by (auto simp: out_def unat_diff_word word_less_nat_alt word_le_nat_alt)
  moreover have "byte_at c i = byte_at (f_cache f) i" if "i < unat we" for i
    unfolding c_def by (rule byte_at_filter) (use that limit in \<open>auto simp: word_less_nat_alt\<close>)
  ultimately have out: "out = map (byte_at (f_cache f)) [unat off..<unat we]" by (simp add: loop(3))
  also have "\<dots> = take (unat n) (drop (unat off) (ranges_bytes (f_cache f)))"
    by (rule nth_equalityI) (auto simp: ranges_bytes_def we tk)
  finally have bytes: "out = take (unat n) (drop (unat off) (ranges_bytes (f_cache f)))" .
  define ps where "ps = sort (if ps' = [] then (case f_created_by f of Some c \<Rightarrow> [c] | None \<Rightarrow> []) else ps')"
  have "read_window f off n = Inr (out, ps)"
    using assms(2) loop(1) out we unfolding read_window_def Let_def avail_def [symmetric] tk_def [symmetric] we_def [symmetric]
      c_def [symmetric] by (simp add: out_def ps_def)
  moreover have "sorted ps" "distinct ps" using loop(7) by (auto simp: ps_def split: option.splits)
  moreover have "reaching (unat off) c \<subseteq> known_writes f" by (auto simp: reaching_def known_writes_def c_def)
  then have "set ps \<subseteq> known_writes f" using loop(4) by (auto simp: ps_def known_writes_def split: option.splits if_splits)
  moreover have "br_write_id (snd p) \<in> set ps"
    if "p \<in> set (f_cache f)" "rlo p < rhi p" "unat off < rhi p" "rlo p < unat off + unat n" for p
  proof -
    have "rhi p \<le> ranges_len (f_cache f)" by (rule rhi_le_len [OF that(1)])
    then have "rlo p < max (unat we) (unat off + 1)" using that we tk by linarith
    then have "br_write_id (snd p) \<in> contributing (unat off) c"
      using that limit by (auto simp: contributing_def c_def word_less_nat_alt)
    then show ?thesis using loop(5) by (auto simp: ps_def)
  qed
  ultimately show ?thesis unfolding bytes by blast
qed

end

