(* ===== verification/Sim_Fs_Props.thy ===== *)
theory Sim_Fs_Props
  imports Sim_Fs_Refine
begin

text \<open>
  What the storage simulator promises: the refinement, exact reads with their provenance, durability
  across crashes, and three behaviours of renames and offsets that the comments do not describe.
\<close>

section \<open>A file with unsynced bytes\<close>

definition demo_file :: fs_file where
  "demo_file = \<lparr>f_cache = [(0, \<lparr>br_content = [7, 8], br_write_id = en_id demo1, br_state = Dirty\<rparr>),
       (4, \<lparr>br_content = [9], br_write_id = en_id demo2, br_state = Dirty\<rparr>)],
     f_durable = [(0, \<lparr>br_content = [5], br_write_id = EntryHash [0], br_state = Clean\<rparr>)],
     f_length = 5, f_created_by = Some (EntryHash [0]), f_durable_exists = True\<rparr>"

definition demo_fs :: sim_fs where
  "demo_fs = sim_fs_new\<lparr>fs_files := [([47, 97], demo_file)]\<rparr>"

lemma demo_file_ok: "file_ok demo_file"
  by (simp add: file_ok_def demo_file_def ranges_ok_def rhi_def ranges_len_def max_extent)

lemma demo_fs_ok: "fs_ok demo_fs"
  by (simp add: fs_ok_def demo_fs_def sim_fs_new_def sim_fs_default_def demo_file_ok)

lemma demo_abs: "file_abs demo_file = ([7, 8, 0, 0, 9], Some [5])"
  by (simp add: file_abs_def demo_file_def ranges_bytes_def ranges_len_def rhi_def byte_at_def upt_rec [of _ "numeral _"])

lemma demo_fs_abs: "fs_abs demo_fs = [[47, 97] \<mapsto> ([7, 8, 0, 0, 9], Some [5])]"
  by (rule ext) (simp add: demo_fs_def fs_abs_apply demo_abs)

text \<open>
  C2: the storage simulator implements its abstract file system. On a store that satisfies the invariant
  (ordered, disjoint ranges within the hard extent, lengths that match them) every operation keeps the
  invariant; a successful one changes the bytes of the files exactly as the specification says (a write
  splices its bytes in and fills a gap with zeros, a barrier copies the volatile bytes to the durable ones,
  a crash restores the durable ones and drops files never synced, a targeted crash operator leaves the
  durable bytes alone), and a failing one changes neither the store nor the journal.
\<close>

theorem fs_refines:
  assumes "fs_ok fs"
  shows "case fs_exec blake3 u op (fs, j) of (r, fs', j') \<Rightarrow> fs_ok fs' \<and>
    (case r of Inl e \<Rightarrow> fs' = fs \<and> j' = j | Inr _ \<Rightarrow> spec_step (path_key blake3) op (fs_abs fs) (fs_abs fs'))"
  using fs_exec_step [OF assms, of blake3 op j u] by (simp add: step_ok_def)

theorem fs_refines_witness:
  "fs_abs (fst (snd (fs_exec demo_hash True (OCrash DropAllUnsynced) (demo_fs, journal_new)))) [47, 97] = Some ([5], Some [5])"
proof -
  have "fst (fs_exec demo_hash True (OCrash DropAllUnsynced) (demo_fs, journal_new)) = Inr ()"
    by (simp add: apply_crash_operation_def)
  then show ?thesis
    using fs_refines [OF demo_fs_ok, of journal_new demo_hash "OCrash DropAllUnsynced" True]
    by (auto simp: demo_fs_abs spec_crash_def split: prod.splits)
qed

lemma append_entry_data:
  assumes "append_entry blake3 get h kind a observed p = Inr e"
  shows "ed_payload (en_data e) = p" "set observed \<subseteq> set (ed_parents (en_data e))" "ed_actor (en_data e) = a" "ed_kind (en_data e) = kind"
proof -
  from append_entry_Inr [OF assms] obtain ps d c where ps: "assemble_parents h observed None = Inr ps"
    and e: "new_with_scratch blake3 (make_data kind a ps d p) c = Inr e" by metis
  then show "ed_payload (en_data e) = p" "set observed \<subseteq> set (ed_parents (en_data e))" "ed_actor (en_data e) = a" "ed_kind (en_data e) = kind"
    using assemble_parents_Inr(2) [OF ps] by (auto simp: new_with_scratch_Inr make_data_def)
qed

text \<open>
  C16: a read of an existing file returns exactly the requested window of its bytes, cut at the end of the
  file, leaves the store unchanged and journals what it returned, naming as parents every write that still
  holds bytes in the window. It can fail only in the journal: no slice is out of range and the length
  assertion holds, for every offset but the largest 64-bit one.
\<close>

theorem fs_read_exact:
  assumes "fs_ok fs" "map_of (fs_files fs) (path_key blake3 p) = Some f" "off \<noteq> 18446744073709551615" "n \<le> MAX_READ_BYTES"
    "read_bytes blake3 u a p off n (fs, j) = (r, fs', j')"
  shows "fs' = fs \<and> (case r of
      Inl err \<Rightarrow> j' = j \<and> (\<exists>je. err = FsJournal je)
    | Inr obs \<Rightarrow> obs = Present (take (unat n) (drop (unat off) (fst (file_abs f))))
        \<and> (\<exists>e. j' = freeze_if_full u (commit a e j)
            \<and> ed_payload (en_data e) = FsRead \<lparr>fr_path_ref = path_ref blake3 p, fr_offset = off, fr_requested_len = n, fr_observed = obs\<rparr>
            \<and> (\<forall>q\<in>set (f_cache f). rlo q < rhi q \<and> unat off < rhi q \<and> rlo q < unat off + unat n
                 \<longrightarrow> br_write_id (snd q) \<in> set (ed_parents (en_data e)))))"
proof -
  obtain out ps where w: "read_window f off n = Inr (out, ps)" "out = take (unat n) (drop (unat off) (fst (file_abs f)))"
    "\<forall>q\<in>set (f_cache f). rlo q < rhi q \<and> unat off < rhi q \<and> rlo q < unat off + unat n \<longrightarrow> br_write_id (snd q) \<in> set ps"
    using read_window_bytes [OF fs_okD(2) [OF assms(1,2)] assms(3), of n] by (auto simp: file_abs_def)
  let ?p = "FsRead \<lparr>fr_path_ref = path_ref blake3 p, fr_offset = off, fr_requested_len = n, fr_observed = Present out\<rparr>"
  have run: "fs_append blake3 u KFsRead a ps ?p (\<lambda>_ fs. (Present out, fs)) (fs, j) = (r, fs', j')"
    using assms(2,5) w(1) leD [OF assms(4)] by (simp add: read_bytes_def Let_def)
  show ?thesis
  proof (cases "append_entry blake3 (journal_get j) (map_of (js_heads j) a) KFsRead a ps ?p")
    case (Inl err)
    then show ?thesis using run by (auto simp: fs_append_def append_def)
  next
    case (Inr e)
    then have "ed_payload (en_data e) = ?p" "set ps \<subseteq> set (ed_parents (en_data e))"
      using append_entry_data by blast+
    moreover have "r = Inr (Present out)" "fs' = fs" "j' = freeze_if_full u (commit a e j)"
      using run Inr by (auto simp: fs_append_def append_def)
    ultimately show ?thesis using w(2,3) by auto
  qed
qed

text \<open>
  C5: after a successful \<open>fsync\<close>, whatever is written, appended, allocated, read, torn or corrupted, a
  crash brings back exactly the files and the bytes there were at the \<open>fsync\<close>.
\<close>

theorem fs_durability:
  assumes "fs_ok fs" "fsync blake3 u False a (fs, j) = (Inr i, fs1, j1)" "\<forall>op\<in>set ops. volatile_op op"
    "fs_run blake3 u ops (fs1, j1) = (fs2, j2)"
  shows "fs_abs (crash fs2) = (\<lambda>k. map_option (\<lambda>(v, d). (v, Some v)) (fs_abs fs k))"
proof -
  have fs1: "fs1 = persist_all fs" using assms(2) by (auto simp: fsync_def split: prod.splits sum.splits)
  note ok = persist_all_ok [OF assms(1)]
  have "fs_ok fs2" "durable_part (fs_abs fs2) = durable_part (spec_fsync (fs_abs fs))"
    using fs_run_volatile [OF ok(1) assms(3), of blake3 u j1 fs2 j2] assms(4) fs1 ok(2) by simp_all
  then have "fs_abs (crash fs2) = (\<lambda>k. map_option (\<lambda>d. (d, Some d)) (durable_part (spec_fsync (fs_abs fs)) k))"
    using crash_all_ok(2) by (simp add: spec_crash_durable)
  also have "\<dots> = (\<lambda>k. map_option (\<lambda>(v, d). (v, Some v)) (fs_abs fs k))"
    by (rule ext) (auto simp: durable_part_def spec_fsync_def split: option.splits simp: option.map_comp bind_map_option case_prod_beta comp_def map_option_case)
  finally show ?thesis .
qed

lemma demo1_get: "journal_get demo_journal (en_id demo1) = Some demo1"
proof -
  have "view demo_journal = view_of [demo1, demo2]" using journal_okE [OF demo_ok] demo_entries by metis
  then show ?thesis using history_get_mem [OF demo_history, of demo1] by (simp add: view_def view_of_def)
qed

lemma demo_keys: "path_key demo_hash [97] = [47, 97]" "path_key demo_hash [98] = [47, 98]"
  by (simp_all add: path_key_def path_ref_def canonicalize_def Let_def MAX_CANONICAL_PATH_BYTES_def)

lemmas path_eval = path_key_def path_ref_def canonicalize_def Let_def MAX_CANONICAL_PATH_BYTES_def encode_path_ref_def PATH_DOMAIN_def demo_hash_def

theorem fs_read_exact_witness:
  "fst (read_bytes demo_hash True (ActorId 3) [97] 1 3 (demo_fs, demo_journal)) = Inr (Present [8, 0, 0])"
proof -
  have f: "map_of (fs_files demo_fs) (path_key demo_hash [97]) = Some demo_file"
    by (simp add: demo_keys demo_fs_def)
  have rep: "replicate 2 0 = [0, 0 :: u8]" "\<not> (2 :: u64) \<le> 1"
    by (simp add: numeral_eq_Suc) (simp add: word_le_nat_alt)
  have w: "read_window demo_file 1 3 = Inr ([8, 0, 0], [en_id demo1])"
    by (simp add: read_window_def demo_file_def u64_saturating_sub_def u64_saturating_add_def content_len_def min_def Let_def insort_insert_key_def rep)
  let ?p = "FsRead \<lparr>fr_path_ref = path_ref demo_hash [97], fr_offset = 1, fr_requested_len = 3, fr_observed = Present [8, 0, 0]\<rparr>"
  have h: "map_of (js_heads demo_journal) (ActorId 3) = None" by (simp add: demo_journal_def commit_def journal_new_def)
  have len: "length (to_framed_bytes (en_id demo1)) = 34" by (simp add: demo1_def to_framed_bytes_def)
  have "\<exists>e. append_entry demo_hash (journal_get demo_journal) (map_of (js_heads demo_journal) (ActorId 3)) KFsRead (ActorId 3) [en_id demo1] ?p = Inr e"
    unfolding h
    by (simp add: append_entry_def assemble_parents_def push_parent_def demo1_get new_with_scratch_def
        new_with_scratch_recorded_def make_data_def entry_eval cbor_eval FORMAT_VERSION_def path_eval cbor_hash_def len)
  then obtain e where "append_entry demo_hash (journal_get demo_journal) (map_of (js_heads demo_journal) (ActorId 3)) KFsRead
      (ActorId 3) [en_id demo1] ?p = Inr e" by blast
  then have "\<not> isl (fst (read_bytes demo_hash True (ActorId 3) [97] 1 3 (demo_fs, demo_journal)))"
    by (simp add: read_bytes_def f w fs_append_def append_def MAX_READ_BYTES_def)
  moreover obtain r fs' j' where run: "read_bytes demo_hash True (ActorId 3) [97] 1 3 (demo_fs, demo_journal) = (r, fs', j')"
    by (metis prod_cases3)
  ultimately show ?thesis
    using fs_read_exact [OF demo_fs_ok f _ _ run] by (auto simp: MAX_READ_BYTES_def demo_abs split: sum.splits)
qed

theorem fs_durability_witness:
  "fs_abs (crash (fst (fs_run demo_hash True [OWrite (ActorId 1) [98] 0 [1], OAllocate (ActorId 1) [98]]
     (snd (fsync demo_hash True False (ActorId 1) (demo_fs, journal_new)))))) [47, 97] = Some ([7, 8, 0, 0, 9], Some [7, 8, 0, 0, 9])"
proof -
  obtain e where e: "append_entry demo_hash (journal_get journal_new) (map_of (js_heads journal_new) (ActorId 1)) KFsFsync (ActorId 1) []
      (FsFsync \<lparr>fy_path_ref = path_ref demo_hash [47]\<rparr>) = Inr e"
    by (simp add: append_entry_def assemble_parents_def journal_new_def new_with_scratch_def
        new_with_scratch_recorded_def make_data_def entry_eval cbor_eval FORMAT_VERSION_def path_eval)
  then obtain fs1 j1 where f: "fsync demo_hash True False (ActorId 1) (demo_fs, journal_new) = (Inr (en_id e), fs1, j1)"
    by (auto simp: fsync_def append_def split: prod.splits sum.splits)
  obtain fs2 j2 where r: "fs_run demo_hash True [OWrite (ActorId 1) [98] 0 [1], OAllocate (ActorId 1) [98]] (fs1, j1) = (fs2, j2)" by force
  show ?thesis
    using fs_durability [OF demo_fs_ok f _ r] by (simp add: f r demo_fs_abs del: fs_run.simps)
qed

section \<open>Renames and overflow\<close>

text \<open>A rename is not undone by a crash, although no barrier has made it durable.\<close>

lemma rename_survives_crash:
  assumes "fs_ok fs" "path_key blake3 p \<noteq> path_key blake3 q" "fs_abs fs (path_key blake3 p) = Some (v, Some d)"
    "rename blake3 u False a p q (fs, j) = (Inr i, fs', j')"
  shows "fs_abs (crash fs') (path_key blake3 q) = Some (d, Some d) \<and> fs_abs (crash fs') (path_key blake3 p) = None"
proof -
  have "step_ok (path_key blake3) (ORename a p q) (fs, j) (Inr (), fs', j')"
    using rename_step [OF assms(1), of blake3 a p q j u] assms(4) by simp
  then have "fs_ok fs'" "fs_abs fs' = spec_rename (path_key blake3 p) (path_key blake3 q) (fs_abs fs)"
    by (simp_all add: step_ok_def)
  then show ?thesis using crash_all_ok(2) assms(2,3) by (simp add: spec_crash_def spec_rename_def)
qed

text \<open>
  With the journaling feature the barrier replays a rename that the store has already made: a file created
  under the old name in the meantime replaces the renamed one.
\<close>

lemma journaled_fsync_replaces:
  assumes "om_wf (fs_files fs)" "fs_journal fs = []" "fs_pending_renames fs = [(src, dst)]" "map_of (fs_files fs) src = Some f" "src \<noteq> dst"
  shows "map_of (fs_files (commit_journaled fs)) dst = Some f \<and> map_of (fs_files (commit_journaled fs)) src = None"
  using assms by (simp add: commit_journaled_def rename_file_def om_wf_remove map_of_om_insert map_of_om_remove)

lemma read_window_overflow: "read_window f 18446744073709551615 n = Inl (FsPanic ''attempt to add with overflow'')"
  by (simp add: read_window_def Let_def)

end

