(* ===== verification/Sim_Time.thy ===== *)
theory Sim_Time
  imports Journal_Dag
begin

text \<open>
  Virtual time and its timers (\<open>ledger-sim/src/time.rs\<close>). The binary heap is the list of its timers from the
  greatest down in the order of \<open>impl Ord for Timer\<close>, which is the order in which it gives them up. Every run
  of operations refines an abstract clock that keeps the pending timers in the order they were set.
\<close>

record timer =
  tm_deadline :: u64
  tm_sequence :: u64
  tm_task :: nat
  tm_enabler :: "entry_hash option"

record timer_fired =
  tf_task :: nat
  tf_enabler :: "entry_hash option"

text \<open>\<open>impl Ord for Timer\<close>: reversed, so that the heap's greatest timer is the earliest.\<close>

definition cmp_timer :: "timer \<Rightarrow> timer \<Rightarrow> ordering" where
  "cmp_timer a b = then_with (cmp (tm_deadline b) (tm_deadline a)) (cmp (tm_sequence b) (tm_sequence a))"

text \<open>
  The binary heap as the list of its timers from the greatest down. The sequence numbers of the timers of
  a clock are distinct, so the order in which the heap gives them up is determined.
\<close>

primrec heap_push :: "timer \<Rightarrow> timer list \<Rightarrow> timer list" where
  "heap_push t [] = [t]"
| "heap_push t (x # h) = (if cmp_timer t x = Greater then t # x # h else x # heap_push t h)"

definition heap_peek :: "timer list \<Rightarrow> timer option" where
  "heap_peek h = (case h of [] \<Rightarrow> None | t # _ \<Rightarrow> Some t)"

record virtual_time =
  vt_now :: u64
  vt_sequence :: u64
  vt_timers :: "timer list"

definition from_ticks :: "u64 \<Rightarrow> virtual_time" where
  "from_ticks n = \<lparr>vt_now = n, vt_sequence = 0, vt_timers = []\<rparr>"

definition set_with_enabler :: "u64 \<Rightarrow> nat \<Rightarrow> entry_hash option \<Rightarrow> virtual_time \<Rightarrow> virtual_time" where
  "set_with_enabler delay task enabler vt =
     (let s = vt_sequence vt + 1
      in vt\<lparr>vt_sequence := s, vt_timers := heap_push \<lparr>tm_deadline = u64_saturating_add (vt_now vt) delay,
            tm_sequence = s, tm_task = task, tm_enabler = enabler\<rparr> (vt_timers vt)\<rparr>)"

definition set_timer :: "u64 \<Rightarrow> nat \<Rightarrow> virtual_time \<Rightarrow> virtual_time" where
  "set_timer delay task = set_with_enabler delay task None"

text \<open>\<open>while peek().is_some_and(p) { pop; push(TimerFired) }\<close>\<close>

fun fire_while :: "(timer \<Rightarrow> bool) \<Rightarrow> timer list \<Rightarrow> timer_fired list \<Rightarrow> timer_fired list \<times> timer list" where
  "fire_while p [] ready = (ready, [])"
| "fire_while p (t # h) ready =
     (if p t then fire_while p h (ready @ [\<lparr>tf_task = tm_task t, tf_enabler = tm_enabler t\<rparr>]) else (ready, t # h))"

definition advance_with_enablers :: "virtual_time \<Rightarrow> timer_fired list \<times> virtual_time" where
  "advance_with_enablers vt =
     (case heap_peek (vt_timers vt) of
        None \<Rightarrow> ([], vt)
      | Some next \<Rightarrow>
          let now = tm_deadline next; (ready, h) = fire_while (\<lambda>t. tm_deadline t = now) (vt_timers vt) []
          in (ready, vt\<lparr>vt_now := now, vt_timers := h\<rparr>))"

definition advance :: "virtual_time \<Rightarrow> nat list \<times> virtual_time" where
  "advance vt = apfst (map tf_task) (advance_with_enablers vt)"

definition next_deadline :: "virtual_time \<Rightarrow> u64 option" where
  "next_deadline vt = map_option tm_deadline (heap_peek (vt_timers vt))"

text \<open>\<open>None\<close> is the failed assertion that time does not move backward.\<close>

definition advance_to_with_enablers :: "u64 \<Rightarrow> virtual_time \<Rightarrow> (timer_fired list \<times> virtual_time) option" where
  "advance_to_with_enablers target vt =
     (if \<not> target \<ge> vt_now vt then None
      else let (ready, h) = fire_while (\<lambda>t. tm_deadline t \<le> target) (vt_timers vt) []
        in Some (ready, vt\<lparr>vt_now := target, vt_timers := h\<rparr>))"

definition advance_to :: "u64 \<Rightarrow> virtual_time \<Rightarrow> virtual_time option" where
  "advance_to deadline vt = (if \<not> deadline \<ge> vt_now vt then None else Some (vt\<lparr>vt_now := deadline\<rparr>))"

section \<open>Runs\<close>

text \<open>What a run does to its clock; \<open>None\<close> is a failed assertion.\<close>

datatype clock_op =
    OpSet u64 nat "entry_hash option"
  | OpAdvance
  | OpAdvanceTo u64
  | OpJump u64

fun clock_step :: "clock_op \<Rightarrow> virtual_time \<Rightarrow> (timer_fired list \<times> virtual_time) option" where
  "clock_step (OpSet delay task enabler) vt = Some ([], set_with_enabler delay task enabler vt)"
| "clock_step OpAdvance vt = Some (advance_with_enablers vt)"
| "clock_step (OpAdvanceTo target) vt = advance_to_with_enablers target vt"
| "clock_step (OpJump deadline) vt = map_option (Pair []) (advance_to deadline vt)"

fun clock_run :: "clock_op list \<Rightarrow> virtual_time \<Rightarrow> (timer_fired list list \<times> virtual_time) option" where
  "clock_run [] vt = Some ([], vt)"
| "clock_run (x # ops) vt =
     (case clock_step x vt of None \<Rightarrow> None | Some (fired, vt) \<Rightarrow> map_option (apfst ((#) fired)) (clock_run ops vt))"

text \<open>The abstract clock: the time and the pending timers, with their deadlines, in the order they were set.\<close>

type_synonym pending_clock = "u64 \<times> (u64 \<times> timer_fired) list"

fun pending_step :: "clock_op \<Rightarrow> pending_clock \<Rightarrow> (timer_fired list \<times> pending_clock) option" where
  "pending_step (OpSet delay task enabler) (now, pending) =
     Some ([], now, pending @ [(u64_saturating_add now delay, \<lparr>tf_task = task, tf_enabler = enabler\<rparr>)])"
| "pending_step OpAdvance (now, pending) =
     Some (if pending = [] then ([], now, pending)
       else let first = Min (set (map fst pending))
         in (map snd (filter (\<lambda>p. fst p = first) pending), first, filter (\<lambda>p. fst p \<noteq> first) pending))"
| "pending_step (OpAdvanceTo target) (now, pending) =
     (if target < now then None
      else Some (map snd (sort_key fst (filter (\<lambda>p. fst p \<le> target) pending)), target, filter (\<lambda>p. target < fst p) pending))"
| "pending_step (OpJump deadline) (now, pending) = (if deadline < now then None else Some ([], deadline, pending))"

fun pending_run :: "clock_op list \<Rightarrow> pending_clock \<Rightarrow> (timer_fired list list \<times> pending_clock) option" where
  "pending_run [] c = Some ([], c)"
| "pending_run (x # ops) c =
     (case pending_step x c of None \<Rightarrow> None | Some (fired, c) \<Rightarrow> map_option (apfst ((#) fired)) (pending_run ops c))"

definition fired_of :: "timer \<Rightarrow> timer_fired" where
  "fired_of t = \<lparr>tf_task = tm_task t, tf_enabler = tm_enabler t\<rparr>"

definition timer_request :: "timer \<Rightarrow> u64 \<times> timer_fired" where
  "timer_request t = (tm_deadline t, fired_of t)"

text \<open>The sequence numbers tell the order in which the timers of the heap were set.\<close>

definition clock_abs :: "virtual_time \<Rightarrow> pending_clock" where
  "clock_abs vt = (vt_now vt, map timer_request (sort_key tm_sequence (vt_timers vt)))"

text \<open>The invariant of a clock: the timers in firing order, sequence numbers used once.\<close>

definition timer_key :: "timer \<Rightarrow> u64 \<times> u64" where
  "timer_key t = (tm_deadline t, tm_sequence t)"

definition vt_ok :: "virtual_time \<Rightarrow> bool" where
  "vt_ok vt \<longleftrightarrow> sorted_wrt (<) (map timer_key (vt_timers vt)) \<and> distinct (map tm_sequence (vt_timers vt))
     \<and> (\<forall>t\<in>set (vt_timers vt). tm_sequence t \<le> vt_sequence vt)"

lemma cmp_timer_key: "cmp_timer a b = cmp (timer_key b) (timer_key a)"
  by (auto simp: cmp_timer_def timer_key_def cmp_def less_prod_def)

lemma heap_push_sorted:
  assumes "sorted_wrt (<) (map timer_key h)" "timer_key t \<notin> timer_key ` set h"
  shows "sorted_wrt (<) (map timer_key (heap_push t h))" "set (heap_push t h) = insert t (set h)"
    "mset (heap_push t h) = add_mset t (mset h)"
proof -
  show "set (heap_push t h) = insert t (set h)" for h by (induction h) auto
  show "mset (heap_push t h) = add_mset t (mset h)" by (induction h) auto
  show "sorted_wrt (<) (map timer_key (heap_push t h))"
    using assms
  proof (induction h)
    case (Cons x h)
    have "set (heap_push t h) = insert t (set h)" by (induction h) auto
    then show ?case using Cons by (auto simp: cmp_timer_key intro: less_trans)
  qed simp
qed

lemma fire_while_eq: "fire_while p h ready = (ready @ map fired_of (takeWhile p h), dropWhile p h)"
  by (induction p h ready rule: fire_while.induct) (simp_all add: fired_of_def)

lemma sorted_takeWhile_le:
  "sorted_wrt (<) (map timer_key h) \<Longrightarrow> takeWhile (\<lambda>t. tm_deadline t \<le> d) h = filter (\<lambda>t. tm_deadline t \<le> d) h
     \<and> dropWhile (\<lambda>t. tm_deadline t \<le> d) h = filter (\<lambda>t. \<not> tm_deadline t \<le> d) h"
proof (induction h)
  case (Cons t h)
  show ?case
  proof (cases "tm_deadline t \<le> d")
    case False
    then have "\<forall>x\<in>set h. \<not> tm_deadline x \<le> d"
      using Cons.prems by (auto simp: timer_key_def less_prod_def)
    then show ?thesis using False by (simp add: filter_False filter_id_conv)
  qed (use Cons in simp)
qed simp

lemma insort_key_map: "insort_key f (g x) (map g ys) = map g (insort_key (f \<circ> g) x ys)"
  by (induction ys) auto

lemma sort_key_map: "sort_key f (map g xs) = map g (sort_key (f \<circ> g) xs)"
  by (induction xs) (simp_all add: insort_key_map comp_def)

lemma strict_sorted_mset_eq:
  fixes f :: "'a \<Rightarrow> 'b::linorder"
  assumes "sorted_wrt (\<lambda>a b. f a < f b) xs" "sorted_wrt (\<lambda>a b. f a < f b) ys" "mset xs = mset ys"
  shows "xs = ys"
proof -
  have s: "sorted (map f zs) \<and> inj_on f (set zs)" if "sorted_wrt (\<lambda>a b. f a < f b) zs" for zs
  proof -
    have "sorted_wrt (<) (map f zs)" using that by (simp add: sorted_wrt_map)
    then show ?thesis using strict_sorted_iff [of "map f zs"] by (simp add: distinct_map)
  qed
  have "sort_key f xs = ys" "sort_key f xs = xs"
    using s [OF assms(1)] s [OF assms(2)] assms(3) by (auto intro!: sort_key_inj_key_eq)
  then show ?thesis by simp
qed

text \<open>A heap in firing order is the stable sort by deadline of its timers in sequence order.\<close>

lemma heap_stable_sort:
  assumes "sorted_wrt (<) (map timer_key h)" "mset h = mset ts" "sorted_wrt (<) (map tm_sequence ts)"
  shows "h = sort_key tm_deadline ts"
proof (rule properties_for_sort_key [symmetric])
  show "mset h = mset ts" by fact
  have "sorted_wrt (\<lambda>a b. timer_key a < timer_key b) h" using assms(1) by (simp add: sorted_wrt_map)
  then have "sorted_wrt (\<lambda>a b. tm_deadline a \<le> tm_deadline b) h"
    by (rule sorted_wrt_mono_rel [rotated]) (auto simp: timer_key_def less_prod_def)
  then show "sorted (map tm_deadline h)" by (simp add: sorted_map)
  fix k assume "k \<in> set h"
  let ?P = "\<lambda>x. tm_deadline k = tm_deadline x"
  have "sorted_wrt (\<lambda>a b. timer_key a < timer_key b) (filter ?P h)"
    using assms(1) by (simp add: sorted_wrt_map sorted_wrt_filter)
  then have "sorted_wrt (\<lambda>a b. tm_sequence a < tm_sequence b) (filter ?P h)"
    by (rule sorted_wrt_mono_rel [rotated]) (auto simp: timer_key_def less_prod_def)
  moreover have "sorted_wrt (\<lambda>a b. tm_sequence a < tm_sequence b) (filter ?P ts)"
    using assms(3) by (simp add: sorted_wrt_map sorted_wrt_filter)
  moreover have "mset (filter ?P h) = mset (filter ?P ts)" using assms(2) by simp
  ultimately show "filter ?P h = filter ?P ts" by (rule strict_sorted_mset_eq)
qed

section \<open>Refinement\<close>

lemma sort_key_same: "sort_key f (filter (\<lambda>x. f x = d) xs) = filter (\<lambda>x. f x = d) xs"
  by (induction xs) (simp_all add: insort_is_Cons)

lemma run_commute: "map_option (apsnd g) (map_option (apfst f) z) = map_option (apfst f) (map_option (apsnd g) z)"
  by (cases z) auto

lemma pending_order:
  assumes "vt_ok vt"
  shows "vt_timers vt = sort_key tm_deadline (sort_key tm_sequence (vt_timers vt))"
proof (rule heap_stable_sort)
  show "sorted_wrt (<) (map timer_key (vt_timers vt))" using assms by (simp add: vt_ok_def)
  have "sorted (map tm_sequence (sort_key tm_sequence (vt_timers vt)))" by simp
  moreover have "distinct (map tm_sequence (sort_key tm_sequence (vt_timers vt)))" using assms by (simp add: vt_ok_def distinct_map)
  ultimately show "sorted_wrt (<) (map tm_sequence (sort_key tm_sequence (vt_timers vt)))"
    using strict_sorted_iff by blast
qed simp

text \<open>Firing the timers of a deadline range and keeping the others, seen from the abstract clock.\<close>

lemma fired_abs:
  assumes "vt_ok vt"
  shows "map fired_of (filter (\<lambda>t. P (tm_deadline t)) (vt_timers vt)) = map snd (sort_key fst (filter (\<lambda>p. P (fst p)) (snd (clock_abs vt))))"
proof -
  let ?S = "sort_key tm_sequence (vt_timers vt)"
  have "sort_key fst (filter (\<lambda>p. P (fst p)) (map timer_request ?S)) = map timer_request (sort_key tm_deadline (filter (\<lambda>t. P (tm_deadline t)) ?S))"
    by (simp add: filter_map sort_key_map comp_def timer_request_def)
  also have "\<dots> = map timer_request (filter (\<lambda>t. P (tm_deadline t)) (vt_timers vt))"
    using pending_order [OF assms] filter_sort [of "\<lambda>t. P (tm_deadline t)" tm_deadline ?S] by simp
  finally show ?thesis by (simp add: clock_abs_def timer_request_def)
qed

lemma rest_abs:
  "clock_abs (vt\<lparr>vt_now := n, vt_timers := filter (\<lambda>t. P (tm_deadline t)) (vt_timers vt)\<rparr>) = (n, filter (\<lambda>p. P (fst p)) (snd (clock_abs vt)))"
  by (simp add: clock_abs_def filter_map comp_def timer_request_def filter_sort [symmetric])

lemma rest_ok: "vt_ok vt \<Longrightarrow> vt_ok (vt\<lparr>vt_now := n, vt_timers := filter Q (vt_timers vt)\<rparr>)"
  by (auto simp: vt_ok_def sorted_wrt_map sorted_wrt_filter distinct_map inj_on_def)

lemma set_refines:
  assumes "vt_ok vt" "vt_sequence vt < 18446744073709551615"
  shows "vt_ok (set_with_enabler delay task enabler vt)" "vt_sequence (set_with_enabler delay task enabler vt) = vt_sequence vt + 1"
    "clock_abs (set_with_enabler delay task enabler vt) =
       (vt_now vt, snd (clock_abs vt) @ [(u64_saturating_add (vt_now vt) delay, \<lparr>tf_task = task, tf_enabler = enabler\<rparr>)])"
proof -
  define t where "t = \<lparr>tm_deadline = u64_saturating_add (vt_now vt) delay, tm_sequence = vt_sequence vt + 1, tm_task = task, tm_enabler = enabler\<rparr>"
  have set: "set_with_enabler delay task enabler vt = vt\<lparr>vt_sequence := vt_sequence vt + 1, vt_timers := heap_push t (vt_timers vt)\<rparr>"
    by (simp add: set_with_enabler_def Let_def t_def)
  then show "vt_sequence (set_with_enabler delay task enabler vt) = vt_sequence vt + 1" by simp
  have s: "vt_sequence vt < vt_sequence vt + 1"
    using assms(2) by (simp add: word_less_nat_alt unat_word_ariths)
  then have new: "\<forall>x\<in>set (vt_timers vt). tm_sequence x < tm_sequence t" using assms(1) by (auto simp: vt_ok_def t_def)
  then have "timer_key t \<notin> timer_key ` set (vt_timers vt)" by (auto simp: timer_key_def)
  note push = heap_push_sorted [OF _ this]
  have h: "sorted_wrt (<) (map timer_key (vt_timers vt))" "distinct (map tm_sequence (vt_timers vt))" using assms(1) by (simp_all add: vt_ok_def)
  have d: "distinct (map tm_sequence (heap_push t (vt_timers vt)))"
  proof -
    have "mset (map tm_sequence (heap_push t (vt_timers vt))) = mset (map tm_sequence (t # vt_timers vt))" using push(3) [OF h(1)] by simp
    from mset_eq_imp_distinct_iff [OF this] show ?thesis using h(2) new by auto
  qed
  show "vt_ok (set_with_enabler delay task enabler vt)"
    using assms(1) push(1,2) [OF h(1)] s d unfolding vt_ok_def set by (auto simp: t_def intro: order_trans less_imp_le)
  have "sort_key tm_sequence (heap_push t (vt_timers vt)) = sort_key tm_sequence (vt_timers vt) @ [t]"
  proof (rule strict_sorted_mset_eq)
    have "sorted_wrt (<) (map tm_sequence (sort_key tm_sequence xs))" if "distinct (map tm_sequence xs)" for xs :: "timer list"
      using that by (subst strict_sorted_iff) (simp add: distinct_map)
    then show "sorted_wrt (\<lambda>a b. tm_sequence a < tm_sequence b) (sort_key tm_sequence (heap_push t (vt_timers vt)))"
      "sorted_wrt (\<lambda>a b. tm_sequence a < tm_sequence b) (sort_key tm_sequence (vt_timers vt) @ [t])"
      using d h(2) new by (simp_all add: sorted_wrt_map sorted_wrt_append)
  qed (simp add: push(3) [OF h(1)])
  then show "clock_abs (set_with_enabler delay task enabler vt) =
       (vt_now vt, snd (clock_abs vt) @ [(u64_saturating_add (vt_now vt) delay, \<lparr>tf_task = task, tf_enabler = enabler\<rparr>)])"
    by (simp add: clock_abs_def set timer_request_def fired_of_def t_def)
qed

lemma advance_to_refines:
  assumes "vt_ok vt" "vt_now vt \<le> target"
  shows "\<exists>vt'. advance_to_with_enablers target vt =
      Some (map snd (sort_key fst (filter (\<lambda>p. fst p \<le> target) (snd (clock_abs vt)))), vt')
    \<and> vt_ok vt' \<and> vt_sequence vt' = vt_sequence vt \<and> clock_abs vt' = (target, filter (\<lambda>p. target < fst p) (snd (clock_abs vt)))"
proof -
  have "fire_while (\<lambda>t. tm_deadline t \<le> target) (vt_timers vt) [] = (map fired_of (filter (\<lambda>t. tm_deadline t \<le> target) (vt_timers vt)),
      filter (\<lambda>t. target < tm_deadline t) (vt_timers vt))"
    using sorted_takeWhile_le [of "vt_timers vt" target] assms(1) by (simp add: fire_while_eq vt_ok_def not_le)
  then show ?thesis
    using assms fired_abs [OF assms(1), where P = "\<lambda>d. d \<le> target"] rest_abs [where P = "\<lambda>d. target < d" and vt = vt and n = target] rest_ok [OF assms(1), where n = target]
    by (simp add: advance_to_with_enablers_def)
qed

lemma advance_refines:
  assumes "vt_ok vt" "pending_step OpAdvance (clock_abs vt) = Some (fired, c)"
  shows "\<exists>vt'. advance_with_enablers vt = (fired, vt') \<and> vt_ok vt' \<and> vt_sequence vt' = vt_sequence vt \<and> clock_abs vt' = c"
proof (cases "vt_timers vt")
  case Nil
  then show ?thesis using assms by (auto simp: advance_with_enablers_def heap_peek_def clock_abs_def)
next
  case (Cons t h)
  let ?d = "tm_deadline t" and ?p = "snd (clock_abs vt)"
  have sorted: "sorted_wrt (<) (map timer_key (vt_timers vt))" using assms(1) by (simp add: vt_ok_def)
  have least: "\<forall>x\<in>set (vt_timers vt). ?d \<le> tm_deadline x" using sorted Cons by (auto simp: timer_key_def less_prod_def)
  have deadlines: "set (map fst ?p) = tm_deadline ` set (vt_timers vt)" by (simp add: clock_abs_def timer_request_def image_image)
  have first: "Min (set (map fst ?p)) = ?d" unfolding deadlines using least Cons by (intro Min_eqI) auto
  have "takeWhile (\<lambda>x. tm_deadline x = ?d) (vt_timers vt) = filter (\<lambda>x. tm_deadline x = ?d) (vt_timers vt)
      \<and> dropWhile (\<lambda>x. tm_deadline x = ?d) (vt_timers vt) = filter (\<lambda>x. tm_deadline x \<noteq> ?d) (vt_timers vt)"
  proof -
    have "tm_deadline x = ?d \<longleftrightarrow> tm_deadline x \<le> ?d" if "x \<in> set (vt_timers vt)" for x using least that by fastforce
    then show ?thesis using sorted_takeWhile_le [OF sorted, of ?d]
      by (simp cong: takeWhile_cong dropWhile_cong filter_cong)
  qed
  moreover have "sort_key fst (filter (\<lambda>p. fst p = ?d) ?p) = filter (\<lambda>p. fst p = ?d) ?p"
    by (rule sort_key_same)
  moreover have "fst (clock_abs vt) = vt_now vt" "?p \<noteq> []" using Cons by (simp_all add: clock_abs_def)
  ultimately show ?thesis
    using Cons assms fired_abs [OF assms(1), where P = "\<lambda>d. d = ?d"] rest_abs [where P = "\<lambda>d. d \<noteq> ?d" and vt = vt and n = ?d] rest_ok [OF assms(1), where n = ?d and Q = "\<lambda>x. tm_deadline x \<noteq> ?d"] first
    by (cases "clock_abs vt") (simp add: advance_with_enablers_def heap_peek_def fire_while_eq Let_def)
qed

lemma clock_step_refines:
  assumes "vt_ok vt" "vt_sequence vt < 18446744073709551615"
  shows "case pending_step x (clock_abs vt) of None \<Rightarrow> clock_step x vt = None
    | Some (fired, c) \<Rightarrow> \<exists>vt'. clock_step x vt = Some (fired, vt') \<and> vt_ok vt' \<and> clock_abs vt' = c
        \<and> vt_sequence vt' \<in> {vt_sequence vt, vt_sequence vt + 1}"
proof (cases x)
  case (OpSet delay task enabler)
  then show ?thesis using set_refines [OF assms, of delay task enabler] by (simp add: clock_abs_def)
next
  case OpAdvance
  obtain fired c where "pending_step OpAdvance (clock_abs vt) = Some (fired, c)" by (cases "clock_abs vt") (simp, metis surj_pair)
  then show ?thesis using advance_refines [OF assms(1), of fired c] OpAdvance by auto
next
  case (OpAdvanceTo target)
  have "fst (clock_abs vt) = vt_now vt" by (simp add: clock_abs_def)
  then show ?thesis using advance_to_refines [OF assms(1), of target] OpAdvanceTo
    by (cases "clock_abs vt") (auto simp: not_less advance_to_with_enablers_def)
next
  case (OpJump deadline)
  then show ?thesis using assms(1) by (simp add: clock_abs_def advance_to_def vt_ok_def not_less)
qed

lemma clock_run_refines:
  "vt_ok vt \<Longrightarrow> unat (vt_sequence vt) + length ops < 18446744073709551616 \<Longrightarrow>
    map_option (apsnd clock_abs) (clock_run ops vt) = pending_run ops (clock_abs vt)"
proof (induction ops arbitrary: vt)
  case (Cons x ops)
  have s: "vt_sequence vt < 18446744073709551615" using Cons.prems(2) by (simp add: word_less_nat_alt)
  show ?case
  proof (cases "pending_step x (clock_abs vt)")
    case None
    then show ?thesis using clock_step_refines [OF Cons.prems(1) s, of x] by simp
  next
    case (Some r)
    obtain fired c where r: "r = (fired, c)" by (cases r)
    then obtain vt' where vt': "clock_step x vt = Some (fired, vt')" "vt_ok vt'" "clock_abs vt' = c" "vt_sequence vt' \<in> {vt_sequence vt, vt_sequence vt + 1}"
      using clock_step_refines [OF Cons.prems(1) s, of x] Some by auto
    have "unat (vt_sequence vt + 1) = unat (vt_sequence vt) + 1" using Cons.prems(2) by (simp add: unat_word_ariths)
    then have "unat (vt_sequence vt') + length ops < 18446744073709551616" using vt'(4) Cons.prems(2) by auto
    note Cons.IH [OF vt'(2) this]
    then show ?thesis using Some r vt' by (simp add: run_commute)
  qed
qed simp

text \<open>
  C21: timers fire in the order of their deadlines, and timers with the same deadline in the order in which
  they were set. Take any run of sets, advances to the next deadline, advances to a time and jumps, in any order,
  on a new clock. It fires, operation by operation, what the abstract clock fires, fails the same assertions, and
  ends with the same time and exactly the same pending timers. The abstract clock keeps the pending timers in
  the order they were set: an advance to a time fires those that are due, stably sorted by deadline, and an advance
  to the next deadline fires those with the least deadline; both leave all the others pending. The bound is
  the range of the 64-bit sequence number.
\<close>

theorem timers_fire_in_order:
  assumes "length ops < 18446744073709551616"
  shows "map_option (apsnd clock_abs) (clock_run ops (from_ticks n)) = pending_run ops (n, [])"
proof -
  have "vt_ok (from_ticks n)" "clock_abs (from_ticks n) = (n, [])" "vt_sequence (from_ticks n) = 0"
    by (simp_all add: vt_ok_def clock_abs_def from_ticks_def)
  then show ?thesis using clock_run_refines [of "from_ticks n" ops] assms by simp
qed

theorem timers_fire_in_order_witness:
  "map_option (apsnd clock_abs) (clock_run [OpSet 5 1 None, OpSet 20 2 None, OpSet 3 3 None, OpAdvance, OpSet 2 4 None, OpAdvanceTo 9] (from_ticks 1)) =
     Some ([[], [], [], [\<lparr>tf_task = 3, tf_enabler = None\<rparr>], [],
       [\<lparr>tf_task = 1, tf_enabler = None\<rparr>, \<lparr>tf_task = 4, tf_enabler = None\<rparr>]], 9, [(21, \<lparr>tf_task = 2, tf_enabler = None\<rparr>)])"
  using timers_fire_in_order [of "[OpSet 5 1 None, OpSet 20 2 None, OpSet 3 3 None, OpAdvance, OpSet 2 4 None, OpAdvanceTo 9]" 1]
  by (simp add: u64_saturating_add_def)

end
