(* ===== verification/Sim_Net.thy ===== *)
theory Sim_Net
  imports Journal_Dag
begin

text \<open>
  The network simulator (\<open>ledger-sim/src/net.rs\<close>): link configurations, partitions, the capacity of the
  queue and its policies, sending with faults, and the deterministic and the drawn ways to receive.
  A probability is its bit pattern, read only through the tests the code makes on it.
\<close>

section \<open>Messages and links\<close>

record message =
  msg_from :: nat
  msg_to :: nat
  msg_content :: bytes
  msg_send_id :: entry_hash
  msg_message_id :: message_id
  msg_deliver_at :: u64

definition message_payload :: "message \<Rightarrow> u64" where
  "message_payload m = (let n = min (length (msg_content m)) 8
     in of_nat (le_val (take n (msg_content m) @ replicate (8 - n) 0)))"

datatype queue_full_policy = DropMsg | BlockSend

datatype net_error =
    QueueFull nat nat nat nat
  | InvalidReorderWindow nat string

definition MAX_REORDER_WINDOW :: nat where "MAX_REORDER_WINDOW = 65536"

text \<open>A probability is the bit pattern of its \<open>f64\<close>, finite, not negative and at most one.\<close>

record link_config =
  lc_base_delay :: u64
  lc_jitter :: u64
  lc_loss_probability :: f64
  lc_reorder_window :: nat
  lc_capacity :: "nat option"
  lc_queue_policy :: queue_full_policy

definition link_config_default :: link_config where
  "link_config_default = \<lparr>lc_base_delay = 0, lc_jitter = 0, lc_loss_probability = 0, lc_reorder_window = 0,
     lc_capacity = None, lc_queue_policy = DropMsg\<rparr>"

text \<open>\<open>p > 0.0\<close> and \<open>(p * 1_000_000_000.0) as u64\<close> for a probability: the product rounded to 53 bits, truncated.\<close>

definition prob_positive :: "f64 \<Rightarrow> bool" where
  "prob_positive p \<longleftrightarrow> \<not> is_nan64 p \<and> \<not> is_sign_negative64 p \<and> \<not> is_zero64 p"

definition loss_threshold :: "f64 \<Rightarrow> u64" where
  "loss_threshold p =
     (let e = fexp 52 11 (unat p); m = fmant 52 (unat p);
          mant = (if e = 0 then m else m + 2 ^ 52); scale = (if e = 0 then 1074 else 1075 - e);
          prod = mant * 1000000000; sh = msb_pos prod - 52
      in of_nat (round_shift prod sh * 2 ^ sh div 2 ^ scale))"

section \<open>Names and backoff\<close>

type_synonym dns_table = "(bytes \<times> nat) list"

definition dns_insert :: "bytes \<Rightarrow> nat \<Rightarrow> dns_table \<Rightarrow> bool \<times> dns_table" where
  "dns_insert name actor dns = (map_of dns name \<noteq> None, om_insert name actor dns)"

definition dns_resolve :: "bytes \<Rightarrow> dns_table \<Rightarrow> nat option" where
  "dns_resolve name dns = map_of dns name"

text \<open>A \<open>Duration\<close> is its number of nanoseconds.\<close>

definition as_micros :: "nat \<Rightarrow> nat" where
  "as_micros d = d div 1000"

definition backoff :: "nat \<Rightarrow> u32 \<Rightarrow> nat \<Rightarrow> nat" where
  "backoff base retry max_delay =
     (let base_ticks = min (as_micros base) 18446744073709551615;
          max_ticks = min (as_micros max_delay) 18446744073709551615;
          ticks = min (min (base_ticks * 2 ^ min (unat retry) 63) 18446744073709551615) max_ticks
      in ticks * 1000)"

definition backoff_jittered :: "nat \<Rightarrow> u32 \<Rightarrow> nat \<Rightarrow> u64 \<Rightarrow> nat" where
  "backoff_jittered base retry max_delay draw =
     (let delay = backoff base retry max_delay; ticks = as_micros delay;
          extra = unat draw mod max ticks 1 * 1000
      in min (delay + extra) max_delay)"

section \<open>The network\<close>

record sim_net =
  sn_queue :: "message list"
  sn_partitions :: "(nat \<times> nat) set"
  sn_reorder_window :: nat
  sn_links :: "((nat \<times> nat) \<times> link_config) list"

definition sim_net_new :: sim_net where
  "sim_net_new = \<lparr>sn_queue = [], sn_partitions = {}, sn_reorder_window = 0, sn_links = []\<rparr>"

definition set_link :: "nat \<Rightarrow> nat \<Rightarrow> link_config \<Rightarrow> sim_net \<Rightarrow> sim_net" where
  "set_link src dst cfg net = net\<lparr>sn_links := om_insert (src, dst) cfg (sn_links net)\<rparr>"

definition effective_link_config :: "nat \<Rightarrow> nat \<Rightarrow> sim_net \<Rightarrow> link_config" where
  "effective_link_config src dst net = (case map_of (sn_links net) (src, dst) of Some c \<Rightarrow> c | None \<Rightarrow> link_config_default)"

definition validate_reorder_window :: "nat \<Rightarrow> net_error + unit" where
  "validate_reorder_window window =
     (if window > MAX_REORDER_WINDOW then Inl (InvalidReorderWindow window ''window exceeds the representable bound'') else Inr ())"

definition effective_reorder_window :: "nat \<Rightarrow> nat \<Rightarrow> sim_net \<Rightarrow> nat" where
  "effective_reorder_window src dst net =
     (let per_link = (case map_of (sn_links net) (src, dst) of Some c \<Rightarrow> lc_reorder_window c | None \<Rightarrow> 0)
      in if per_link \<noteq> 0 then per_link else sn_reorder_window net)"

definition queued_for :: "nat \<Rightarrow> nat \<Rightarrow> sim_net \<Rightarrow> nat" where
  "queued_for src dst net = length (filter (\<lambda>m. msg_from m = src \<and> msg_to m = dst) (sn_queue net))"

definition check_capacity :: "nat \<Rightarrow> nat \<Rightarrow> sim_net \<Rightarrow> net_error + unit" where
  "check_capacity src dst net =
     (case Option.bind (map_of (sn_links net) (src, dst)) lc_capacity of
        None \<Rightarrow> Inr ()
      | Some cap \<Rightarrow> let queued = queued_for src dst net in if queued \<ge> cap then Inl (QueueFull src dst cap queued) else Inr ())"

definition queue_policy :: "nat \<Rightarrow> nat \<Rightarrow> sim_net \<Rightarrow> queue_full_policy" where
  "queue_policy src dst net = (case map_of (sn_links net) (src, dst) of Some c \<Rightarrow> lc_queue_policy c | None \<Rightarrow> DropMsg)"

definition is_partitioned :: "nat \<Rightarrow> nat \<Rightarrow> sim_net \<Rightarrow> bool" where
  "is_partitioned src dst net \<longleftrightarrow> (src, dst) \<in> sn_partitions net"

definition toggle_partition :: "nat \<Rightarrow> nat \<Rightarrow> sim_net \<Rightarrow> sim_net" where
  "toggle_partition src dst net =
     (if (src, dst) \<in> sn_partitions net then net\<lparr>sn_partitions := sn_partitions net - {(src, dst)}\<rparr>
      else net\<lparr>sn_partitions := insert (src, dst) (sn_partitions net)\<rparr>)"

definition partition_link :: "nat \<Rightarrow> nat \<Rightarrow> sim_net \<Rightarrow> sim_net" where
  "partition_link src dst net = net\<lparr>sn_partitions := insert (src, dst) (sn_partitions net)\<rparr>"

datatype fault_spec =
    SpecDrop
  | SpecDelay u64
  | SpecPartition actor_id actor_id
  | SpecCrash
  | SpecCorrupt
  | SpecCrashState u64
  | SpecDuplicate

definition apply_fault :: "fault_spec \<Rightarrow> sim_net \<Rightarrow> bool \<times> sim_net" where
  "apply_fault fault net =
     (case fault of
        SpecPartition src dst \<Rightarrow> (True, toggle_partition (unat (actor_val src)) (unat (actor_val dst)) net)
      | _ \<Rightarrow> (False, net))"

definition try_set_reorder_window :: "nat \<Rightarrow> sim_net \<Rightarrow> (net_error + unit) \<times> sim_net" where
  "try_set_reorder_window window net =
     (case validate_reorder_window window of
        Inl e \<Rightarrow> (Inl e, net)
      | Inr _ \<Rightarrow> (Inr (), net\<lparr>sn_reorder_window := window\<rparr>))"

definition try_set_link :: "nat \<Rightarrow> nat \<Rightarrow> link_config \<Rightarrow> sim_net \<Rightarrow> (net_error + unit) \<times> sim_net" where
  "try_set_link src dst cfg net =
     (case validate_reorder_window (lc_reorder_window cfg) of
        Inl e \<Rightarrow> (Inl e, net)
      | Inr _ \<Rightarrow> (Inr (), set_link src dst cfg net))"

definition set_reorder_window :: "nat \<Rightarrow> sim_net \<Rightarrow> sim_net" where
  "set_reorder_window window net = net\<lparr>sn_reorder_window := window\<rparr>"

section \<open>Sending\<close>

text \<open>\<open>unwrap_or(false)\<close>\<close>

definition or_false :: "('e + bool) \<times> 's \<Rightarrow> bool \<times> 's" where
  "or_false = apfst (\<lambda>r. case r of Inl _ \<Rightarrow> False | Inr b \<Rightarrow> b)"

definition try_send :: "message \<Rightarrow> sim_net \<Rightarrow> (net_error + bool) \<times> sim_net" where
  "try_send m net =
     (if is_partitioned (msg_from m) (msg_to m) net then (Inr False, net)
      else case check_capacity (msg_from m) (msg_to m) net of
        Inl e \<Rightarrow> (Inl e, net)
      | Inr _ \<Rightarrow> (Inr True, net\<lparr>sn_queue := sn_queue net @ [m]\<rparr>))"

definition send_msg :: "message \<Rightarrow> sim_net \<Rightarrow> bool \<times> sim_net" where
  "send_msg m net = or_false (try_send m net)"

definition try_send_at :: "nat \<Rightarrow> nat \<Rightarrow> u64 \<Rightarrow> entry_hash \<Rightarrow> u64 \<Rightarrow> u64 \<Rightarrow> sim_net \<Rightarrow> (net_error + bool) \<times> sim_net" where
  "try_send_at src dst payload send_id now delay =
     try_send \<lparr>msg_from = src, msg_to = dst, msg_content = le_bytes 8 (unat payload), msg_send_id = send_id,
       msg_message_id = \<lparr>sender = ActorId (of_nat src), sender_sequence = 0\<rparr>,
       msg_deliver_at = u64_saturating_add now delay\<rparr>"

definition send_at :: "nat \<Rightarrow> nat \<Rightarrow> u64 \<Rightarrow> entry_hash \<Rightarrow> u64 \<Rightarrow> u64 \<Rightarrow> sim_net \<Rightarrow> bool \<times> sim_net" where
  "send_at src dst payload send_id now delay net = or_false (try_send_at src dst payload send_id now delay net)"

definition try_send_at_with_identity :: "message \<Rightarrow> u64 \<Rightarrow> u64 \<Rightarrow> sim_net \<Rightarrow> (net_error + bool) \<times> sim_net" where
  "try_send_at_with_identity m now delay = try_send (m\<lparr>msg_deliver_at := u64_saturating_add now delay\<rparr>)"

definition send_at_with_identity :: "message \<Rightarrow> u64 \<Rightarrow> u64 \<Rightarrow> sim_net \<Rightarrow> bool \<times> sim_net" where
  "send_at_with_identity m now delay net = or_false (try_send_at_with_identity m now delay net)"

text \<open>A drawing closure is a function on the state of its generator.\<close>

type_synonym 's drawer = "u64 \<Rightarrow> 's \<Rightarrow> u64 \<times> 's"

definition try_send_via_link :: "'s drawer \<Rightarrow> message \<Rightarrow> u64 \<Rightarrow> u64 \<Rightarrow> sim_net \<times> 's \<Rightarrow> (net_error + bool) \<times> sim_net \<times> 's" where
  "try_send_via_link draw m now base_delay = (\<lambda>(net, s).
     if is_partitioned (msg_from m) (msg_to m) net then (Inr False, net, s)
     else case check_capacity (msg_from m) (msg_to m) net of
       Inl e \<Rightarrow> (Inl e, net, s)
     | Inr _ \<Rightarrow>
         let cfg = effective_link_config (msg_from m) (msg_to m) net;
             total = u64_saturating_add base_delay (lc_base_delay cfg);
             (total, s) = (if lc_jitter cfg > 0
               then let (d, s) = draw (u64_saturating_add (lc_jitter cfg) 1) s in (u64_saturating_add total d, s)
               else (total, s));
             (lost, s) = (if prob_positive (lc_loss_probability cfg)
               then let (d, s) = draw 1000000000 s in (d < loss_threshold (lc_loss_probability cfg), s)
               else (False, s))
         in if lost then (Inr False, net, s)
            else (Inr True, net\<lparr>sn_queue := sn_queue net @ [m\<lparr>msg_deliver_at := u64_saturating_add now total\<rparr>]\<rparr>, s))"

definition send_via_link :: "'s drawer \<Rightarrow> message \<Rightarrow> u64 \<Rightarrow> u64 \<Rightarrow> sim_net \<times> 's \<Rightarrow> bool \<times> sim_net \<times> 's" where
  "send_via_link draw m now base_delay st = or_false (try_send_via_link draw m now base_delay st)"

section \<open>Receiving\<close>

definition ready_msg :: "nat \<Rightarrow> u64 \<Rightarrow> message \<Rightarrow> bool" where
  "ready_msg task now m \<longleftrightarrow> msg_to m = task \<and> msg_deliver_at m \<le> now"

definition has_ready_message :: "nat \<Rightarrow> u64 \<Rightarrow> sim_net \<Rightarrow> bool" where
  "has_ready_message task now net = list_ex (ready_msg task now) (sn_queue net)"

text \<open>The indices of the ready messages, and those of one sender among given indices.\<close>

definition ready_indices :: "nat \<Rightarrow> u64 \<Rightarrow> sim_net \<Rightarrow> nat list" where
  "ready_indices task now net = filter (\<lambda>i. ready_msg task now (sn_queue net ! i)) [0..<length (sn_queue net)]"

definition link_candidates :: "nat \<Rightarrow> sim_net \<Rightarrow> nat list \<Rightarrow> nat list" where
  "link_candidates src net = filter (\<lambda>i. msg_from (sn_queue net ! i) = src)"

definition peek_index :: "nat \<Rightarrow> u64 \<Rightarrow> sim_net \<Rightarrow> nat option" where
  "peek_index task now net =
     (case ready_indices task now net of
        [] \<Rightarrow> None
      | first # ready \<Rightarrow>
          let src = msg_from (sn_queue net ! first); window = effective_reorder_window src task net
          in if window = 0 then Some first
             else let suffix = first # link_candidates src net ready; start = length suffix - window
               in Some (max (suffix ! (length suffix - 1)) (suffix ! start)))"

definition peek_ready_send_id :: "nat \<Rightarrow> u64 \<Rightarrow> sim_net \<Rightarrow> entry_hash option" where
  "peek_ready_send_id task now net = map_option (\<lambda>i. msg_send_id (sn_queue net ! i)) (peek_index task now net)"

text \<open>\<open>VecDeque::remove\<close>\<close>

definition queue_remove :: "nat \<Rightarrow> sim_net \<Rightarrow> message option \<times> sim_net" where
  "queue_remove i net =
     (if i < length (sn_queue net) then (Some (sn_queue net ! i), net\<lparr>sn_queue := take i (sn_queue net) @ drop (Suc i) (sn_queue net)\<rparr>)
      else (None, net))"

definition recv_with_window :: "nat \<Rightarrow> u64 \<Rightarrow> nat \<Rightarrow> sim_net \<Rightarrow> message option \<times> sim_net" where
  "recv_with_window task now window net =
     (case ready_indices task now net of
        [] \<Rightarrow> (None, net)
      | first # rest \<Rightarrow>
          let src = msg_from (sn_queue net ! first); cands = link_candidates src net (first # rest);
              index = (if window = 0 then first
                else let start = length cands - window in max (cands ! (length cands - 1)) (cands ! start))
          in queue_remove index net)"

definition effective_window_for_task :: "nat \<Rightarrow> u64 \<Rightarrow> sim_net \<Rightarrow> net_error + nat" where
  "effective_window_for_task task now net =
     (case find (ready_msg task now) (sn_queue net) of
        None \<Rightarrow> Inr 0
      | Some m \<Rightarrow> let window = effective_reorder_window (msg_from m) task net
          in res_bind (validate_reorder_window window) (\<lambda>_. Inr window))"

definition try_recv_at :: "nat \<Rightarrow> u64 \<Rightarrow> sim_net \<Rightarrow> (net_error + message option) \<times> sim_net" where
  "try_recv_at task now net =
     (case effective_window_for_task task now net of
        Inl e \<Rightarrow> (Inl e, net)
      | Inr window \<Rightarrow> apfst Inr (recv_with_window task now window net))"

definition recv_at :: "nat \<Rightarrow> u64 \<Rightarrow> sim_net \<Rightarrow> message option \<times> sim_net" where
  "recv_at task now net =
     (case find (ready_msg task now) (sn_queue net) of
        None \<Rightarrow> (None, net)
      | Some m \<Rightarrow> recv_with_window task now (effective_reorder_window (msg_from m) task net) net)"

definition try_recv_at_drawn :: "'s drawer \<Rightarrow> nat \<Rightarrow> u64 \<Rightarrow> sim_net \<times> 's \<Rightarrow> (net_error + message option) \<times> sim_net \<times> 's" where
  "try_recv_at_drawn draw task now = (\<lambda>(net, s).
     case ready_indices task now net of
       [] \<Rightarrow> (Inr None, net, s)
     | first # rest \<Rightarrow>
         let src = msg_from (sn_queue net ! first); window = effective_reorder_window src task net
         in case validate_reorder_window window of
           Inl e \<Rightarrow> (Inl e, net, s)
         | Inr _ \<Rightarrow>
             let cands = link_candidates src net (first # rest);
                 (index, s) = (if window = 0 then (first, s)
                   else let suffix = drop (length cands - window) cands; n = of_nat (length suffix); (d, s) = draw n s
                     in (suffix ! unat (d mod n), s));
                 (r, net) = queue_remove index net
             in (Inr r, net, s))"

definition try_recv_at_drawn_validated :: "'s drawer \<Rightarrow> bool \<Rightarrow> nat \<Rightarrow> u64 \<Rightarrow> sim_net \<times> 's \<Rightarrow> message option \<times> sim_net \<times> 's" where
  "try_recv_at_drawn_validated draw validate task now = (\<lambda>(net, s).
     case ready_indices task now net of
       [] \<Rightarrow> (None, net, s)
     | first # rest \<Rightarrow>
         let src = msg_from (sn_queue net ! first); window = effective_reorder_window src task net
         in if validate \<and> window > MAX_REORDER_WINDOW then (None, net, s)
            else
             let cands = link_candidates src net (first # rest);
                 (index, s) = (if window = 0 then (first, s)
                   else let suffix = drop (length cands - window) cands; n = of_nat (length suffix); (d, s) = draw n s
                     in (suffix ! unat (d mod n), s));
                 (r, net) = queue_remove index net
             in (r, net, s))"

definition recv_at_drawn :: "'s drawer \<Rightarrow> nat \<Rightarrow> u64 \<Rightarrow> sim_net \<times> 's \<Rightarrow> message option \<times> sim_net \<times> 's" where
  "recv_at_drawn draw = try_recv_at_drawn_validated draw False"

definition earliest_delivery_time :: "sim_net \<Rightarrow> u64 option" where
  "earliest_delivery_time net =
     (case map msg_deliver_at (sn_queue net) of [] \<Rightarrow> None | t # ts \<Rightarrow> Some (fold min ts t))"

section \<open>Steps\<close>

text \<open>Everything a run does to its network after the links are configured; a generator's state is a number.\<close>

inductive net_step :: "sim_net \<Rightarrow> sim_net \<Rightarrow> bool" where
  step_send: "try_send m net = (r, net') \<Longrightarrow> net_step net net'"
| step_link: "try_send_via_link draw m now base_delay (net, s :: nat) = (r, net', s') \<Longrightarrow> net_step net net'"
| step_recv: "recv_at task now net = (r, net') \<Longrightarrow> net_step net net'"
| step_try_recv: "try_recv_at task now net = (r, net') \<Longrightarrow> net_step net net'"
| step_drawn: "try_recv_at_drawn draw task now (net, s :: nat) = (r, net', s') \<Longrightarrow> net_step net net'"
| step_drawn_clamped: "recv_at_drawn draw task now (net, s :: nat) = (r, net', s') \<Longrightarrow> net_step net net'"
| step_toggle: "net_step net (toggle_partition src dst net)"
| step_partition: "net_step net (partition_link src dst net)"
| step_window: "net_step net (set_reorder_window window net)"

definition link_capacity :: "nat \<Rightarrow> nat \<Rightarrow> sim_net \<Rightarrow> nat option" where
  "link_capacity src dst net = Option.bind (map_of (sn_links net) (src, dst)) lc_capacity"

definition within_capacity :: "sim_net \<Rightarrow> bool" where
  "within_capacity net \<longleftrightarrow> (\<forall>src dst cap. link_capacity src dst net = Some cap \<longrightarrow> queued_for src dst net \<le> cap)"

text \<open>The candidates of the oldest ready message's link, and the index that both windows pick: the newest.\<close>

definition served_index :: "nat \<Rightarrow> sim_net \<Rightarrow> nat list \<Rightarrow> nat" where
  "served_index window net ready =
     (if window = 0 then hd ready else last (link_candidates (msg_from (sn_queue net ! hd ready)) net ready))"

text \<open>What a step does to the queue: nothing, one message removed, or one appended that passed the capacity check.\<close>

definition accepts :: "message \<Rightarrow> sim_net \<Rightarrow> sim_net \<Rightarrow> bool" where
  "accepts m net net' \<longleftrightarrow> check_capacity (msg_from m) (msg_to m) net = Inr () \<and> net' = net\<lparr>sn_queue := sn_queue net @ [m]\<rparr>"

definition net_effect :: "sim_net \<Rightarrow> sim_net \<Rightarrow> bool" where
  "net_effect net net' \<longleftrightarrow> sn_queue net' = sn_queue net \<and> sn_links net' = sn_links net
     \<or> (\<exists>i r. queue_remove i net = (r, net')) \<or> (\<exists>m. accepts m net net')"

definition demo_net :: sim_net where
  "demo_net = set_link 0 1 (link_config_default\<lparr>lc_capacity := Some 1\<rparr>) sim_net_new"

definition demo_message :: message where
  "demo_message = \<lparr>msg_from = 0, msg_to = 1, msg_content = [], msg_send_id = EntryHash [],
     msg_message_id = \<lparr>sender = ActorId 0, sender_sequence = 0\<rparr>, msg_deliver_at = 0\<rparr>"

section \<open>Which message is served\<close>

lemma set_ready_indices: "i \<in> set (ready_indices task now net) \<longleftrightarrow> i < length (sn_queue net) \<and> ready_msg task now (sn_queue net ! i)"
  by (auto simp: ready_indices_def)

lemma ready_indices_sorted: "sorted_wrt (<) (ready_indices task now net)"
  by (simp add: ready_indices_def sorted_wrt_filter)

lemma ready_indices_Nil: "ready_indices task now net = [] \<longleftrightarrow> find (ready_msg task now) (sn_queue net) = None"
  by (auto simp: ready_indices_def find_None_iff filter_empty_conv) (auto simp: in_set_conv_nth)

lemma ready_first:
  assumes "ready_indices task now net = first # rest"
  shows "first < length (sn_queue net)" "ready_msg task now (sn_queue net ! first)"
    "\<And>j. j < first \<Longrightarrow> \<not> ready_msg task now (sn_queue net ! j)"
    "find (ready_msg task now) (sn_queue net) = Some (sn_queue net ! first)"
proof -
  have mem: "i < length (sn_queue net) \<and> ready_msg task now (sn_queue net ! i) \<longleftrightarrow> i = first \<or> i \<in> set rest" for i
    using set_ready_indices [of i task now net] assms by auto
  show *: "first < length (sn_queue net)" "ready_msg task now (sn_queue net ! first)" using mem [of first] by auto
  show least: "\<not> ready_msg task now (sn_queue net ! j)" if "j < first" for j
    using mem [of j] that * ready_indices_sorted [of task now net] unfolding assms by (fastforce dest: less_trans)
  show "find (ready_msg task now) (sn_queue net) = Some (sn_queue net ! first)"
    unfolding find_Some_iff using * least by blast
qed

lemma newest_le_last: "sorted_wrt (<) cands \<Longrightarrow> j \<in> set cands \<Longrightarrow> j \<le> (last cands :: nat)"
  by (induction cands) (auto intro: less_imp_le)

lemma newest_of_window:
  assumes "sorted_wrt (<) (cands :: nat list)" "cands \<noteq> []" "window \<noteq> 0"
  shows "max (cands ! (length cands - 1)) (cands ! (length cands - window)) = last cands"
proof -
  have "cands ! i \<le> last cands" if "i < length cands" for i
    using newest_le_last [OF assms(1)] that by simp
  moreover have "length cands - window < length cands" using assms(2,3) by simp
  moreover have "cands ! (length cands - 1) = last cands" using assms(2) by (simp add: last_conv_nth)
  ultimately show ?thesis by (simp add: max_absorb1)
qed

lemma link_candidates_first: "link_candidates (msg_from (sn_queue net ! first)) net (first # rest) =
    first # link_candidates (msg_from (sn_queue net ! first)) net rest"
  by (simp add: link_candidates_def)

lemma candidates_sorted: "sorted_wrt (<) (link_candidates src net (ready_indices task now net))"
  unfolding link_candidates_def by (rule sorted_wrt_filter [OF ready_indices_sorted])

lemma recv_with_window_served:
  "recv_with_window task now window net =
     (case ready_indices task now net of [] \<Rightarrow> (None, net) | first # rest \<Rightarrow> queue_remove (served_index window net (first # rest)) net)"
proof (cases "ready_indices task now net")
  case (Cons first rest)
  have "sorted_wrt (<) (link_candidates (msg_from (sn_queue net ! first)) net (first # rest))"
    using candidates_sorted [of _ net task now] Cons by simp
  then show ?thesis
    using newest_of_window [of "link_candidates (msg_from (sn_queue net ! first)) net (first # rest)" window] Cons
    by (simp add: recv_with_window_def served_index_def Let_def link_candidates_first)
qed (simp add: recv_with_window_def)

lemma peek_index_served:
  "peek_index task now net = (case ready_indices task now net of [] \<Rightarrow> None | first # rest \<Rightarrow>
     Some (served_index (effective_reorder_window (msg_from (sn_queue net ! first)) task net) net (first # rest)))"
proof (cases "ready_indices task now net")
  case (Cons first rest)
  have "sorted_wrt (<) (link_candidates (msg_from (sn_queue net ! first)) net (first # rest))"
    using candidates_sorted [of _ net task now] Cons by simp
  then show ?thesis
    using newest_of_window [of "link_candidates (msg_from (sn_queue net ! first)) net (first # rest)"
        "effective_reorder_window (msg_from (sn_queue net ! first)) task net"] Cons
    by (simp add: peek_index_def served_index_def Let_def link_candidates_first)
qed (simp add: peek_index_def)

lemma served_index_ready:
  assumes "ready_indices task now net = first # rest"
  shows "served_index window net (first # rest) \<in> set (ready_indices task now net)"
    "msg_from (sn_queue net ! served_index window net (first # rest)) = msg_from (sn_queue net ! first)"
    "window \<noteq> 0 \<Longrightarrow> served_index window net (first # rest) < j \<Longrightarrow> j \<in> set (ready_indices task now net) \<Longrightarrow>
       msg_from (sn_queue net ! j) \<noteq> msg_from (sn_queue net ! first)"
proof -
  let ?c = "link_candidates (msg_from (sn_queue net ! first)) net (first # rest)"
  have c: "?c \<noteq> []" "sorted_wrt (<) ?c" "set ?c = {j \<in> set (first # rest). msg_from (sn_queue net ! j) = msg_from (sn_queue net ! first)}"
    using candidates_sorted [of "msg_from (sn_queue net ! first)" net task now] by (auto simp: assms link_candidates_def)
  have l: "last ?c \<in> set ?c" using c(1) by simp
  show "served_index window net (first # rest) \<in> set (ready_indices task now net)"
    "msg_from (sn_queue net ! served_index window net (first # rest)) = msg_from (sn_queue net ! first)"
    using l c(3) by (auto simp: served_index_def assms)
  show "msg_from (sn_queue net ! j) \<noteq> msg_from (sn_queue net ! first)"
    if "window \<noteq> 0" "served_index window net (first # rest) < j" "j \<in> set (ready_indices task now net)"
  proof
    assume "msg_from (sn_queue net ! j) = msg_from (sn_queue net ! first)"
    then have "j \<in> set ?c" using that(3) c(3) by (simp add: assms)
    then have "j \<le> last ?c" using newest_le_last [OF c(2)] by blast
    then show False using that(1,2) by (simp add: served_index_def)
  qed
qed

lemma recv_at_case:
  "case recv_at task now net of
     (None, net') \<Rightarrow> net' = net \<and> \<not> has_ready_message task now net \<and> peek_ready_send_id task now net = None
   | (Some m, net') \<Rightarrow>
       (\<exists>pre post old. sn_queue net = pre @ m # post \<and> net' = net\<lparr>sn_queue := pre @ post\<rparr> \<and> ready_msg task now m
          \<and> find (ready_msg task now) (sn_queue net) = Some old \<and> msg_from m = msg_from old
          \<and> peek_ready_send_id task now net = Some (msg_send_id m)
          \<and> (if effective_reorder_window (msg_from m) task net = 0 then filter (ready_msg task now) pre = []
             else filter (\<lambda>x. ready_msg task now x \<and> msg_from x = msg_from m) post = []))"
proof (cases "ready_indices task now net")
  case Nil
  then have "find (ready_msg task now) (sn_queue net) = None" by (simp add: ready_indices_Nil)
  moreover from this have "\<not> has_ready_message task now net" by (auto simp: has_ready_message_def list_ex_iff find_None_iff)
  ultimately show ?thesis using Nil by (simp add: recv_at_def peek_ready_send_id_def peek_index_def)
next
  case (Cons first rest)
  let ?q = "sn_queue net"
  define w where "w = effective_reorder_window (msg_from (?q ! first)) task net"
  define i where "i = served_index w net (first # rest)"
  note f = ready_first [OF Cons] and s = served_index_ready [OF Cons, of w, folded i_def]
  have i: "i < length ?q" "ready_msg task now (?q ! i)" using s(1) by (simp_all add: set_ready_indices)
  have recv: "recv_at task now net = (Some (?q ! i), net\<lparr>sn_queue := take i ?q @ drop (Suc i) ?q\<rparr>)"
    using f(4) i by (simp add: recv_at_def recv_with_window_served Cons queue_remove_def i_def w_def)
  have peek: "peek_ready_send_id task now net = Some (msg_send_id (?q ! i))"
    by (simp add: peek_ready_send_id_def peek_index_served Cons i_def w_def)
  have pre: "filter (ready_msg task now) (take i ?q) = []" if "w = 0"
    using that f(3) i(1) by (auto simp: filter_empty_conv i_def served_index_def in_set_conv_nth)
  have post: "filter (\<lambda>x. ready_msg task now x \<and> msg_from x = msg_from (?q ! i)) (drop (Suc i) ?q) = []" if "w \<noteq> 0"
  proof -
    have "\<not> (ready_msg task now (?q ! j) \<and> msg_from (?q ! j) = msg_from (?q ! i))" if "i < j" "j < length ?q" for j
      using s(2) s(3) [OF \<open>w \<noteq> 0\<close> that(1)] that(2) by (auto simp: set_ready_indices)
    then show ?thesis by (auto simp: filter_empty_conv in_set_conv_nth)
  qed
  show ?thesis
    unfolding recv prod.case option.case
    by (rule exI [of _ "take i ?q"], rule exI [of _ "drop (Suc i) ?q"], rule exI [of _ "?q ! first"])
      (use id_take_nth_drop [OF i(1)] i(2) f(4) s(2) peek pre post in \<open>simp add: w_def\<close>)
qed

lemma try_recv_at_case:
  "try_recv_at task now net =
     (case find (ready_msg task now) (sn_queue net) of
        None \<Rightarrow> (Inr None, net)
      | Some old \<Rightarrow>
          let window = effective_reorder_window (msg_from old) task net
          in if window > MAX_REORDER_WINDOW then (Inl (InvalidReorderWindow window ''window exceeds the representable bound''), net)
             else apfst Inr (recv_at task now net))"
proof (cases "find (ready_msg task now) (sn_queue net)")
  case None
  then have "ready_indices task now net = []" by (simp add: ready_indices_Nil)
  then show ?thesis using None by (simp add: try_recv_at_def effective_window_for_task_def recv_with_window_def)
qed (simp add: try_recv_at_def effective_window_for_task_def recv_at_def validate_reorder_window_def Let_def)

text \<open>
  C23: what the deterministic receives serve. Nothing is served by \<open>recv_at\<close> exactly when no message for the
  task is due, and then nothing changes. Otherwise one due message is taken out of the queue and every other one
  stays in place; it comes from the sender of the oldest due message, it is the one that
  \<open>peek_ready_send_id\<close> announced, and it is the oldest due message when the effective window of the link is
  zero and the newest due message of the link when it is not, however small the window. The validated
  \<open>try_recv_at\<close> fails, and changes nothing, exactly when a message is due and the effective window of its link
  is over the limit; otherwise it serves what \<open>recv_at\<close> serves and leaves what it leaves.
\<close>

theorem recv_at_serves:
  "(case recv_at task now net of
     (None, net') \<Rightarrow> net' = net \<and> \<not> has_ready_message task now net \<and> peek_ready_send_id task now net = None
   | (Some m, net') \<Rightarrow>
       (\<exists>pre post old. sn_queue net = pre @ m # post \<and> net' = net\<lparr>sn_queue := pre @ post\<rparr> \<and> ready_msg task now m
          \<and> find (ready_msg task now) (sn_queue net) = Some old \<and> msg_from m = msg_from old
          \<and> peek_ready_send_id task now net = Some (msg_send_id m)
          \<and> (if effective_reorder_window (msg_from m) task net = 0 then filter (ready_msg task now) pre = []
             else filter (\<lambda>x. ready_msg task now x \<and> msg_from x = msg_from m) post = [])))
   \<and> try_recv_at task now net =
     (case find (ready_msg task now) (sn_queue net) of
        None \<Rightarrow> (Inr None, net)
      | Some old \<Rightarrow>
          let window = effective_reorder_window (msg_from old) task net
          in if window > MAX_REORDER_WINDOW then (Inl (InvalidReorderWindow window ''window exceeds the representable bound''), net)
             else apfst Inr (recv_at task now net))"
  by (rule conjI [OF recv_at_case try_recv_at_case])

lemma queue_remove_count:
  "queue_remove i net = (r, net') \<Longrightarrow> sn_links net' = sn_links net \<and> queued_for src dst net' \<le> queued_for src dst net"
proof -
  have "length (filter P (take i q @ drop (Suc i) q)) \<le> length (filter P q)" for P and q :: "message list"
  proof -
    have "length (filter P q) = length (filter P (take i q)) + length (filter P (drop i q))"
      by (metis append_take_drop_id filter_append length_append)
    moreover have "length (filter P (drop (Suc i) q)) \<le> length (filter P (drop i q))"
      by (cases "drop i q") (simp_all add: drop_Suc tl_drop [symmetric])
    ultimately show ?thesis by simp
  qed
  then show "queue_remove i net = (r, net') \<Longrightarrow> ?thesis" by (auto simp: queue_remove_def queued_for_def split: if_splits)
qed

lemma recv_with_window_effect: "recv_with_window task now w net = (r, net') \<Longrightarrow> net_effect net net'"
  by (auto simp: recv_with_window_served net_effect_def split: list.splits)

lemma send_effect: "try_send m net = (r, net') \<Longrightarrow> net_effect net net'"
  by (auto simp: try_send_def net_effect_def accepts_def split: sum.splits if_splits)

lemma link_send_effect:
  assumes "try_send_via_link draw m now base_delay (net, s) = (r, net', s')"
  shows "net_effect net net'"
proof -
  have "net' = net \<or> (\<exists>d. accepts (m\<lparr>msg_deliver_at := d\<rparr>) net net')"
    using assms by (auto simp: try_send_via_link_def accepts_def Let_def split: sum.splits prod.splits if_splits)
  then show ?thesis by (auto simp: net_effect_def)
qed

lemma drawn_effect:
  "try_recv_at_drawn draw task now (net, s) = (r, net', s') \<Longrightarrow> net_effect net net'"
  "recv_at_drawn draw task now (net, s) = (r2, net', s') \<Longrightarrow> net_effect net net'"
  by (auto simp: try_recv_at_drawn_def recv_at_drawn_def try_recv_at_drawn_validated_def net_effect_def Let_def
      split: list.splits sum.splits prod.splits if_splits)

lemma net_effect_same: "sn_queue net' = sn_queue net \<Longrightarrow> sn_links net' = sn_links net \<Longrightarrow> net_effect net net'"
  by (simp add: net_effect_def)

lemma net_effect_refl [simp]: "net_effect net net"
  by (simp add: net_effect_def)

lemma net_step_effect: "net_step net net' \<Longrightarrow> net_effect net net'"
proof (induction rule: net_step.induct)
  case (step_recv task now net r net')
  then show ?case by (auto simp: recv_at_def split: option.splits dest: recv_with_window_effect)
next
  case (step_try_recv task now net r net')
  show ?case
  proof (cases "effective_window_for_task task now net")
    case (Inr w)
    obtain m net1 where "recv_with_window task now w net = (m, net1)" by force
    then show ?thesis using step_try_recv Inr recv_with_window_effect by (auto simp: try_recv_at_def)
  qed (use step_try_recv in \<open>simp add: try_recv_at_def\<close>)
qed (auto intro: send_effect link_send_effect drawn_effect net_effect_same simp: toggle_partition_def partition_link_def set_reorder_window_def)

lemma net_effect_capacity: "net_effect net net' \<Longrightarrow> within_capacity net \<Longrightarrow> within_capacity net' \<and> sn_links net' = sn_links net"
proof -
  assume *: "net_effect net net'" "within_capacity net"
  then consider (same) "sn_queue net' = sn_queue net" "sn_links net' = sn_links net"
    | (removed) i r where "queue_remove i net = (r, net')" | (accepted) m where "accepts m net net'"
    by (auto simp: net_effect_def)
  then show ?thesis
  proof cases
    case same
    then show ?thesis using *(2) by (simp add: within_capacity_def link_capacity_def queued_for_def)
  next
    case removed
    then show ?thesis using *(2) queue_remove_count [OF removed]
      by (simp add: within_capacity_def link_capacity_def) (meson order_trans)
  next
    case accepted
    then show ?thesis using *(2)
      by (auto simp: accepts_def within_capacity_def link_capacity_def check_capacity_def queued_for_def Let_def split: option.splits if_splits)
  qed
qed

text \<open>
  C22: whatever is sent, received or partitioned, by whichever operation and with whatever draws, a bounded
  link never holds more messages than its capacity.
\<close>

theorem net_within_capacity:
  assumes "within_capacity net" "net_step\<^sup>*\<^sup>* net net'"
  shows "within_capacity net' \<and> sn_links net' = sn_links net"
  using assms(2)
proof (induction rule: rtranclp_induct)
  case (step net1 net2)
  then show ?case using net_effect_capacity [OF net_step_effect] by metis
qed (simp add: assms(1))

theorem net_within_capacity_witness:
  "queued_for 0 1 (snd (try_send demo_message (snd (try_send demo_message demo_net)))) \<le> 1"
proof -
  let ?n1 = "snd (try_send demo_message demo_net)"
  let ?n2 = "snd (try_send demo_message ?n1)"
  have "within_capacity demo_net"
    by (simp add: within_capacity_def demo_net_def set_link_def sim_net_new_def queued_for_def)
  moreover have "net_step net (snd (try_send demo_message net))" for net
    by (rule step_send [OF surjective_pairing])
  then have "net_step\<^sup>*\<^sup>* demo_net ?n2" by (meson converse_rtranclp_into_rtranclp rtranclp.rtrancl_refl)
  ultimately have "within_capacity ?n2" "sn_links ?n2 = sn_links demo_net" using net_within_capacity by blast+
  then show ?thesis
    by (auto simp: within_capacity_def link_capacity_def demo_net_def set_link_def sim_net_new_def)
qed

end

