(* ===== verification/Sim_Scheduler.thy ===== *)
theory Sim_Scheduler
  imports Journal_Dag
begin

text \<open>
  The task scheduler (\<open>ledger-sim/src/scheduler.rs\<close>): seeded random choice, probabilistic concurrency
  testing with its priority changes, and lenient and strict replay of a decision stream.
\<close>

section \<open>Seeded draws\<close>

text \<open>Keyed BLAKE3 is a parameter: key, input, digest of at least eight bytes.\<close>

type_synonym keyed_hash = "bytes \<Rightarrow> bytes \<Rightarrow> bytes"

definition draw_u64 :: "keyed_hash \<Rightarrow> entry_hash \<Rightarrow> bytes \<Rightarrow> u64 \<Rightarrow> u64" where
  "draw_u64 keyed root_seed label offset =
     of_nat (le_val (take 8 (keyed (hash_bytes root_seed) (label @ le_bytes 8 (unat offset)))))"

text \<open>The labels \<open>"sched"\<close> and \<open>"pct"\<close>.\<close>

definition SCHED_LABEL :: bytes where "SCHED_LABEL = [115, 99, 104, 101, 100]"

definition PCT_LABEL :: bytes where "PCT_LABEL = [112, 99, 116]"

section \<open>The scheduler\<close>

text \<open>The payload of \<open>Bandit\<close> is the bit patterns of its two floats.\<close>

datatype policy = Random | Pct nat | Bandit f64 f64 | Replay | Dpor

record step_trace =
  st_step :: nat
  st_ready :: "nat list"
  st_chosen :: nat
  st_journal_len :: nat

datatype replay_violation =
    OutOfRange nat nat nat
  | Exhausted nat nat
  | Trailing nat nat

definition violation_display :: "replay_violation \<Rightarrow> string" where
  "violation_display v = (case v of
     OutOfRange step n ready_len \<Rightarrow> ''out of range at step '' @ digits 10 step @ '': value '' @ digits 10 n @ '' >= ready_len '' @ digits 10 ready_len
   | Exhausted step replay_len \<Rightarrow> ''replay exhausted at step '' @ digits 10 step @ '': replay_len '' @ digits 10 replay_len
   | Trailing trailing steps \<Rightarrow> ''trailing replay: '' @ digits 10 trailing @ '' leftover after '' @ digits 10 steps @ '' steps'')"

text \<open>The novelty model of the bandit policy is not part of the state.\<close>

record scheduler =
  sc_policy :: policy
  sc_seed :: entry_hash
  sc_decisions :: "nat list"
  sc_replay :: "nat list"
  sc_fallback :: policy
  sc_strict :: bool
  sc_violation :: "replay_violation option"
  sc_pct_priorities :: "u64 option list"
  sc_pct_preemptions :: nat
  sc_pct_last_chosen :: "nat option"
  sc_pct_generation :: u64
  sc_trace :: "step_trace list"
  sc_trace_enabled :: bool

definition with_fallback :: "policy \<Rightarrow> entry_hash \<Rightarrow> nat list \<Rightarrow> policy \<Rightarrow> scheduler" where
  "with_fallback policy seed replay fallback =
     \<lparr>sc_policy = policy, sc_seed = seed, sc_decisions = [], sc_replay = replay, sc_fallback = fallback, sc_strict = False,
      sc_violation = None, sc_pct_priorities = [], sc_pct_preemptions = 0, sc_pct_last_chosen = None, sc_pct_generation = 0,
      sc_trace = [], sc_trace_enabled = (policy = Dpor)\<rparr>"

definition with_fallback_strict :: "policy \<Rightarrow> entry_hash \<Rightarrow> nat list \<Rightarrow> policy \<Rightarrow> scheduler" where
  "with_fallback_strict policy seed replay fallback =
     \<lparr>sc_policy = policy, sc_seed = seed, sc_decisions = [], sc_replay = replay, sc_fallback = fallback, sc_strict = True,
      sc_violation = None, sc_pct_priorities = [], sc_pct_preemptions = 0, sc_pct_last_chosen = None, sc_pct_generation = 0,
      sc_trace = [], sc_trace_enabled = (policy = Dpor)\<rparr>"

definition scheduler_new :: "policy \<Rightarrow> entry_hash \<Rightarrow> nat list \<Rightarrow> scheduler" where
  "scheduler_new policy seed replay = with_fallback policy seed replay Random"

definition take_violation :: "scheduler \<Rightarrow> replay_violation option \<times> scheduler" where
  "take_violation s = (sc_violation s, s\<lparr>sc_violation := None\<rparr>)"

definition check_trailing :: "nat \<Rightarrow> scheduler \<Rightarrow> replay_violation option \<times> scheduler" where
  "check_trailing steps s =
     (if sc_strict s \<and> length (sc_replay s) > steps
      then let v = Trailing (length (sc_replay s) - steps) steps in (Some v, s\<lparr>sc_violation := Some v\<rparr>)
      else (None, s))"

section \<open>Priorities\<close>

definition pct_priority_draw :: "keyed_hash \<Rightarrow> scheduler \<Rightarrow> u64 \<Rightarrow> nat \<Rightarrow> u64" where
  "pct_priority_draw keyed s generation task =
     draw_u64 keyed (sc_seed s) PCT_LABEL ((generation XOR 0x9E3779B97F4A7C15) * 0x100000001B3 + of_nat task)"

definition pct_grow :: "nat \<Rightarrow> u64 option list \<Rightarrow> u64 option list" where
  "pct_grow task ps = ps @ replicate (Suc task - length ps) None"

definition pct_ensure :: "keyed_hash \<Rightarrow> nat \<Rightarrow> scheduler \<Rightarrow> scheduler" where
  "pct_ensure keyed task s =
     (let ps = pct_grow task (sc_pct_priorities s)
      in if ps ! task = None
         then s\<lparr>sc_pct_priorities := ps[task := Some (pct_priority_draw keyed s (sc_pct_generation s) task)]\<rparr>
         else s\<lparr>sc_pct_priorities := ps\<rparr>)"

definition pct_redraw :: "keyed_hash \<Rightarrow> nat \<Rightarrow> scheduler \<Rightarrow> scheduler" where
  "pct_redraw keyed task s =
     s\<lparr>sc_pct_priorities := (sc_pct_priorities s)[task := Some (pct_priority_draw keyed s (sc_pct_generation s) task)]\<rparr>"

definition pct_priority :: "scheduler \<Rightarrow> nat \<Rightarrow> u64" where
  "pct_priority s task = (case sc_pct_priorities s ! task of Some p \<Rightarrow> p | None \<Rightarrow> 0)"

fun pct_best_loop :: "scheduler \<Rightarrow> nat list \<Rightarrow> nat \<Rightarrow> nat \<Rightarrow> u64 \<Rightarrow> nat" where
  "pct_best_loop s [] index best_index best_priority = best_index"
| "pct_best_loop s (task # tasks) index best_index best_priority =
     (if pct_priority s task > best_priority then pct_best_loop s tasks (Suc index) index (pct_priority s task)
      else pct_best_loop s tasks (Suc index) best_index best_priority)"

definition pct_best :: "scheduler \<Rightarrow> nat list \<Rightarrow> nat" where
  "pct_best s ready = pct_best_loop s (tl ready) 1 0 (pct_priority s (hd ready))"

definition select_pct :: "keyed_hash \<Rightarrow> nat list \<Rightarrow> nat \<Rightarrow> scheduler \<Rightarrow> nat \<times> scheduler" where
  "select_pct keyed ready priority_changes s =
     (let s = fold (pct_ensure keyed) ready s;
          budget_left = priority_changes - sc_pct_preemptions s > 0;
          preempts = budget_left \<and> length ready > 1
            \<and> (case sc_pct_last_chosen s of Some previous \<Rightarrow> previous \<in> set ready | None \<Rightarrow> False);
          s = (if preempts
               then let s = fold (pct_redraw keyed) ready (s\<lparr>sc_pct_generation := sc_pct_generation s + 1\<rparr>)
                 in s\<lparr>sc_pct_preemptions := sc_pct_preemptions s + 1\<rparr>
               else s);
          best_index = pct_best s ready
      in (best_index, s\<lparr>sc_pct_last_chosen := Some (ready ! best_index)\<rparr>))"

section \<open>Choosing\<close>

text \<open>
  \<open>None\<close> stands for a bandit selection, whose scores are logarithms and square roots of floats and not
  part of the model.
\<close>

definition select_fallback :: "keyed_hash \<Rightarrow> nat list \<Rightarrow> nat \<Rightarrow> policy \<Rightarrow> scheduler \<Rightarrow> (nat \<times> scheduler) option" where
  "select_fallback keyed ready step policy s =
     (case policy of
        Pct priority_changes \<Rightarrow> Some (select_pct keyed ready priority_changes s)
      | Bandit exploration_constant pct_mix \<Rightarrow> None
      | _ \<Rightarrow> Some (unat (draw_u64 keyed (sc_seed s) SCHED_LABEL (of_nat step)) mod length ready, s))"

definition record_choice :: "nat list \<Rightarrow> nat \<Rightarrow> nat \<Rightarrow> scheduler \<Rightarrow> nat \<times> scheduler" where
  "record_choice ready step choice s =
     (let s = (if sc_trace_enabled s
               then s\<lparr>sc_trace := sc_trace s @ [\<lparr>st_step = step, st_ready = ready, st_chosen = choice, st_journal_len = 0\<rparr>]\<rparr> else s)
      in (choice, s\<lparr>sc_decisions := sc_decisions s @ [choice]\<rparr>))"

definition choose_task :: "keyed_hash \<Rightarrow> nat list \<Rightarrow> nat \<Rightarrow> scheduler \<Rightarrow> (nat \<times> scheduler) option" where
  "choose_task keyed ready step s =
     (if ready = [] then None
      else if sc_strict s \<and> sc_policy s = Replay then
        (if step < length (sc_replay s) then
           (let v = sc_replay s ! step
            in if v \<ge> length ready then Some (0, s\<lparr>sc_violation := Some (OutOfRange step v (length ready))\<rparr>)
               else Some (record_choice ready step v s))
         else Some (0, s\<lparr>sc_violation := Some (Exhausted step (length (sc_replay s)))\<rparr>))
      else map_option (\<lambda>(choice, s). record_choice ready step choice s)
        (if sc_policy s = Replay then
           if step < length (sc_replay s) then Some (sc_replay s ! step mod length ready, s)
           else select_fallback keyed ready step (sc_fallback s) s
         else select_fallback keyed ready step (sc_policy s) s))"

definition note_step_journal_len :: "nat \<Rightarrow> scheduler \<Rightarrow> scheduler" where
  "note_step_journal_len n s =
     (if sc_trace s = [] then s
      else s\<lparr>sc_trace := butlast (sc_trace s) @ [(last (sc_trace s))\<lparr>st_journal_len := n\<rparr>]\<rparr>)"

definition novelty_active :: "scheduler \<Rightarrow> bool" where
  "novelty_active s = (case sc_policy s of Bandit e m \<Rightarrow> True
     | Replay \<Rightarrow> (case sc_fallback s of Bandit e m \<Rightarrow> True | _ \<Rightarrow> False) | _ \<Rightarrow> False)"

section \<open>Runs\<close>

text \<open>One decision per ready set, from step \<open>n\<close> on.\<close>

fun choose_all :: "keyed_hash \<Rightarrow> nat list list \<Rightarrow> nat \<Rightarrow> scheduler \<Rightarrow> (nat list \<times> scheduler) option" where
  "choose_all keyed [] n s = Some ([], s)"
| "choose_all keyed (ready # readies) n s =
     Option.bind (choose_task keyed ready n s) (\<lambda>(c, s). Option.bind (choose_all keyed readies (Suc n) s) (\<lambda>(cs, s). Some (c # cs, s)))"

definition bandit_free :: "scheduler \<Rightarrow> bool" where
  "bandit_free s \<longleftrightarrow> \<not> novelty_active s"

text \<open>What selection leaves alone.\<close>

definition same_config :: "scheduler \<Rightarrow> scheduler \<Rightarrow> bool" where
  "same_config s s' \<longleftrightarrow> sc_policy s' = sc_policy s \<and> sc_seed s' = sc_seed s \<and> sc_replay s' = sc_replay s
     \<and> sc_fallback s' = sc_fallback s \<and> sc_strict s' = sc_strict s \<and> sc_violation s' = sc_violation s"

lemma pct_best_loop_less: "best_index < index + length tasks \<Longrightarrow> pct_best_loop s tasks index best_index best_priority < index + length tasks"
proof (induction tasks arbitrary: index best_index best_priority)
  case (Cons task tasks)
  then show ?case using Cons.IH [of index "Suc index"] Cons.IH [of best_index "Suc index"] by simp
qed simp

lemma pct_best_less: "ready \<noteq> [] \<Longrightarrow> pct_best s ready < length ready"
  using pct_best_loop_less [of 0 1 "tl ready" s] by (cases ready) (simp_all add: pct_best_def)

lemma fold_pct:
  "same_config s (fold (pct_ensure keyed) ready s) \<and> sc_decisions (fold (pct_ensure keyed) ready s) = sc_decisions s
     \<and> sc_pct_preemptions (fold (pct_ensure keyed) ready s) = sc_pct_preemptions s"
  "same_config s (fold (pct_redraw keyed) ready s) \<and> sc_decisions (fold (pct_redraw keyed) ready s) = sc_decisions s
     \<and> sc_pct_preemptions (fold (pct_redraw keyed) ready s) = sc_pct_preemptions s"
  by (induction ready arbitrary: s) (auto simp: same_config_def pct_ensure_def pct_redraw_def Let_def)

lemma select_pct_effect:
  assumes "select_pct keyed ready k s = (c, s')" "ready \<noteq> []"
  shows "c < length ready" "same_config s s'" "sc_decisions s' = sc_decisions s"
    "sc_pct_preemptions s \<le> k \<Longrightarrow> sc_pct_preemptions s' \<le> k"
proof -
  define s1 where "s1 = fold (pct_ensure keyed) ready s"
  define s2 where "s2 = fold (pct_redraw keyed) ready (s1\<lparr>sc_pct_generation := sc_pct_generation s1 + 1\<rparr>)"
  have 1: "same_config s s1" "sc_decisions s1 = sc_decisions s" "sc_pct_preemptions s1 = sc_pct_preemptions s"
    using fold_pct(1) [of s keyed ready] by (simp_all add: s1_def)
  have 2: "same_config s1 s2" "sc_decisions s2 = sc_decisions s1" "sc_pct_preemptions s2 = sc_pct_preemptions s1"
    using fold_pct(2) [of "s1\<lparr>sc_pct_generation := sc_pct_generation s1 + 1\<rparr>" keyed ready] by (simp_all add: s2_def same_config_def)
  from assms(1) show "c < length ready" "same_config s s'" "sc_decisions s' = sc_decisions s"
    "sc_pct_preemptions s \<le> k \<Longrightarrow> sc_pct_preemptions s' \<le> k"
    using 1 2 pct_best_less [OF assms(2)]
    by (auto simp: select_pct_def Let_def s1_def [symmetric] s2_def [symmetric] same_config_def split: if_splits)
qed

lemma select_fallback_effect:
  assumes "select_fallback keyed ready n p s = Some (c, s')" "ready \<noteq> []"
  shows "c < length ready \<and> same_config s s' \<and> sc_decisions s' = sc_decisions s"
  using assms select_pct_effect [of keyed ready _ s c s']
  by (cases p) (auto simp: select_fallback_def same_config_def)

lemma select_fallback_total: "(\<forall>e m. p \<noteq> Bandit e m) \<Longrightarrow> select_fallback keyed ready n p s \<noteq> None"
  by (cases p) (auto simp: select_fallback_def)

lemma record_choice_effect:
  assumes "record_choice ready n c s = (c', s')"
  shows "c' = c \<and> same_config s s' \<and> sc_decisions s' = sc_decisions s @ [c]"
  using assms by (auto simp: record_choice_def Let_def same_config_def split: if_splits)

lemma choose_lenient:
  assumes "choose_task keyed ready n s = Some (c, s')" "\<not> (sc_strict s \<and> sc_policy s = Replay)"
  shows "c < length ready" "same_config s s'" "sc_decisions s' = sc_decisions s @ [c]"
proof -
  have ready: "ready \<noteq> []" using assms(1) by (auto simp: choose_task_def)
  define sel where "sel = (if sc_policy s = Replay then
      if n < length (sc_replay s) then Some (sc_replay s ! n mod length ready, s) else select_fallback keyed ready n (sc_fallback s) s
    else select_fallback keyed ready n (sc_policy s) s)"
  have "choose_task keyed ready n s = map_option (\<lambda>(choice, s). record_choice ready n choice s) sel"
  proof -
    have "(ready = []) = False" "(sc_strict s \<and> sc_policy s = Replay) = False" using ready assms(2) by simp_all
    then show ?thesis unfolding choose_task_def sel_def by (simp only: if_False)
  qed
  then obtain c1 s1 where sel: "sel = Some (c1, s1)" and rec: "record_choice ready n c1 s1 = (c, s')"
    using assms(1) by (cases sel) auto
  have 1: "c1 < length ready \<and> same_config s s1 \<and> sc_decisions s1 = sc_decisions s"
  proof (cases "sc_policy s = Replay \<and> n < length (sc_replay s)")
    case True
    then show ?thesis using sel ready by (auto simp: sel_def same_config_def)
  next
    case False
    then obtain p where "select_fallback keyed ready n p s = Some (c1, s1)" using sel by (auto simp: sel_def split: if_splits)
    then show ?thesis using select_fallback_effect [OF _ ready] by blast
  qed
  then show "c < length ready" "same_config s s'" "sc_decisions s' = sc_decisions s @ [c]"
    using record_choice_effect [OF rec] by (auto simp: same_config_def)
qed

lemma choose_total:
  assumes "ready \<noteq> []" "bandit_free s"
  shows "choose_task keyed ready n s \<noteq> None"
proof -
  have "sc_policy s \<noteq> Bandit e m" "sc_policy s = Replay \<Longrightarrow> sc_fallback s \<noteq> Bandit e m" for e m
    using assms(2) by (auto simp: bandit_free_def novelty_active_def)
  then have 1: "sc_policy s = Replay \<longrightarrow> select_fallback keyed ready n (sc_fallback s) s \<noteq> None"
    and 2: "select_fallback keyed ready n (sc_policy s) s \<noteq> None"
    using select_fallback_total [of "sc_fallback s"] select_fallback_total [of "sc_policy s"] by simp_all
  show ?thesis
  proof (cases "sc_policy s = Replay")
    case True
    then show ?thesis using assms(1) 1 by (simp add: choose_task_def Let_def del: not_None_eq)
  next
    case False
    then show ?thesis using assms(1) 2 by (simp add: choose_task_def del: not_None_eq)
  qed
qed

lemma choose_strict:
  assumes "sc_strict s" "sc_policy s = Replay" "n < length (sc_replay s)" "sc_replay s ! n < length ready"
  shows "\<exists>s'. choose_task keyed ready n s = Some (sc_replay s ! n, s') \<and> same_config s s' \<and> sc_decisions s' = sc_decisions s @ [sc_replay s ! n]"
proof -
  obtain c s' where r: "record_choice ready n (sc_replay s ! n) s = (c, s')" by force
  have "choose_task keyed ready n s = Some (c, s')" using assms r by (auto simp: choose_task_def)
  then show ?thesis using record_choice_effect [OF r] by auto
qed

text \<open>A lenient run makes one decision in range per ready set and records it.\<close>

lemma choose_all_lenient:
  assumes "choose_all keyed readies n s = Some (cs, s')" "\<not> (sc_strict s \<and> sc_policy s = Replay)"
  shows "list_all2 (\<lambda>c ready. c < length ready) cs readies \<and> sc_decisions s' = sc_decisions s @ cs"
  using assms
proof (induction readies arbitrary: n s cs)
  case (Cons ready readies)
  then obtain c s1 cs1 where *: "choose_task keyed ready n s = Some (c, s1)" "choose_all keyed readies (Suc n) s1 = Some (cs1, s')" "cs = c # cs1"
    by (auto simp: bind_eq_Some_conv)
  note ch = choose_lenient [OF *(1) Cons.prems(2)]
  have "\<not> (sc_strict s1 \<and> sc_policy s1 = Replay)" using ch(2) Cons.prems(2) by (simp add: same_config_def)
  then show ?case using Cons.IH [OF *(2)] ch *(3) by simp
qed simp

lemma same_config_bandit: "same_config s s' \<Longrightarrow> bandit_free s' = bandit_free s"
  by (simp add: same_config_def bandit_free_def novelty_active_def cong: policy.case_cong)

lemma choose_all_total:
  assumes "\<forall>ready\<in>set readies. ready \<noteq> []" "bandit_free s" "\<not> (sc_strict s \<and> sc_policy s = Replay)"
  shows "choose_all keyed readies n s \<noteq> None"
  using assms
proof (induction readies arbitrary: n s)
  case (Cons ready readies)
  obtain c s1 where c: "choose_task keyed ready n s = Some (c, s1)"
    using choose_total [of ready s keyed n] Cons.prems by auto
  have "same_config s s1" using choose_lenient(2) [OF c] Cons.prems(3) by simp
  then have "bandit_free s1" "\<not> (sc_strict s1 \<and> sc_policy s1 = Replay)"
    using Cons.prems(2,3) same_config_bandit [of s s1] by (simp_all add: same_config_def)
  then have "choose_all keyed readies (Suc n) s1 \<noteq> None" using Cons.IH [of s1 "Suc n"] Cons.prems(1) by simp
  then show ?case using c by (simp del: not_None_eq) (auto split: bind_splits)
qed simp

lemma choose_all_strict:
  assumes "sc_strict s" "sc_policy s = Replay" "list_all2 (\<lambda>c ready. c < length ready) (drop n (sc_replay s)) readies"
  shows "\<exists>s'. choose_all keyed readies n s = Some (drop n (sc_replay s), s') \<and> same_config s s' \<and> sc_decisions s' = sc_decisions s @ drop n (sc_replay s)"
  using assms
proof (induction readies arbitrary: n s)
  case (Cons ready readies)
  then obtain c cs where d: "drop n (sc_replay s) = c # cs" "c < length ready" by (auto simp: list_all2_Cons2)
  have n: "n < length (sc_replay s)" using d(1) by (cases "n < length (sc_replay s)") simp_all
  have nth: "sc_replay s ! n = c" "drop (Suc n) (sc_replay s) = cs"
    using nth_via_drop [OF d(1)] arg_cong [OF d(1), of tl] by (simp_all add: drop_Suc tl_drop)
  obtain s1 where s1: "choose_task keyed ready n s = Some (c, s1)" "same_config s s1" "sc_decisions s1 = sc_decisions s @ [c]"
    using choose_strict [OF Cons.prems(1,2) n, of ready keyed] d(2) nth(1) by auto
  have "sc_strict s1" "sc_policy s1 = Replay" "drop (Suc n) (sc_replay s1) = cs"
    using s1(2) Cons.prems(1,2) nth(2) by (simp_all add: same_config_def)
  then obtain s' where "choose_all keyed readies (Suc n) s1 = Some (cs, s')" "same_config s1 s'" "sc_decisions s' = sc_decisions s1 @ cs"
    using Cons.IH [of s1 "Suc n"] Cons.prems(3) d(1) by auto
  then show ?case using s1 d(1) by (auto simp: same_config_def)
qed (simp add: same_config_def)

text \<open>
  C13: decision streams reproduce runs. Take any run of a lenient scheduler under a policy that does not
  end in the bandit, over any sequence of nonempty ready sets. It decides every step within its ready set
  and records exactly the decisions it returned. A strict replay of that recording over the same ready sets
  makes the same decisions, reports no violation on the way and leaves no decision unused.
\<close>

theorem replay_reproduces:
  assumes "\<forall>ready\<in>set readies. ready \<noteq> []" "bandit_free (with_fallback policy seed replay fallback)"
  shows "\<exists>cs s s'. choose_all keyed readies 0 (with_fallback policy seed replay fallback) = Some (cs, s)
    \<and> sc_decisions s = cs \<and> list_all2 (\<lambda>c ready. c < length ready) cs readies
    \<and> choose_all keyed readies 0 (with_fallback_strict Replay seed (sc_decisions s) fallback') = Some (cs, s')
    \<and> sc_violation s' = None \<and> fst (check_trailing (length readies) s') = None"
proof -
  have lenient: "\<not> (sc_strict (with_fallback policy seed replay fallback) \<and> sc_policy (with_fallback policy seed replay fallback) = Replay)"
    by (simp add: with_fallback_def)
  then obtain cs s where run: "choose_all keyed readies 0 (with_fallback policy seed replay fallback) = Some (cs, s)"
    using choose_all_total [OF assms] by (metis not_None_eq surj_pair)
  have cs: "list_all2 (\<lambda>c ready. c < length ready) cs readies" "sc_decisions s = cs"
    using choose_all_lenient [OF run lenient] by (simp_all add: with_fallback_def)
  obtain s' where "choose_all keyed readies 0 (with_fallback_strict Replay seed cs fallback') = Some (cs, s')"
    "same_config (with_fallback_strict Replay seed cs fallback') s'"
    using choose_all_strict [of "with_fallback_strict Replay seed cs fallback'" 0 readies keyed] cs(1)
    by (auto simp: with_fallback_strict_def)
  moreover have "length cs = length readies" using cs(1) by (rule list_all2_lengthD)
  ultimately show ?thesis using run cs by (auto simp: same_config_def check_trailing_def with_fallback_strict_def)
qed

text \<open>Three steps under a priority policy with one priority change.\<close>

theorem replay_reproduces_witness:
  "bandit_free (with_fallback (Pct 1) (EntryHash (replicate 32 7)) [] Random)
   \<and> (\<exists>cs s s'. choose_all (\<lambda>key input. rev input) [[0, 1], [0, 1, 2], [2]] 0 (with_fallback (Pct 1) (EntryHash (replicate 32 7)) [] Random) = Some (cs, s)
    \<and> sc_decisions s = cs \<and> list_all2 (\<lambda>c ready. c < length ready) cs [[0, 1], [0, 1, 2], [2::nat]]
    \<and> choose_all (\<lambda>key input. rev input) [[0, 1], [0, 1, 2], [2]] 0
        (with_fallback_strict Replay (EntryHash (replicate 32 7)) (sc_decisions s) Random) = Some (cs, s')
    \<and> sc_violation s' = None \<and> fst (check_trailing 3 s') = None)"
proof -
  let ?readies = "[[0, 1], [0, 1, 2], [2]] :: nat list list"
  have start: "bandit_free (with_fallback (Pct 1) (EntryHash (replicate 32 7)) [] Random)"
    by (simp add: bandit_free_def novelty_active_def with_fallback_def)
  have steps: "length ?readies = 3" and nonempty: "\<forall>ready\<in>set ?readies. ready \<noteq> []" by simp_all
  show ?thesis
    using start replay_reproduces [of ?readies "Pct 1" "EntryHash (replicate 32 7)" "[]" Random "\<lambda>key input. rev input" Random,
      OF nonempty start, unfolded steps] by (rule conjI)
qed

end

