(* ===== verification/Ddmin.thy ===== *)
theory Ddmin
  imports Journal_Slice "HOL-Library.Sublist"
begin

text \<open>
  Delta debugging (\<open>ledger-explorer/src/minimizer/ddmin.rs\<close>). The test is any function with a state of its
  own, as the closures of the callers have; termination is part of the definition of the loop.
\<close>

section \<open>The algorithm\<close>

text \<open>A test takes a candidate and the state it closes over, as an \<open>FnMut\<close> does.\<close>

type_synonym ('a, 's) test = "'a list \<Rightarrow> 's \<Rightarrow> bool \<times> 's"

definition div_ceil :: "nat \<Rightarrow> nat \<Rightarrow> nat" where
  "div_ceil a b = (if a mod b = 0 then a div b else a div b + 1)"

definition without_chunk :: "nat \<Rightarrow> nat \<Rightarrow> 'a list \<Rightarrow> 'a list" where
  "without_chunk start stop xs = take start xs @ drop stop xs"

text \<open>One round: the first chunk whose removal still fails.\<close>

function ddmin_round :: "('a, 's) test \<Rightarrow> 'a list \<Rightarrow> nat \<Rightarrow> nat \<Rightarrow> nat \<Rightarrow> 's \<Rightarrow> 'a list option \<times> 's" where
  "ddmin_round fails current partitions chunk index s =
     (if index < partitions then
        (let start = index * chunk
         in if start \<ge> length current then (None, s)
            else
              (let stop = min (start + chunk) (length current);
                   candidate = without_chunk start stop current;
                   (failing, s) = fails candidate s
               in if failing then (Some candidate, s)
                  else ddmin_round fails current partitions chunk (Suc index) s))
      else (None, s))"
  by pat_completeness auto
termination by (relation "measure (\<lambda>(_, _, partitions, _, index, _). partitions - index)") auto

declare ddmin_round.simps [simp del]

text \<open>The report of a schedule reduction, without the percentage, a float for display.\<close>

record minimization_report =
  mr_original_count :: nat
  mr_minimized_count :: nat
  mr_minimized_decisions :: "nat list"

definition chunk_at :: "nat \<Rightarrow> nat \<Rightarrow> 'a list \<Rightarrow> 'a list" where
  "chunk_at chunk index xs = without_chunk (index * chunk) (min (index * chunk + chunk) (length xs)) xs"

lemma ddmin_round_unfold:
  "ddmin_round fails current partitions chunk index s =
     (if index < partitions \<and> index * chunk < length current then
        (case fails (chunk_at chunk index current) s of (failing, s) \<Rightarrow>
           if failing then (Some (chunk_at chunk index current), s)
           else ddmin_round fails current partitions chunk (Suc index) s)
      else (None, s))"
  by (subst ddmin_round.simps) (simp add: Let_def chunk_at_def split: prod.splits)

lemma div_ceil_pos: "0 < a \<Longrightarrow> 0 < b \<Longrightarrow> 0 < div_ceil a b"
  by (cases "a mod b = 0") (auto simp: div_ceil_def)

lemma length_chunk_at: "index * chunk < length xs \<Longrightarrow> 0 < chunk \<Longrightarrow> length (chunk_at chunk index xs) < length xs"
  by (cases xs) (auto simp: chunk_at_def without_chunk_def min_def)

text \<open>A round reports a chunk whose removal failed, or that no removal of a chunk failed.\<close>

lemma ddmin_round_spec:
  assumes "ddmin_round fails current partitions chunk index s = (r, s')"
  shows "case r of
      Some c \<Rightarrow> \<exists>i t t'. i * chunk < length current \<and> c = chunk_at chunk i current \<and> fails c t = (True, t')
    | None \<Rightarrow> \<forall>i. index \<le> i \<longrightarrow> i < partitions \<longrightarrow> i * chunk < length current \<longrightarrow> (\<exists>t. \<not> fst (fails (chunk_at chunk i current) t))"
  using assms
proof (induction "partitions - index" arbitrary: index s)
  case 0
  then show ?case by (auto simp: ddmin_round_unfold [of _ _ _ _ index])
next
  case (Suc n)
  show ?case
  proof (cases "index * chunk < length current")
    case False
    then have "\<not> i * chunk < length current" if "index \<le> i" for i
      using mult_le_mono1 [OF that, of chunk] by linarith
    moreover have "r = None" using Suc.prems False by (simp add: ddmin_round_unfold [of _ _ _ _ index])
    ultimately show ?thesis by simp
  next
    case True
    obtain b t where f: "fails (chunk_at chunk index current) s = (b, t)" by force
    have index: "index < partitions" using Suc.hyps(2) by simp
    show ?thesis
    proof (cases b)
      case b: True
      then have "r = Some (chunk_at chunk index current)" using Suc.prems True index f by (simp add: ddmin_round_unfold [of _ _ _ _ index])
      then show ?thesis using True f b by auto
    next
      case b: False
      then have "ddmin_round fails current partitions chunk (Suc index) t = (r, s')"
        using Suc.prems True index f by (simp add: ddmin_round_unfold [of _ _ _ _ index])
      from Suc.hyps(1) [OF _ this] Suc.hyps(2) have IH: "case r of
          Some c \<Rightarrow> \<exists>i t t'. i * chunk < length current \<and> c = chunk_at chunk i current \<and> fails c t = (True, t')
        | None \<Rightarrow> \<forall>i. Suc index \<le> i \<longrightarrow> i < partitions \<longrightarrow> i * chunk < length current \<longrightarrow> (\<exists>t. \<not> fst (fails (chunk_at chunk i current) t))"
        by simp
      have "\<not> fst (fails (chunk_at chunk index current) s)" using f b by simp
      then show ?thesis using IH by (cases r) (auto simp: Suc_le_eq nat_less_le)
    qed
  qed
qed

lemma ddmin_round_shorter:
  assumes "ddmin_round fails current partitions chunk index s = (Some candidate, s')" "0 < chunk"
  shows "length candidate < length current"
  using ddmin_round_spec [OF assms(1)] assms(2) by (auto simp: length_chunk_at)

text \<open>A count of zero partitions divides by zero; it never occurs, as the count starts at two and stays positive.\<close>

function ddmin_loop :: "('a, 's) test \<Rightarrow> 'a list \<Rightarrow> nat \<Rightarrow> 's \<Rightarrow> 'a list \<times> 's" where
  "ddmin_loop fails current partitions s =
     (if length current < 2 \<or> partitions = 0 then (current, s)
      else case ddmin_round fails current partitions (div_ceil (length current) partitions) 0 s of
          (Some candidate, s) \<Rightarrow> ddmin_loop fails candidate (max (partitions - 1) 2) s
        | (None, s) \<Rightarrow>
            if partitions = length current then (current, s)
            else ddmin_loop fails current (min (partitions * 2) (length current)) s)"
  by pat_completeness auto
termination
proof (relation "measures [\<lambda>(_, current, _, _). length current,
    \<lambda>(_, current, partitions, _). if partitions \<le> length current then length current - partitions else Suc (length current)]")
  fix fails :: "('a, 's) test" and current partitions s x y candidate
  assume "\<not> (length current < 2 \<or> partitions = 0)"
    "(x, y) = ddmin_round fails current partitions (div_ceil (length current) partitions) 0 s" "x = Some candidate"
  moreover from this(1) have "0 < div_ceil (length current) partitions" by (intro div_ceil_pos) auto
  ultimately have "length candidate < length current"
    using ddmin_round_shorter [of fails current partitions "div_ceil (length current) partitions" 0 s candidate y] by simp
  then show "((fails, candidate, max (partitions - 1) 2, y), fails, current, partitions, s)
    \<in> measures [\<lambda>(_, current, _, _). length current,
      \<lambda>(_, current, partitions, _). if partitions \<le> length current then length current - partitions else Suc (length current)]" by simp
qed auto

declare ddmin_loop.simps [simp del]

definition ddmin :: "'a list \<Rightarrow> ('a, 's) test \<Rightarrow> 's \<Rightarrow> 'a list \<times> 's" where
  "ddmin input fails s =
     (if length input < 2 then (input, s)
      else let (failing, s) = fails input s in if \<not> failing then (input, s) else ddmin_loop fails input 2 s)"

definition minimize_schedule :: "nat list \<Rightarrow> (nat list \<Rightarrow> bool) \<Rightarrow> minimization_report" where
  "minimize_schedule decisions oracle_check =
     (let minimized = fst (ddmin decisions (\<lambda>xs s. (oracle_check xs, s)) ())
      in \<lparr>mr_original_count = length decisions, mr_minimized_count = length minimized, mr_minimized_decisions = minimized\<rparr>)"

lemma chunk_at_subseq: "subseq (chunk_at chunk index xs) xs"
proof -
  have "subseq (drop (min (index * chunk + chunk) (length xs)) xs) (drop (index * chunk) xs)"
    by (cases "index * chunk \<le> length xs") (auto simp: drop_drop [symmetric] add.commute min_def simp del: drop_drop intro: suffix_imp_subseq suffix_drop)
  then have "subseq (take (index * chunk) xs @ drop (min (index * chunk + chunk) (length xs)) xs) (take (index * chunk) xs @ drop (index * chunk) xs)"
    by (intro list_emb_append_mono) auto
  then show ?thesis by (simp add: chunk_at_def without_chunk_def)
qed

text \<open>With one chunk per element the candidates are the lists with one element removed.\<close>

lemma chunk_at_one: "i < length xs \<Longrightarrow> chunk_at 1 i xs = take i xs @ drop (Suc i) xs"
  by (simp add: chunk_at_def without_chunk_def min_def)

definition answers :: "('a, 's) test \<Rightarrow> ('a list \<Rightarrow> bool) \<Rightarrow> bool" where
  "answers fails P \<longleftrightarrow> (\<forall>xs s. fst (fails xs s) = P xs)"

definition one_minimal :: "('a list \<Rightarrow> bool) \<Rightarrow> 'a list \<Rightarrow> bool" where
  "one_minimal P xs \<longleftrightarrow> (\<forall>i<length xs. \<not> P (take i xs @ drop (Suc i) xs))"

lemma ddmin_loop_spec:
  assumes "answers fails P" "P current" "partitions \<noteq> 0" "ddmin_loop fails current partitions s = (ys, s')"
  shows "subseq ys current \<and> P ys \<and> (2 \<le> length ys \<longrightarrow> one_minimal P ys)"
  using assms
proof (induction fails current partitions s rule: ddmin_loop.induct)
  case (1 fails current partitions s)
  let ?chunk = "div_ceil (length current) partitions"
  note step = ddmin_loop.simps [of fails current partitions s] and prems = 1(3-6)
  obtain r t where r: "ddmin_round fails current partitions ?chunk 0 s = (r, t)" by force
  show ?case
  proof (cases "length current < 2")
    case True
    then show ?thesis using prems step by auto
  next
    case False
    then have go: "\<not> (length current < 2 \<or> partitions = 0)" using prems(3) by simp
    show ?thesis
    proof (cases r)
      case (Some c)
      then obtain i u u' where c: "c = chunk_at ?chunk i current" "fails c u = (True, u')"
        using ddmin_round_spec [OF r] by auto
      have "P c" using prems(1) c(2) unfolding answers_def by (metis fst_conv)
      moreover have "ddmin_loop fails c (max (partitions - 1) 2) t = (ys, s')" using prems(4) step go r Some by simp
      ultimately have "subseq ys c \<and> P ys \<and> (2 \<le> length ys \<longrightarrow> one_minimal P ys)"
        using 1(2) [OF go r [symmetric] Some prems(1)] by simp
      then show ?thesis using chunk_at_subseq [of ?chunk i current] c(1) by (auto intro: subseq_order.trans)
    next
      case None
      show ?thesis
      proof (cases "partitions = length current")
        case True
        then have "?chunk = 1" using go by (cases current) (simp_all add: div_ceil_def)
        then have "\<not> P (chunk_at 1 i current)" if "i < length current" for i
          using ddmin_round_spec [OF r] None True that prems(1) by (auto simp: answers_def)
        then have "one_minimal P current" unfolding one_minimal_def using chunk_at_one [of _ current] by fastforce
        moreover have "ys = current" using prems(4) step go r None True by simp
        ultimately show ?thesis using prems(2) by simp
      next
        case neq: False
        then have "ddmin_loop fails current (min (partitions * 2) (length current)) t = (ys, s')"
          using prems(4) step go r None by simp
        then show ?thesis using 1(1) [OF go r [symmetric] None neq prems(1,2)] go by (cases current) simp_all
      qed
    qed
  qed
qed

text \<open>
  C11: delta debugging returns a one-minimal failing list. Whatever state the test keeps, as long as its
  answer depends on the candidate only, \<open>ddmin\<close> ends; its result keeps elements of the input in order; an
  input of fewer than two elements, or one that does not fail, is returned unchanged; and otherwise the
  result fails and, when it has two elements or more, no longer fails with any single element removed.
\<close>

theorem ddmin_one_minimal:
  assumes "answers fails P"
  shows "\<exists>ys s'. ddmin input fails s = (ys, s') \<and> subseq ys input
    \<and> (length input < 2 \<or> \<not> P input \<longrightarrow> ys = input)
    \<and> (2 \<le> length input \<and> P input \<longrightarrow> P ys \<and> (2 \<le> length ys \<longrightarrow> one_minimal P ys))"
proof -
  obtain b t where t: "fails input s = (b, t)" by force
  then have b: "b = P input" using assms unfolding answers_def by (metis fst_conv)
  obtain zs u where zs: "ddmin_loop fails input 2 t = (zs, u)" by force
  show ?thesis
  proof (cases "2 \<le> length input \<and> P input")
    case True
    then show ?thesis using ddmin_loop_spec [OF assms _ _ zs] t b zs by (simp add: ddmin_def)
  next
    case False
    then show ?thesis using t b by (auto simp: ddmin_def)
  qed
qed

definition contains_both :: "nat list \<Rightarrow> nat \<Rightarrow> bool \<times> nat" where
  "contains_both xs calls = (3 \<in> set xs \<and> 6 \<in> set xs, Suc calls)"

theorem ddmin_one_minimal_witness:
  "answers contains_both (\<lambda>xs. 3 \<in> set xs \<and> 6 \<in> set xs) \<and> fst (ddmin [1, 2, 3, 4, 5, 6, 7, 8] contains_both 0) = [3, 6]
   \<and> one_minimal (\<lambda>xs. 3 \<in> set xs \<and> 6 \<in> set xs) (fst (ddmin [1, 2, 3, 4, 5, 6, 7, 8] contains_both 0))"
proof -
  have a: "answers contains_both (\<lambda>xs. 3 \<in> set xs \<and> 6 \<in> set xs)" by (simp add: answers_def contains_both_def)
  have r: "fst (ddmin [1, 2, 3, 4, 5, 6, 7, 8] contains_both 0) = [3, 6]" by code_simp
  show ?thesis using a r ddmin_one_minimal [OF a, of "[1, 2, 3, 4, 5, 6, 7, 8]" 0] by (auto simp: r)
qed

text \<open>A single failing element is never tried against the empty list.\<close>

lemma ddmin_keeps_last: "ddmin [1, 2 :: nat] (\<lambda>xs s. (True, s)) () = ([2], ())"
  by code_simp

end

