(* ===== verification/Memo_Replay.thy ===== *)
theory Memo_Replay
  imports Journal_Slice
begin

text \<open>
  Memoized replay of minimization candidates (\<open>ledger-explorer/src/minimizer/memo.rs\<close> and the helpers of
  \<open>minimizer/mod.rs\<close>): prefix roots, batch hashes and replayed journals are cached by content.
\<close>

section \<open>Memoized replay\<close>

datatype memo_error =
    PrefixMismatch entry_hash entry_hash
  | UnknownBatchEntry
  | NonContiguousBatch
  | MemoSubgraph journal_error

definition hash_batch :: "hasher \<Rightarrow> entry_hash list \<Rightarrow> entry_hash" where
  "hash_batch blake3 batch = EntryHash (blake3 (concat (map hash_bytes batch)))"

record memoized_replay =
  mm_cache :: "((entry_hash \<times> entry_hash) \<times> journal_state) list"
  mm_prefix_roots :: "((entry_hash \<times> nat) \<times> entry_hash) list"
  mm_orders :: "(entry_hash \<times> entry_hash list) list"
  mm_batch_hashes :: "((entry_hash \<times> nat \<times> nat) \<times> entry_hash) list"
  mm_hits :: nat
  mm_misses :: nat

definition memo_new :: memoized_replay where
  "memo_new = \<lparr>mm_cache = [], mm_prefix_roots = [], mm_orders = [], mm_batch_hashes = [], mm_hits = 0, mm_misses = 0\<rparr>"

text \<open>\<open>source.entries().map(|entry| entry.id)\<close>: the ids that resolve, in order.\<close>

definition entry_ids :: "journal_state \<Rightarrow> entry_hash list" where
  "entry_ids st = map en_id (journal_entries st)"

text \<open>\<open>HashMap::entry(k).or_insert_with(f)\<close>: the value at \<open>k\<close>, inserted when absent.\<close>

definition or_insert :: "'k \<Rightarrow> 'v \<Rightarrow> ('k \<times> 'v) list \<Rightarrow> 'v \<times> ('k \<times> 'v) list" where
  "or_insert k v m = (case map_of m k of Some w \<Rightarrow> (w, m) | None \<Rightarrow> (v, hm_insert k v m))"

primrec position :: "'a \<Rightarrow> 'a list \<Rightarrow> nat option" where
  "position x [] = None"
| "position x (y # ys) = (if y = x then Some 0 else map_option Suc (position x ys))"

text \<open>The position of a batch in the order of the source.\<close>

definition batch_start :: "entry_hash list \<Rightarrow> entry_hash list \<Rightarrow> memo_error + nat" where
  "batch_start order batch =
     (case position (hd batch) order of
        None \<Rightarrow> Inl UnknownBatchEntry
      | Some start \<Rightarrow>
          if start + length batch \<le> length order \<and> take (length batch) (drop start order) = batch then Inr start
          else Inl NonContiguousBatch)"

text \<open>The root of the prefix before the batch, from the memo or rebuilt.\<close>

definition memo_prefix_root ::
  "hasher \<Rightarrow> entry_hash \<Rightarrow> entry_hash list \<Rightarrow> nat \<Rightarrow> journal_state \<Rightarrow> memoized_replay \<Rightarrow> (memo_error + entry_hash) \<times> memoized_replay" where
  "memo_prefix_root blake3 source_root order first source memo =
     (case map_of (mm_prefix_roots memo) (source_root, first) of
        Some root \<Rightarrow> (Inr root, memo)
      | None \<Rightarrow>
          case subgraph source (take first order) of
            Inl e \<Rightarrow> (Inl (MemoSubgraph e), memo)
          | Inr prefix \<Rightarrow>
              let root = root_hash blake3 prefix
              in (Inr root, memo\<lparr>mm_prefix_roots := hm_insert (source_root, first) root (mm_prefix_roots memo)\<rparr>))"

text \<open>The journal up to the end of the batch, from the cache or rebuilt.\<close>

definition memo_serve ::
  "hasher \<Rightarrow> entry_hash \<Rightarrow> entry_hash list \<Rightarrow> nat \<Rightarrow> entry_hash list \<Rightarrow> entry_hash \<Rightarrow> journal_state \<Rightarrow> memoized_replay
     \<Rightarrow> (memo_error + journal_state) \<times> memoized_replay" where
  "memo_serve blake3 source_root order first batch prefix_root source memo =
     (let (batch_hash, hashes) = or_insert (source_root, first, length batch) (hash_batch blake3 batch) (mm_batch_hashes memo);
          memo = memo\<lparr>mm_batch_hashes := hashes\<rparr>
      in case map_of (mm_cache memo) (prefix_root, batch_hash) of
           Some journal \<Rightarrow> (Inr journal, memo\<lparr>mm_hits := mm_hits memo + 1\<rparr>)
         | None \<Rightarrow>
             let memo = memo\<lparr>mm_misses := mm_misses memo + 1\<rparr>
             in case subgraph source (take (first + length batch) order) of
                  Inl e \<Rightarrow> (Inl (MemoSubgraph e), memo)
                | Inr journal \<Rightarrow> (Inr journal, memo\<lparr>mm_cache := hm_insert (prefix_root, batch_hash) journal (mm_cache memo)\<rparr>))"

definition replay_with_root ::
  "hasher \<Rightarrow> entry_hash \<Rightarrow> entry_hash \<Rightarrow> entry_hash list \<Rightarrow> journal_state \<Rightarrow> memoized_replay
     \<Rightarrow> (memo_error + journal_state) \<times> memoized_replay" where
  "replay_with_root blake3 source_root prefix_root_hash batch source memo =
     (let (order, orders) = or_insert source_root (entry_ids source) (mm_orders memo);
          memo = memo\<lparr>mm_orders := orders\<rparr>
      in if batch = [] then
           (if source_root \<noteq> prefix_root_hash then (Inl (PrefixMismatch prefix_root_hash source_root), memo)
            else (Inr source, memo))
         else case batch_start order batch of
           Inl e \<Rightarrow> (Inl e, memo)
         | Inr first \<Rightarrow>
             case memo_prefix_root blake3 source_root order first source memo of
               (Inl e, memo) \<Rightarrow> (Inl e, memo)
             | (Inr prefix_root, memo) \<Rightarrow>
                 if prefix_root \<noteq> prefix_root_hash then (Inl (PrefixMismatch prefix_root_hash prefix_root), memo)
                 else memo_serve blake3 source_root order first batch prefix_root source memo)"

definition replay ::
  "hasher \<Rightarrow> entry_hash \<Rightarrow> entry_hash list \<Rightarrow> journal_state \<Rightarrow> memoized_replay \<Rightarrow> (memo_error + journal_state) \<times> memoized_replay" where
  "replay blake3 prefix_root_hash batch source memo =
     replay_with_root blake3 (root_hash blake3 source) prefix_root_hash batch source memo"

section \<open>Candidates of the minimizer\<close>

datatype minimize_error = MinSubgraph journal_error | MinMemo memo_error

definition CANDIDATE_REPLAY_BATCH :: nat where "CANDIDATE_REPLAY_BATCH = 8"

definition source_prefix_len :: "journal_state \<Rightarrow> entry_hash list \<Rightarrow> nat option" where
  "source_prefix_len source candidate =
     (if candidate = [] then Some 0
      else let ids = entry_ids source
        in if length candidate \<le> length ids \<and> take (length candidate) ids = candidate then Some (length candidate) else None)"

function candidate_loop ::
  "hasher \<Rightarrow> entry_hash \<Rightarrow> entry_hash list \<Rightarrow> nat \<Rightarrow> nat \<Rightarrow> entry_hash \<Rightarrow> journal_state \<Rightarrow> journal_state \<Rightarrow> memoized_replay
     \<Rightarrow> (minimize_error + journal_state) \<times> memoized_replay" where
  "candidate_loop blake3 source_root order prefix_len offset prefix_root journal source memo =
     (if offset < prefix_len then
        (let stop = min (offset + CANDIDATE_REPLAY_BATCH) prefix_len
         in case replay_with_root blake3 source_root prefix_root (take (stop - offset) (drop offset order)) source memo of
              (Inl e, memo) \<Rightarrow> (Inl (MinMemo e), memo)
            | (Inr journal, memo) \<Rightarrow>
                candidate_loop blake3 source_root order prefix_len stop (root_hash blake3 journal) journal source memo)
      else (Inr journal, memo))"
  by pat_completeness auto
termination by (relation "measure (\<lambda>(_, _, _, prefix_len, offset, _). prefix_len - offset)") (auto simp: CANDIDATE_REPLAY_BATCH_def)

definition candidate_journal ::
  "hasher \<Rightarrow> journal_state \<Rightarrow> entry_hash list \<Rightarrow> memoized_replay \<Rightarrow> (minimize_error + journal_state) \<times> memoized_replay" where
  "candidate_journal blake3 source candidate memo =
     (case source_prefix_len source candidate of
        Some prefix_len \<Rightarrow>
          if prefix_len > 0 then
            candidate_loop blake3 (root_hash blake3 source) (entry_ids source) prefix_len 0 (root_hash blake3 journal_new) journal_new source memo
          else (map_sum MinSubgraph id (subgraph source candidate), memo)
      | None \<Rightarrow> (map_sum MinSubgraph id (subgraph source candidate), memo))"

text \<open>One candidate after another, on the same memo.\<close>

primrec candidate_journals ::
  "hasher \<Rightarrow> journal_state \<Rightarrow> entry_hash list list \<Rightarrow> memoized_replay \<Rightarrow> (minimize_error + journal_state) list \<times> memoized_replay" where
  "candidate_journals blake3 source [] memo = ([], memo)"
| "candidate_journals blake3 source (c # cs) memo =
     (let (r, memo) = candidate_journal blake3 source c memo; (rs, memo) = candidate_journals blake3 source cs memo in (r # rs, memo))"

section \<open>Correctness of the memo\<close>

definition source_prefix :: "journal_state \<Rightarrow> nat \<Rightarrow> journal_state" where
  "source_prefix source n = foldl (subgraph_step source (set (take n (entry_ids source)))) journal_new (journal_ids source)"

definition source_run :: "journal_state \<Rightarrow> nat \<Rightarrow> nat \<Rightarrow> entry_hash list" where
  "source_run source first n = take n (drop first (entry_ids source))"

text \<open>No two nonempty runs of the source have the same batch hash.\<close>

definition runs_distinct :: "hasher \<Rightarrow> journal_state \<Rightarrow> bool" where
  "runs_distinct blake3 source \<longleftrightarrow> (\<forall>a la b lb. 0 < la \<longrightarrow> 0 < lb \<longrightarrow>
     a + la \<le> length (entry_ids source) \<longrightarrow> b + lb \<le> length (entry_ids source) \<longrightarrow>
     hash_batch blake3 (source_run source a la) = hash_batch blake3 (source_run source b lb) \<longrightarrow> a = b \<and> la = lb)"

definition memo_ok :: "hasher \<Rightarrow> journal_state \<Rightarrow> memoized_replay \<Rightarrow> bool" where
  "memo_ok blake3 source m \<longleftrightarrow>
     (\<forall>order. map_of (mm_orders m) (root_hash blake3 source) = Some order \<longrightarrow> order = entry_ids source)
     \<and> (\<forall>first root. map_of (mm_prefix_roots m) (root_hash blake3 source, first) = Some root \<longrightarrow> root = root_hash blake3 (source_prefix source first))
     \<and> (\<forall>first n h. map_of (mm_batch_hashes m) (root_hash blake3 source, first, n) = Some h \<longrightarrow> h = hash_batch blake3 (source_run source first n))
     \<and> (\<forall>first n j. 0 < n \<longrightarrow> first + n \<le> length (entry_ids source) \<longrightarrow>
          map_of (mm_cache m) (root_hash blake3 (source_prefix source first), hash_batch blake3 (source_run source first n)) = Some j \<longrightarrow>
          j = source_prefix source (first + n))"

declare candidate_loop.simps [simp del]

lemma memo_new_ok: "memo_ok blake3 source memo_new"
  by (simp add: memo_ok_def memo_new_def)

lemma subgraph_prefix: "subgraph source (take n (entry_ids source)) = Inr (source_prefix source n)"
  by (simp add: subgraph_def source_prefix_def)

lemma position_nth: "distinct xs \<Longrightarrow> i < length xs \<Longrightarrow> position (xs ! i) xs = Some i"
  by (induction xs arbitrary: i) (auto simp: nth_Cons split: nat.splits)

lemma runs_distinct_ids: "runs_distinct blake3 source \<Longrightarrow> distinct (entry_ids source)"
  unfolding distinct_conv_nth
proof (intro allI impI notI)
  fix i j assume *: "runs_distinct blake3 source" "i < length (entry_ids source)" "j < length (entry_ids source)" "i \<noteq> j"
    "entry_ids source ! i = entry_ids source ! j"
  then have "source_run source i 1 = source_run source j 1"
    by (simp add: source_run_def take_Suc hd_drop_conv_nth)
  then show False using * unfolding runs_distinct_def by (metis Suc_eq_plus1 Suc_leI zero_less_one)
qed

lemma batch_start_run:
  assumes "distinct (entry_ids source)" "0 < n" "first + n \<le> length (entry_ids source)"
  shows "batch_start (entry_ids source) (source_run source first n) = Inr first"
proof -
  have "hd (source_run source first n) = entry_ids source ! first" "length (source_run source first n) = n"
    using assms by (auto simp: source_run_def hd_drop_conv_nth)
  then show ?thesis using assms position_nth [of "entry_ids source" first] by (simp add: batch_start_def source_run_def)
qed

lemma memo_ok_insert:
  assumes "runs_distinct blake3 source" "memo_ok blake3 source m" "0 < n" "first + n \<le> length (entry_ids source)"
  shows "memo_ok blake3 source (m\<lparr>mm_misses := k,
    mm_cache := hm_insert (root_hash blake3 (source_prefix source first), hash_batch blake3 (source_run source first n))
      (source_prefix source (first + n)) (mm_cache m)\<rparr>)"
proof -
  have same: "f = first \<and> l = n" if "hash_batch blake3 (source_run source first n) = hash_batch blake3 (source_run source f l)"
    "0 < l" "f + l \<le> length (entry_ids source)" for f l
    using assms(1,3,4) that unfolding runs_distinct_def by metis
  show ?thesis using assms(2) unfolding memo_ok_def by (auto simp: update_conv' split: if_splits dest: same [OF sym])
qed

lemma replay_ok:
  assumes "runs_distinct blake3 source" "memo_ok blake3 source m" "0 < n" "first + n \<le> length (entry_ids source)"
  shows "\<exists>m'. replay_with_root blake3 (root_hash blake3 source) (root_hash blake3 (source_prefix source first)) (source_run source first n) source m
    = (Inr (source_prefix source (first + n)), m') \<and> memo_ok blake3 source m'"
proof -
  let ?R = "root_hash blake3 source" and ?P = "root_hash blake3 (source_prefix source first)" and ?B = "source_run source first n"
  have B: "?B \<noteq> []" "length ?B = n" using assms(3,4) by (auto simp: source_run_def)
  obtain orders where o: "or_insert ?R (entry_ids source) (mm_orders m) = (entry_ids source, orders)"
    and o_ok: "memo_ok blake3 source (m\<lparr>mm_orders := orders\<rparr>)"
    using assms(2) by (cases "map_of (mm_orders m) ?R") (auto simp: or_insert_def memo_ok_def update_conv')
  obtain m1 where m1: "memo_prefix_root blake3 ?R (entry_ids source) first source (m\<lparr>mm_orders := orders\<rparr>) = (Inr ?P, m1)" "memo_ok blake3 source m1"
    using o_ok by (cases "map_of (mm_prefix_roots m) (?R, first)")
      (auto simp: memo_prefix_root_def subgraph_prefix memo_ok_def update_conv' Let_def)
  obtain hashes where h: "or_insert (?R, first, n) (hash_batch blake3 ?B) (mm_batch_hashes m1) = (hash_batch blake3 ?B, hashes)"
    and h_ok: "memo_ok blake3 source (m1\<lparr>mm_batch_hashes := hashes\<rparr>)"
    using m1(2) by (cases "map_of (mm_batch_hashes m1) (?R, first, n)") (auto simp: or_insert_def memo_ok_def update_conv')
  have "\<exists>m'. memo_serve blake3 ?R (entry_ids source) first ?B ?P source m1 = (Inr (source_prefix source (first + n)), m') \<and> memo_ok blake3 source m'"
  proof (cases "map_of (mm_cache m1) (?P, hash_batch blake3 ?B)")
    case None
    then show ?thesis using h B memo_ok_insert [OF assms(1) h_ok assms(3,4), of "mm_misses m1 + 1"]
      by (simp add: memo_serve_def Let_def subgraph_prefix)
  next
    case (Some j)
    then have "j = source_prefix source (first + n)" using m1(2) assms(3,4) by (simp add: memo_ok_def)
    then show ?thesis using h h_ok B Some by (simp add: memo_serve_def Let_def) (simp add: memo_ok_def)
  qed
  then show ?thesis using B o m1(1) batch_start_run [OF runs_distinct_ids [OF assms(1)] assms(3,4)]
    by (simp add: replay_with_root_def Let_def)
qed

lemma candidate_loop_ok:
  assumes "runs_distinct blake3 source" "memo_ok blake3 source m" "prefix_len \<le> length (entry_ids source)" "offset \<le> prefix_len"
  shows "\<exists>m'. candidate_loop blake3 (root_hash blake3 source) (entry_ids source) prefix_len offset
      (root_hash blake3 (source_prefix source offset)) (source_prefix source offset) source m
    = (Inr (source_prefix source prefix_len), m') \<and> memo_ok blake3 source m'"
  using assms(2,4)
proof (induction "prefix_len - offset" arbitrary: offset m rule: less_induct)
  case less
  let ?R = "root_hash blake3 source" and ?stop = "min (offset + CANDIDATE_REPLAY_BATCH) prefix_len"
  note step = candidate_loop.simps [of blake3 ?R "entry_ids source" prefix_len offset "root_hash blake3 (source_prefix source offset)"
    "source_prefix source offset" source m]
  show ?case
  proof (cases "offset < prefix_len")
    case True
    then have stop: "offset < ?stop" "?stop \<le> prefix_len" by (simp_all add: CANDIDATE_REPLAY_BATCH_def)
    then have "offset + (?stop - offset) = ?stop" by simp
    then obtain m1 where m1: "replay_with_root blake3 ?R (root_hash blake3 (source_prefix source offset)) (source_run source offset (?stop - offset)) source m
        = (Inr (source_prefix source ?stop), m1)" "memo_ok blake3 source m1"
      using replay_ok [OF assms(1) less.prems(1), of "?stop - offset" offset] stop assms(3) by (metis le_trans zero_less_diff)
    obtain m' where "candidate_loop blake3 ?R (entry_ids source) prefix_len ?stop (root_hash blake3 (source_prefix source ?stop)) (source_prefix source ?stop) source m1
        = (Inr (source_prefix source prefix_len), m')" "memo_ok blake3 source m'"
      using less.hyps [of ?stop m1] True stop m1(2) by (metis diff_less_mono2)
    then show ?thesis using True step m1(1) by (simp add: Let_def source_run_def)
  next
    case False
    then show ?thesis using step less.prems by simp
  qed
qed

lemma candidate_journal_ok:
  assumes "runs_distinct blake3 source" "memo_ok blake3 source m"
  shows "\<exists>m'. candidate_journal blake3 source c m = (map_sum MinSubgraph id (subgraph source c), m') \<and> memo_ok blake3 source m'"
proof (cases "c \<noteq> [] \<and> length c \<le> length (entry_ids source) \<and> take (length c) (entry_ids source) = c")
  case True
  have "journal_new = source_prefix source 0"
    unfolding source_prefix_def by (induction "journal_ids source" rule: rev_induct) (simp_all add: foldl_conv_fold subgraph_step_def fold_invariant)
  then show ?thesis
    using candidate_loop_ok [OF assms, of "length c" 0] True subgraph_prefix [of source "length c"]
    by (auto simp: candidate_journal_def source_prefix_len_def Let_def)
next
  case False
  then show ?thesis using assms(2) by (auto simp: candidate_journal_def source_prefix_len_def Let_def)
qed

text \<open>
  C12: memoized replay equals direct replay. Starting from an empty memo, the journals built for any
  sequence of minimization candidates through the memo, prefix runs in batches and all, are the subgraphs
  of the source that a direct rebuild of each candidate gives. The hypothesis is that no two runs of the
  source have the same BLAKE3 batch hash.
\<close>

theorem memoized_replay_exact:
  assumes "runs_distinct blake3 source"
  shows "fst (candidate_journals blake3 source cs memo_new) = map (\<lambda>c. map_sum MinSubgraph id (subgraph source c)) cs"
proof -
  have "memo_ok blake3 source m \<Longrightarrow> fst (candidate_journals blake3 source cs m) = map (\<lambda>c. map_sum MinSubgraph id (subgraph source c)) cs" for m
  proof (induction cs arbitrary: m)
    case (Cons c cs)
    obtain m' where "candidate_journal blake3 source c m = (map_sum MinSubgraph id (subgraph source c), m')" "memo_ok blake3 source m'"
      using candidate_journal_ok [OF assms Cons.prems] by blast
    then show ?case using Cons.IH [of m'] by (simp add: split_beta id_def)
  qed simp
  then show ?thesis using memo_new_ok by simp
qed

text \<open>A hash without collisions tells the runs of distinct ids apart.\<close>

lemma concat_hashes_inj:
  assumes "\<forall>h\<in>set xs. hash_ok h" "\<forall>h\<in>set ys. hash_ok h" "concat (map hash_bytes xs) = concat (map hash_bytes ys)"
  shows "xs = ys"
  using assms
proof (induction xs arbitrary: ys)
  case Nil
  then show ?case by (cases ys) (auto simp: hash_ok_def)
next
  case (Cons x xs)
  have "ys \<noteq> []" using Cons.prems(1,3) by (auto simp: hash_ok_def)
  then obtain y ys' where ys: "ys = y # ys'" by (cases ys) simp_all
  have len: "length (hash_bytes x) = length (hash_bytes y)" using Cons.prems(1,2) ys by (simp add: hash_ok_def)
  have "hash_bytes x @ concat (map hash_bytes xs) = hash_bytes y @ concat (map hash_bytes ys')" using Cons.prems(3) ys by simp
  then have "hash_bytes x = hash_bytes y" "concat (map hash_bytes xs) = concat (map hash_bytes ys')"
    using append_eq_append_conv [OF disjI1 [OF len]] by blast+
  then show ?case using Cons.IH [of ys'] Cons.prems(1,2) ys by (simp add: entry_hash.expand)
qed

lemma collision_free_runs:
  assumes "inj blake3" "distinct (entry_ids source)" "\<forall>h\<in>set (entry_ids source). hash_ok h"
  shows "runs_distinct blake3 source"
  unfolding runs_distinct_def
proof (intro allI impI)
  fix a la b lb assume *: "0 < la" "0 < lb" "a + la \<le> length (entry_ids source)" "b + lb \<le> length (entry_ids source)"
    "hash_batch blake3 (source_run source a la) = hash_batch blake3 (source_run source b lb)"
  have run: "source_run source a la = source_run source b lb"
    using *(5) assms(1,3) concat_hashes_inj [of "source_run source a la" "source_run source b lb"]
    by (simp add: hash_batch_def source_run_def inj_eq) (meson in_set_dropD in_set_takeD)
  have "length (source_run source c l) = l \<and> hd (source_run source c l) = entry_ids source ! c"
    if "0 < l" "c + l \<le> length (entry_ids source)" for c l
    using that by (simp add: source_run_def hd_drop_conv_nth)
  from this [OF *(1,3)] this [OF *(2,4)] run have "la = lb" "entry_ids source ! a = entry_ids source ! b" by simp_all
  then show "a = b \<and> la = lb" using *(1-4) nth_eq_iff_index_eq [OF assms(2), of a b] by simp
qed

theorem memoized_replay_exact_witness:
  "runs_distinct (\<lambda>b. b) demo_journal
   \<and> fst (candidate_journals (\<lambda>b. b) demo_journal [[en_id demo1], [en_id demo1, en_id demo2], [en_id demo2], [en_id demo1]] memo_new)
     = map (\<lambda>c. map_sum MinSubgraph id (subgraph demo_journal c)) [[en_id demo1], [en_id demo1, en_id demo2], [en_id demo2], [en_id demo1]]"
proof -
  have "entry_ids demo_journal = [en_id demo1, en_id demo2]"
    by (simp add: entry_ids_def demo_entries)
  then have "runs_distinct (\<lambda>b. b) demo_journal"
    by (intro collision_free_runs) (simp_all add: demo1_def demo2_def hash_ok_def)
  then show ?thesis using memoized_replay_exact [of "\<lambda>b. b" demo_journal] by blast
qed

end

