(* ===== verification/Support.thy ===== *)
theory Support
  imports Journal_Slice
begin

text \<open>
  Support expressions (\<open>ledger-explorer/src/support.rs\<close>): what a verdict rests on, its evaluation on a
  journal, its digest and the hard clauses it gives the solvers.
\<close>

section \<open>Support expressions\<close>

text \<open>A \<open>BTreeSet\<close> of ids is the list of its elements in order.\<close>

type_synonym id_set = "entry_hash list"

definition id_set :: "entry_hash list \<Rightarrow> id_set" where
  "id_set ids = sort (remdups ids)"

definition id_set_ok :: "id_set \<Rightarrow> bool" where
  "id_set_ok s \<longleftrightarrow> sorted s \<and> distinct s"

datatype support_error = EmptyAllOf | EmptyAnyOf

datatype support_outcome = Satisfied | NotSatisfied | Unknown

datatype support_expr =
    AllOf id_set
  | AnyOf "support_expr list"
  | OpaqueExpr

definition all_of :: "id_set \<Rightarrow> support_error + support_expr" where
  "all_of ids = (if ids = [] then Inl EmptyAllOf else Inr (AllOf ids))"

definition any_of :: "support_expr list \<Rightarrow> support_error + support_expr" where
  "any_of branches = (if branches = [] then Inl EmptyAnyOf else Inr (AnyOf branches))"

fun is_strong :: "support_expr \<Rightarrow> bool" where
  "is_strong (AllOf ids) = True"
| "is_strong (AnyOf branches) = list_all is_strong branches"
| "is_strong OpaqueExpr = False"

fun eval_depth :: "journal_state \<Rightarrow> nat option \<Rightarrow> nat \<Rightarrow> support_expr \<Rightarrow> support_outcome"
  and eval_any :: "journal_state \<Rightarrow> nat option \<Rightarrow> nat \<Rightarrow> support_expr list \<Rightarrow> bool \<Rightarrow> support_outcome" where
  "eval_depth st horizon depth e =
     (if (case horizon of Some limit \<Rightarrow> depth > limit | None \<Rightarrow> False) then Unknown
      else case e of
          OpaqueExpr \<Rightarrow> Unknown
        | AllOf ids \<Rightarrow> if list_all (\<lambda>i. journal_get st i \<noteq> None) ids then Satisfied else NotSatisfied
        | AnyOf branches \<Rightarrow> eval_any st horizon (depth + 1) branches False)"
| "eval_any st horizon depth [] saw_unknown = (if saw_unknown then Unknown else NotSatisfied)"
| "eval_any st horizon depth (b # bs) saw_unknown =
     (case eval_depth st horizon depth b of
        Satisfied \<Rightarrow> Satisfied
      | Unknown \<Rightarrow> eval_any st horizon depth bs True
      | NotSatisfied \<Rightarrow> eval_any st horizon depth bs saw_unknown)"

definition evaluate_with_horizon :: "support_expr \<Rightarrow> journal_state \<Rightarrow> nat option \<Rightarrow> support_outcome" where
  "evaluate_with_horizon e st horizon = eval_depth st horizon 0 e"

definition evaluate :: "support_expr \<Rightarrow> journal_state \<Rightarrow> support_outcome" where
  "evaluate e st = evaluate_with_horizon e st None"

fun canonical_bytes :: "support_expr \<Rightarrow> bytes" where
  "canonical_bytes (AllOf ids) = 0x00 # concat (map hash_bytes ids)"
| "canonical_bytes (AnyOf branches) = 0x01 # concat (map canonical_bytes branches)"
| "canonical_bytes OpaqueExpr = [0x02]"

definition support_digest :: "hasher \<Rightarrow> support_expr \<Rightarrow> entry_hash" where
  "support_digest blake3 e = EntryHash (blake3 (canonical_bytes e))"

section \<open>Providers\<close>

record static_support_provider =
  sp_version :: u64
  sp_expression :: support_expr
  sp_digest :: entry_hash

definition provider_new :: "hasher \<Rightarrow> u64 \<Rightarrow> support_expr \<Rightarrow> static_support_provider" where
  "provider_new blake3 version e =
     \<lparr>sp_version = version, sp_expression = e,
      sp_digest = EntryHash (blake3 (le_bytes 8 (unat version) @ hash_bytes (support_digest blake3 e)))\<rparr>"

definition entry_ids_by :: "journal_state \<Rightarrow> entry_kind \<Rightarrow> actor_id \<Rightarrow> id_set" where
  "entry_ids_by st kind actor =
     id_set (map en_id (filter (\<lambda>e. ed_kind (en_data e) = kind \<and> ed_actor (en_data e) = actor) (journal_entries st)))"

definition all_of_ids :: "entry_hash list \<Rightarrow> support_expr" where
  "all_of_ids ids = (case all_of (id_set ids) of Inr e \<Rightarrow> e | Inl _ \<Rightarrow> OpaqueExpr)"

section \<open>Clauses\<close>

fun hard_clauses_from_support :: "support_expr \<Rightarrow> entry_hash list list" where
  "hard_clauses_from_support (AllOf ids) = (if ids = [] then [] else [ids])"
| "hard_clauses_from_support (AnyOf branches) = concat (map hard_clauses_from_support branches)"
| "hard_clauses_from_support OpaqueExpr = []"

definition support_from_paths :: "entry_hash list list \<Rightarrow> bool \<Rightarrow> support_expr" where
  "support_from_paths paths truncated =
     (let branches = map (\<lambda>p. AllOf (id_set p)) (filter (\<lambda>p. id_set p \<noteq> []) paths);
          branches = (if truncated then branches @ [OpaqueExpr] else branches)
      in if branches = [] then OpaqueExpr
         else if length branches = 1 \<and> \<not> truncated then hd branches
         else case any_of branches of Inr e \<Rightarrow> e | Inl _ \<Rightarrow> OpaqueExpr)"

section \<open>Meaning of the clauses\<close>

text \<open>The constructors reject an empty conjunction.\<close>

fun support_wf :: "support_expr \<Rightarrow> bool" where
  "support_wf (AllOf ids) = (ids \<noteq> [])"
| "support_wf (AnyOf branches) = list_all support_wf branches"
| "support_wf OpaqueExpr = True"

definition hits :: "entry_hash set \<Rightarrow> entry_hash list list \<Rightarrow> bool" where
  "hits s clauses \<longleftrightarrow> (\<forall>c\<in>set clauses. \<exists>h\<in>set c. h \<in> s)"

declare eval_depth.simps [simp del]

lemma hits_Nil [simp]: "hits s []" by (simp add: hits_def)

lemma hits_Cons [simp]: "hits s (c # cs) \<longleftrightarrow> (\<exists>h\<in>set c. h \<in> s) \<and> hits s cs" by (simp add: hits_def)

lemma hits_append [simp]: "hits s (cs @ ds) \<longleftrightarrow> hits s cs \<and> hits s ds" by (auto simp: hits_def)

lemma hits_mono: "hits s cs \<Longrightarrow> s \<subseteq> t \<Longrightarrow> hits t cs" by (auto simp: hits_def)

text \<open>A strong expression fails on a journal exactly when the ids the journal lacks hit every clause.\<close>

lemma eval_strong_any:
  "horizon = None \<Longrightarrow> is_strong e \<Longrightarrow> support_wf e \<Longrightarrow>
     eval_depth st horizon depth e = (if hits {h. journal_get st h = None} (hard_clauses_from_support e) then NotSatisfied else Satisfied)"
  "horizon = None \<Longrightarrow> list_all is_strong es \<Longrightarrow> list_all support_wf es \<Longrightarrow>
     eval_any st horizon depth es saw = (if hits {h. journal_get st h = None} (concat (map hard_clauses_from_support es))
       then (if saw then Unknown else NotSatisfied) else Satisfied)"
proof (induction st horizon depth e and st horizon depth es saw rule: eval_depth_eval_any.induct)
  case (1 st horizon depth e)
  then show ?case using eval_depth.simps [of st horizon depth e] by (cases e) (auto simp: list_all_iff)
qed simp_all

lemma evaluate_strong:
  "is_strong e \<Longrightarrow> support_wf e \<Longrightarrow>
     evaluate e st = (if hits {h. journal_get st h = None} (hard_clauses_from_support e) then NotSatisfied else Satisfied)"
  by (simp add: evaluate_def evaluate_with_horizon_def eval_strong_any(1))

lemma support_from_paths_wf: "support_wf (support_from_paths paths truncated)"
proof -
  let ?branches = "map (\<lambda>p. AllOf (id_set p)) (filter (\<lambda>p. id_set p \<noteq> []) paths) @ (if truncated then [OpaqueExpr] else [])"
  have all: "list_all support_wf ?branches" by (auto simp: list_all_iff)
  then have "?branches \<noteq> [] \<Longrightarrow> support_wf (hd ?branches)" by (metis list_all_iff hd_in_set)
  then show ?thesis using all by (cases truncated) (simp_all add: support_from_paths_def any_of_def Let_def)
qed

text \<open>
  Encodings of branches are concatenated without a count, so different expressions share one encoding and
  one digest.
\<close>

lemma canonical_bytes_ambiguous:
  "canonical_bytes (AnyOf [AnyOf [OpaqueExpr], OpaqueExpr]) = canonical_bytes (AnyOf [AnyOf [OpaqueExpr, OpaqueExpr]])"
  by simp

lemma canonical_bytes_regroups:
  "canonical_bytes (AnyOf [AnyOf [AllOf [a]], AllOf [b]]) = canonical_bytes (AnyOf [AnyOf [AllOf [a], AllOf [b]]])"
  by simp

end

