(* ===== verification/Hitting_Sets.thy ===== *)
theory Hitting_Sets
  imports Support
begin

text \<open>
  The exact hitting-set engine (\<open>ledger-explorer/src/solver/mod.rs\<close>) with the fault costs of
  \<open>solver/hitting_set.rs\<close>: minimal sets of events that meet every derivation path.
\<close>

section \<open>Faultable events\<close>

record faultable_event =
  fe_event :: entry_hash
  fe_kind :: entry_kind
  fe_cost :: u64

record fault_hypothesis =
  fh_events :: "entry_hash list"
  fh_total_cost :: u64
  fh_explanation :: string

definition is_faultable :: "entry_kind \<Rightarrow> bool" where
  "is_faultable kind = (kind \<in> {KSend, KRecv, KFsRead, KFsWrite, KTimerFire, KTimerSet})"

definition event_fault_cost :: "journal_state \<Rightarrow> entry_hash \<Rightarrow> u64" where
  "event_fault_cost st h =
     (case journal_get st h of
        Some e \<Rightarrow>
          if ed_kind (en_data e) \<in> {KSend, KRecv} then 2
          else if ed_kind (en_data e) \<in> {KTimerFire, KTimerSet} then 3
          else if ed_kind (en_data e) \<in> {KFsRead, KFsWrite} then 4
          else 5
      | None \<Rightarrow> 10)"

section \<open>Minimal hitting sets\<close>

text \<open>The variant \<open>SolverState\<close>, which only \<open>solver_state.rs\<close> produces, is left out.\<close>

datatype solver_error =
    SolverJournal journal_error
  | EmptyProvenance
  | BudgetExhausted string
  | Unsupported

definition MAX_HITTING_SET_PATHS :: nat where "MAX_HITTING_SET_PATHS = 65536"

definition MAX_HITTING_SET_CANDIDATES :: nat where "MAX_HITTING_SET_CANDIDATES = 65536"

definition is_subset :: "id_set \<Rightarrow> id_set \<Rightarrow> bool" where
  "is_subset a b = list_all (\<lambda>x. x \<in> set b) a"

text \<open>One set of the size order: dropped when it contains a kept one, else it replaces the ones that contain it.\<close>

definition keep_minimal :: "id_set list \<Rightarrow> id_set \<Rightarrow> id_set list" where
  "keep_minimal minimal s =
     (if list_ex (\<lambda>existing. is_subset existing s) minimal then minimal
      else filter (\<lambda>existing. \<not> is_subset s existing) minimal @ [s])"

definition prune_supersets :: "id_set list \<Rightarrow> id_set list" where
  "prune_supersets sets = sort (foldl keep_minimal [] (sort_key length (remdups_adj (sort sets))))"

definition expand_set :: "id_set \<Rightarrow> id_set \<Rightarrow> id_set list" where
  "expand_set path_hashes current =
     (if list_ex (\<lambda>h. h \<in> set path_hashes) current then [current]
      else map (\<lambda>h. insort_insert h current) path_hashes)"

fun hitting_loop :: "faultable_event list list \<Rightarrow> id_set list \<Rightarrow> solver_error + id_set list" where
  "hitting_loop [] candidate_sets = Inr candidate_sets"
| "hitting_loop (path # paths) candidate_sets =
     (let next_candidates = concat (map (expand_set (id_set (map fe_event path))) candidate_sets)
      in if length next_candidates > MAX_HITTING_SET_CANDIDATES
         then Inl (BudgetExhausted ''hitting-set candidate sets exceed the budget'')
         else hitting_loop paths (prune_supersets next_candidates))"

definition compute_minimal_hitting_sets :: "faultable_event list list \<Rightarrow> solver_error + id_set list" where
  "compute_minimal_hitting_sets paths =
     (if length paths > MAX_HITTING_SET_PATHS then Inl (BudgetExhausted ''derivation paths exceed the hitting-set budget'')
      else hitting_loop paths [[]])"

section \<open>Correctness\<close>

definition antichain :: "id_set list \<Rightarrow> bool" where
  "antichain sets \<longleftrightarrow> (\<forall>a\<in>set sets. \<forall>b\<in>set sets. set a \<subseteq> set b \<longrightarrow> a = b)"

definition covers :: "id_set list \<Rightarrow> id_set list \<Rightarrow> bool" where
  "covers small big \<longleftrightarrow> (\<forall>b\<in>set big. \<exists>a\<in>set small. set a \<subseteq> set b)"

text \<open>The candidates after some paths: an antichain of hitting sets, one below every hitting set.\<close>

definition hitting_inv :: "entry_hash list list \<Rightarrow> id_set list \<Rightarrow> bool" where
  "hitting_inv clauses sets \<longleftrightarrow> antichain sets \<and> (\<forall>s\<in>set sets. id_set_ok s \<and> hits (set s) clauses)
     \<and> (\<forall>t. hits t clauses \<longrightarrow> (\<exists>s\<in>set sets. set s \<subseteq> t))"

definition demo_event :: "u8 \<Rightarrow> faultable_event" where
  "demo_event b = \<lparr>fe_event = EntryHash [b], fe_kind = KSend, fe_cost = 2\<rparr>"

definition demo_paths :: "faultable_event list list" where
  "demo_paths = [[demo_event 1, demo_event 2], [demo_event 3, demo_event 2]]"

lemma is_subset_iff [simp]: "is_subset a b \<longleftrightarrow> set a \<subseteq> set b"
  by (auto simp: is_subset_def list_all_iff)

lemma id_set_facts [simp]: "set (id_set ids) = set ids" "id_set_ok (id_set ids)"
  by (simp_all add: id_set_def id_set_ok_def)

lemma id_set_eq: "id_set_ok a \<Longrightarrow> id_set_ok b \<Longrightarrow> set a = set b \<Longrightarrow> a = b"
  by (auto simp: id_set_ok_def intro: sorted_distinct_set_unique)

lemma covers_trans: "covers a b \<Longrightarrow> covers b c \<Longrightarrow> covers a c"
  unfolding covers_def by (meson subset_trans)

lemma covers_append: "covers a (b @ c) \<longleftrightarrow> covers a b \<and> covers a c"
  by (auto simp: covers_def)

lemma covers_Cons: "covers a (x # c) \<longleftrightarrow> (\<exists>s\<in>set a. set s \<subseteq> set x) \<and> covers a c"
  by (simp add: covers_def)

lemma covers_set: "set b \<subseteq> set a \<Longrightarrow> covers a b"
  by (auto simp: covers_def)

lemma keep_minimal_step:
  assumes "antichain minimal" "\<forall>s\<in>set (x # minimal). id_set_ok s"
  shows "antichain (keep_minimal minimal x)" "set (keep_minimal minimal x) \<subseteq> insert x (set minimal)"
    "covers (keep_minimal minimal x) (x # minimal)"
proof -
  have eq: "set s = set x \<Longrightarrow> s \<in> set minimal \<Longrightarrow> s = x" for s using assms(2) id_set_eq by auto
  show "antichain (keep_minimal minimal x)"
    using assms(1) eq by (simp add: keep_minimal_def antichain_def list_ex_iff)
  show "set (keep_minimal minimal x) \<subseteq> insert x (set minimal)" by (auto simp: keep_minimal_def)
  show "covers (keep_minimal minimal x) (x # minimal)"
    by (simp add: keep_minimal_def covers_def list_ex_iff) blast
qed

lemma prune_fold:
  assumes "antichain minimal" "\<forall>s\<in>set (sets @ minimal). id_set_ok s"
  shows "antichain (foldl keep_minimal minimal sets) \<and> set (foldl keep_minimal minimal sets) \<subseteq> set sets \<union> set minimal
    \<and> covers (foldl keep_minimal minimal sets) (sets @ minimal)"
  using assms
proof (induction sets arbitrary: minimal)
  case Nil
  then show ?case by (simp add: covers_set)
next
  case (Cons x sets)
  have "\<forall>s\<in>set (x # minimal). id_set_ok s" using Cons.prems(2) by simp
  note step = keep_minimal_step [OF Cons.prems(1) this]
  have ok: "\<forall>s\<in>set (sets @ keep_minimal minimal x). id_set_ok s" using Cons.prems(2) step(2) by auto
  note IH = Cons.IH [OF step(1) ok]
  have "covers (foldl keep_minimal (keep_minimal minimal x) sets) (x # minimal)"
    using IH step(3) covers_trans covers_append by blast
  then have "covers (foldl keep_minimal (keep_minimal minimal x) sets) ((x # sets) @ minimal)"
    using IH by (simp add: covers_append covers_Cons)
  then show ?case using IH step(2) by auto
qed

lemma prune_supersets_spec:
  assumes "\<forall>s\<in>set sets. id_set_ok s"
  shows "antichain (prune_supersets sets) \<and> set (prune_supersets sets) \<subseteq> set sets \<and> covers (prune_supersets sets) sets"
  using prune_fold [of "[]" "sort_key length (remdups_adj (sort sets))"] assms
  by (simp add: prune_supersets_def antichain_def covers_def)

lemma hitting_inv_step:
  assumes "hitting_inv clauses sets"
  shows "hitting_inv (clauses @ [map fe_event path]) (prune_supersets (concat (map (expand_set (id_set (map fe_event path))) sets)))"
proof -
  let ?p = "id_set (map fe_event path)" and ?next = "concat (map (expand_set (id_set (map fe_event path))) sets)"
  have ok: "id_set_ok s \<and> hits (set s) (clauses @ [map fe_event path])" if "s \<in> set ?next" for s
  proof -
    from that obtain c where c: "c \<in> set sets" "s \<in> set (expand_set ?p c)" by auto
    have *: "id_set_ok c" "hits (set c) clauses" using assms c(1) by (auto simp: hitting_inv_def)
    show ?thesis
    proof (cases "list_ex (\<lambda>h. h \<in> set ?p) c")
      case True
      then show ?thesis using * c(2) by (auto simp: expand_set_def list_ex_iff)
    next
      case False
      then obtain h where h: "h \<in> set ?p" "s = insort_insert h c" using c(2) by (auto simp: expand_set_def)
      then have "set s = insert h (set c)" "id_set_ok s"
        using *(1) by (simp_all add: set_insort_insert id_set_ok_def sorted_insort_insert distinct_insort_insert)
      then show ?thesis using h(1) hits_mono [OF *(2), of "set s"] by auto
    qed
  qed
  have below: "\<exists>s\<in>set ?next. set s \<subseteq> t" if t: "hits t (clauses @ [map fe_event path])" for t
  proof -
    obtain c where c: "c \<in> set sets" "set c \<subseteq> t" using assms t by (auto simp: hitting_inv_def)
    show ?thesis
    proof (cases "list_ex (\<lambda>h. h \<in> set ?p) c")
      case True
      then have "c \<in> set (expand_set ?p c)" by (simp add: expand_set_def)
      then show ?thesis using c by auto
    next
      case False
      obtain h where h: "h \<in> set ?p" "h \<in> t" using t by auto
      then have "insort_insert h c \<in> set (expand_set ?p c)" using False by (simp add: expand_set_def)
      moreover have "set (insort_insert h c) \<subseteq> t" using h c(2) by (simp add: set_insort_insert)
      ultimately show ?thesis using c(1) by auto
    qed
  qed
  have "\<forall>s\<in>set ?next. id_set_ok s" using ok by blast
  from prune_supersets_spec [OF this] show ?thesis
    unfolding hitting_inv_def covers_def using ok below by (meson subset_iff subset_trans)
qed

lemma hitting_loop_spec:
  "hitting_inv clauses sets \<Longrightarrow> hitting_loop paths sets = Inr result \<Longrightarrow> hitting_inv (clauses @ map (map fe_event) paths) result"
proof (induction paths arbitrary: clauses sets)
  case (Cons path paths)
  from Cons.IH [OF hitting_inv_step [OF Cons.prems(1), of path]] Cons.prems(2) show ?case
    by (simp add: Let_def split: if_splits)
qed simp

lemma hitting_spec:
  assumes "compute_minimal_hitting_sets paths = Inr result"
  shows "hitting_inv (map (map fe_event) paths) result"
proof -
  have "hitting_inv [] [[]]" by (simp add: hitting_inv_def antichain_def id_set_ok_def)
  then show ?thesis using hitting_loop_spec [of "[]" "[[]]" paths result] assms
    by (simp add: compute_minimal_hitting_sets_def split: if_splits)
qed

text \<open>
  C10: the enumeration is exact. Unless a budget is exceeded, the sets returned, each in order and without
  repetition, are precisely the minimal hitting sets of the paths: a set of ids is among them if and only if
  it meets every path and no proper subset of it does.
\<close>

theorem minimal_hitting_sets_exact:
  assumes "compute_minimal_hitting_sets paths = Inr result"
  shows "(\<forall>s\<in>set result. id_set_ok s)
    \<and> set ` set result = {s. hits s (map (map fe_event) paths) \<and> (\<forall>t. t \<subset> s \<longrightarrow> \<not> hits t (map (map fe_event) paths))}"
proof -
  let ?h = "\<lambda>s. hits s (map (map fe_event) paths)"
  note inv = hitting_spec [OF assms, unfolded hitting_inv_def]
  have sound: "?h (set s) \<and> (\<forall>t. t \<subset> set s \<longrightarrow> \<not> ?h t)" if s: "s \<in> set result" for s
  proof (intro conjI allI impI notI)
    show "?h (set s)" using inv s by simp
    fix t assume t: "t \<subset> set s" "?h t"
    then obtain c where c: "c \<in> set result" "set c \<subseteq> t" using inv by blast
    then have "c = s" using inv s t(1) unfolding antichain_def by (meson psubset_imp_subset subset_trans)
    then show False using c(2) t(1) by blast
  qed
  have complete: "\<exists>c\<in>set result. s = set c" if s: "?h s" "\<forall>t. t \<subset> s \<longrightarrow> \<not> ?h t" for s
  proof -
    obtain c where c: "c \<in> set result" "set c \<subseteq> s" using inv s(1) by blast
    moreover have "?h (set c)" using sound [OF c(1)] by simp
    ultimately show ?thesis using s(2) by (metis psubsetI)
  qed
  show ?thesis
  proof (intro conjI set_eqI iffI)
    show "\<forall>s\<in>set result. id_set_ok s" using inv by simp
    show "s \<in> {s. ?h s \<and> (\<forall>t. t \<subset> s \<longrightarrow> \<not> ?h t)}" if "s \<in> set ` set result" for s using that sound by auto
    show "s \<in> set ` set result" if "s \<in> {s. ?h s \<and> (\<forall>t. t \<subset> s \<longrightarrow> \<not> ?h t)}" for s using that complete [of s] by auto
  qed
qed

text \<open>
  C24: cuts decide support. For a support expression without opaque parts, the sets computed from its hard
  clauses are the ways to falsify it: on any journal the expression evaluates to \<open>NotSatisfied\<close> exactly when the
  journal lacks all events of one of these cuts.
\<close>

theorem cuts_decide_support:
  assumes "is_strong e" "support_wf e"
    and "compute_minimal_hitting_sets (map (map (\<lambda>h. \<lparr>fe_event = h, fe_kind = kind, fe_cost = cost\<rparr>)) (hard_clauses_from_support e)) = Inr cuts"
  shows "evaluate e st = NotSatisfied \<longleftrightarrow> (\<exists>cut\<in>set cuts. \<forall>h\<in>set cut. journal_get st h = None)"
proof -
  have "map (map fe_event) (map (map (\<lambda>h. \<lparr>fe_event = h, fe_kind = kind, fe_cost = cost\<rparr>)) (hard_clauses_from_support e)) = hard_clauses_from_support e"
    by (simp add: comp_def)
  then have inv: "hitting_inv (hard_clauses_from_support e) cuts" using hitting_spec [OF assms(3)] by simp
  let ?missing = "{h. journal_get st h = None}"
  have "hits ?missing (hard_clauses_from_support e) \<longleftrightarrow> (\<exists>cut\<in>set cuts. set cut \<subseteq> ?missing)"
    using inv hits_mono unfolding hitting_inv_def by blast
  then show ?thesis using evaluate_strong [OF assms(1,2), of st] by auto
qed

lemmas cuts_eval = compute_minimal_hitting_sets_def MAX_HITTING_SET_PATHS_def MAX_HITTING_SET_CANDIDATES_def Let_def expand_set_def
  id_set_def prune_supersets_def keep_minimal_def insort_insert_key_def less_eq_entry_hash_def less_entry_hash_def sort_key_def

lemma demo_cuts: "compute_minimal_hitting_sets demo_paths = Inr [[EntryHash [1], EntryHash [3]], [EntryHash [2]]]"
  by (simp add: demo_paths_def demo_event_def cuts_eval)

theorem minimal_hitting_sets_exact_witness:
  "compute_minimal_hitting_sets demo_paths = Inr [[EntryHash [1], EntryHash [3]], [EntryHash [2]]]
   \<and> id_set_ok [EntryHash [1], EntryHash [3]] \<and> hits {EntryHash [1], EntryHash [3]} (map (map fe_event) demo_paths)
   \<and> \<not> hits {EntryHash [3]} (map (map fe_event) demo_paths)"
proof -
  let ?result = "[[EntryHash [1], EntryHash [3]], [EntryHash [2]]]" and ?h = "\<lambda>s. hits s (map (map fe_event) demo_paths)"
  note exact = minimal_hitting_sets_exact [OF demo_cuts]
  have "{EntryHash [1], EntryHash [3]} \<in> set ` set ?result" by simp
  then have "{EntryHash [1], EntryHash [3]} \<in> {s. ?h s \<and> (\<forall>t. t \<subset> s \<longrightarrow> \<not> ?h t)}" using exact by (simp only:)
  note minimal = CollectD [OF this]
  have "{EntryHash [3]} \<subset> {EntryHash [1], EntryHash [3]}" by (rule psubsetI) simp_all
  then have "\<not> ?h {EntryHash [3]}" by (rule conjunct2 [OF minimal, rule_format])
  moreover have "id_set_ok [EntryHash [1], EntryHash [3]]" using exact by (simp only: list.set_intros)
  ultimately show ?thesis using demo_cuts conjunct1 [OF minimal] by (simp only: simp_thms)
qed

theorem cuts_decide_support_witness:
  "evaluate (AnyOf [AllOf [EntryHash [1], EntryHash [2]], AllOf [EntryHash [2], EntryHash [3]]]) journal_new = NotSatisfied"
proof -
  let ?e = "AnyOf [AllOf [EntryHash [1], EntryHash [2]], AllOf [EntryHash [2], EntryHash [3]]]"
  have cuts: "compute_minimal_hitting_sets (map (map (\<lambda>h. \<lparr>fe_event = h, fe_kind = KSend, fe_cost = 2\<rparr>)) (hard_clauses_from_support ?e))
      = Inr [[EntryHash [1], EntryHash [3]], [EntryHash [2]]]" by (simp add: cuts_eval)
  have "journal_get journal_new (EntryHash [2]) = None" by (simp add: journal_get_def journal_new_def)
  then show ?thesis using cuts_decide_support [of ?e KSend 2, OF _ _ cuts, of journal_new] by simp
qed

end

