(* ===== verification/Max_Sat.thy ===== *)
theory Max_Sat
  imports Hitting_Sets
begin

text \<open>
  Weighted hitting sets by branch and bound (\<open>ledger-explorer/src/maxsat.rs\<close>): the encoding of an explicit
  support, the greedy start, the search with its budgets and the lower bound from disjoint clauses.
\<close>

section \<open>Encodings\<close>

record cardinality_bound =
  cb_literals :: id_set
  cb_max_true :: nat

record hazard_encoding =
  he_hard :: "entry_hash list list"
  he_soft :: "(entry_hash list \<times> u64) list"
  he_cardinality :: "cardinality_bound option"

record max_sat_solution =
  ms_cut :: id_set
  ms_total_cost :: u64
  ms_unsat_core_cost :: u64

type_synonym weight_map = "(entry_hash \<times> u64) list"

text \<open>
  The encoding of an explicit support expression. Of the verdict it reads the witnesses and whether there
  is a violation, of the configuration the bound on the number of faults.
\<close>

definition faultable_id :: "journal_state \<Rightarrow> entry_hash \<Rightarrow> bool" where
  "faultable_id st h = (case journal_get st h of Some e \<Rightarrow> is_faultable (ed_kind (en_data e)) | None \<Rightarrow> False)"

definition support_hard :: "journal_state \<Rightarrow> support_expr \<Rightarrow> entry_hash list list" where
  "support_hard st support =
     remdups_adj (sort (map sort (filter (\<lambda>c. c \<noteq> []) (map (filter (faultable_id st)) (hard_clauses_from_support support)))))"

definition encode_hazard_with_support ::
  "journal_state \<Rightarrow> entry_hash list \<Rightarrow> bool \<Rightarrow> nat option \<Rightarrow> support_expr \<Rightarrow> solver_error + hazard_encoding" where
  "encode_hazard_with_support st witnesses violated max_faults support =
     (case find (\<lambda>w. journal_get st w = None) witnesses of
        Some w \<Rightarrow> Inl (SolverJournal (MissingParent w))
      | None \<Rightarrow>
          let hard = support_hard st support
          in if hard = [] \<and> witnesses \<noteq> [] then Inl EmptyProvenance
             else if hard = [] \<and> violated then Inl EmptyProvenance
             else
               let ids = id_set (concat hard)
               in Inr \<lparr>he_hard = hard, he_soft = map (\<lambda>h. ([h], event_fault_cost st h)) ids,
                       he_cardinality = map_option (\<lambda>lim. \<lparr>cb_literals = ids, cb_max_true = lim\<rparr>) max_faults\<rparr>)"

section \<open>Lower bound\<close>

definition clause_min_cost :: "entry_hash list \<Rightarrow> weight_map \<Rightarrow> u64" where
  "clause_min_cost c w = (case List.map_filter (map_of w) c of [] \<Rightarrow> 1 | x # xs \<Rightarrow> foldl min x xs)"

fun disjoint_loop :: "weight_map \<Rightarrow> entry_hash list list \<Rightarrow> entry_hash set \<Rightarrow> u64 \<Rightarrow> u64" where
  "disjoint_loop w [] used acc = acc"
| "disjoint_loop w (c # cs) used acc =
     (if list_ex (\<lambda>h. h \<in> used) c then disjoint_loop w cs used acc
      else disjoint_loop w cs (used \<union> set c) (u64_saturating_add acc (clause_min_cost c w)))"

definition disjoint_lower :: "entry_hash list list \<Rightarrow> weight_map \<Rightarrow> u64" where
  "disjoint_lower hard w = disjoint_loop w (sort_key (\<lambda>c. (clause_min_cost c w, length c, c)) hard) {} 0"

section \<open>Greedy start\<close>

definition weight_of :: "weight_map \<Rightarrow> entry_hash \<Rightarrow> u64" where
  "weight_of w h = (case map_of w h of Some c \<Rightarrow> c | None \<Rightarrow> 1)"

definition coverage :: "id_set list \<Rightarrow> (entry_hash \<times> nat) list" where
  "coverage uncovered =
     foldl (\<lambda>m l. om_insert l ((case map_of m l of Some n \<Rightarrow> n | None \<Rightarrow> 0) + 1) m) [] (concat uncovered)"

definition better_literal :: "weight_map \<Rightarrow> entry_hash \<times> nat \<Rightarrow> entry_hash \<times> nat \<Rightarrow> bool" where
  "better_literal w a b \<longleftrightarrow> snd b < snd a \<or> snd a = snd b \<and>
     (max (weight_of w (fst a)) 1 < max (weight_of w (fst b)) 1 \<or>
      max (weight_of w (fst a)) 1 = max (weight_of w (fst b)) 1 \<and> fst a < fst b)"

definition best_literal :: "weight_map \<Rightarrow> id_set list \<Rightarrow> entry_hash option" where
  "best_literal w uncovered =
     (case coverage uncovered of [] \<Rightarrow> None | x # xs \<Rightarrow> Some (fst (foldl (\<lambda>m y. if better_literal w y m then y else m) x xs)))"

lemma foldl_keeps: "foldl (\<lambda>m y. if P y m then y else m) x xs \<in> insert x (set xs)"
  by (induction xs arbitrary: x) (auto split: if_splits)

lemma keys_coverage_fold: "fst ` set (foldl (\<lambda>m l. om_insert l (f m l) m) m ls) = fst ` set m \<union> set ls"
  by (induction ls arbitrary: m) auto

lemma keys_coverage: "fst ` set (coverage uncovered) = set (concat uncovered)"
  using keys_coverage_fold [of "\<lambda>m l. (case map_of m l of Some n \<Rightarrow> n | None \<Rightarrow> 0) + 1" "[]" "concat uncovered"]
  unfolding coverage_def by (simp only: list.set image_empty sup_bot_left)

lemma best_literal_covers: "best_literal w uncovered = Some l \<Longrightarrow> \<exists>c\<in>set uncovered. l \<in> set c"
proof -
  assume "best_literal w uncovered = Some l"
  then obtain x xs where "coverage uncovered = x # xs" "l = fst (foldl (\<lambda>m y. if better_literal w y m then y else m) x xs)"
    by (auto simp: best_literal_def split: list.splits)
  then have "l \<in> fst ` set (coverage uncovered)" using foldl_keeps [of "better_literal w" x xs] by auto
  then show ?thesis using keys_coverage [of uncovered] by auto
qed

lemma best_literal_None: "best_literal w uncovered = None \<Longrightarrow> concat uncovered = []"
  using keys_coverage [of uncovered] by (auto simp: best_literal_def split: list.splits)

function greedy_loop :: "weight_map \<Rightarrow> id_set list \<Rightarrow> id_set \<Rightarrow> u64 \<Rightarrow> id_set list \<times> id_set \<times> u64" where
  "greedy_loop w uncovered chosen cost =
     (if uncovered = [] then (uncovered, chosen, cost)
      else case best_literal w uncovered of
          None \<Rightarrow> (uncovered, chosen, cost)
        | Some l \<Rightarrow> greedy_loop w (filter (\<lambda>c. l \<notin> set c) uncovered) (insort_insert l chosen) (u64_saturating_add cost (max (weight_of w l) 1)))"
  by pat_completeness auto
termination
  by (relation "measure (\<lambda>(_, uncovered, _, _). length uncovered)") (auto dest!: best_literal_covers intro!: length_filter_less)

declare greedy_loop.simps [simp del]

definition greedy_incumbent :: "id_set list \<Rightarrow> weight_map \<Rightarrow> id_set \<times> u64 \<Rightarrow> id_set \<times> u64" where
  "greedy_incumbent hard w best =
     (case greedy_loop w hard [] 0 of (uncovered, chosen, cost) \<Rightarrow> if uncovered \<noteq> [] then best else (chosen, cost))"

section \<open>Branch and bound\<close>

record search_state =
  ss_best_cut :: id_set
  ss_best_cost :: u64
  ss_nodes_visited :: nat

text \<open>
  The clauses are the ones from \<open>start_clause\<close> on. The literals of the first clause that \<open>cur\<close> does not hit
  are tried in order of weight; \<open>cur\<close> is the same before and after a literal.
\<close>

definition sorted_literals :: "weight_map \<Rightarrow> id_set \<Rightarrow> (entry_hash \<times> u64) list" where
  "sorted_literals w clause = sort_key (\<lambda>(h, wt). (wt, h)) (map (\<lambda>h. (h, weight_of w h)) clause)"

function dfs :: "weight_map \<Rightarrow> nat option \<Rightarrow> nat \<Rightarrow> id_set list \<Rightarrow> id_set \<Rightarrow> u64 \<Rightarrow> search_state \<Rightarrow> solver_error + search_state"
  and dfs_literals :: "weight_map \<Rightarrow> nat option \<Rightarrow> nat \<Rightarrow> id_set list \<Rightarrow> (entry_hash \<times> u64) list \<Rightarrow> id_set \<Rightarrow> u64 \<Rightarrow> search_state \<Rightarrow> solver_error + search_state" where
  "dfs w max_true max_nodes clauses cur cur_cost st =
     (let st = st\<lparr>ss_nodes_visited := ss_nodes_visited st + 1\<rparr>
      in if ss_nodes_visited st > max_nodes then Inl (BudgetExhausted ''branch-and-bound node budget'')
         else if cur_cost \<ge> ss_best_cost st then Inr st
         else if (case max_true of Some b \<Rightarrow> length cur > b | None \<Rightarrow> False) then Inr st
         else case dropWhile (\<lambda>c. list_ex (\<lambda>h. h \<in> set cur) c) clauses of
             [] \<Rightarrow> Inr (if cur_cost < ss_best_cost st then st\<lparr>ss_best_cost := cur_cost, ss_best_cut := cur\<rparr> else st)
           | clause # rest \<Rightarrow> dfs_literals w max_true max_nodes rest (sorted_literals w clause) cur cur_cost st)"
| "dfs_literals w max_true max_nodes rest [] cur cur_cost st = Inr st"
| "dfs_literals w max_true max_nodes rest ((h, wt) # lits) cur cur_cost st =
     (if h \<in> set cur then dfs_literals w max_true max_nodes rest lits cur cur_cost st
      else let nxt = u64_saturating_add cur_cost wt
        in if nxt \<ge> ss_best_cost st then dfs_literals w max_true max_nodes rest lits cur cur_cost st
           else case dfs w max_true max_nodes rest (insort_insert h cur) nxt st of
               Inl e \<Rightarrow> Inl e
             | Inr st \<Rightarrow> dfs_literals w max_true max_nodes rest lits cur cur_cost st)"
  by pat_completeness auto
termination
proof (relation "measures [\<lambda>x. case x of Inl (_, _, _, clauses, _) \<Rightarrow> length clauses | Inr (_, _, _, rest, _) \<Rightarrow> length rest,
    \<lambda>x. case x of Inl _ \<Rightarrow> 0 | Inr (_, _, _, _, lits, _) \<Rightarrow> Suc (length lits)]", goal_cases)
  case (2 w max_true max_nodes clauses cur cur_cost st x clause rest)
  then have "length (clause # rest) \<le> length clauses" by (metis length_dropWhile_le)
  then show ?case by simp
qed auto

declare dfs.simps [simp del]

definition weights_of :: "(entry_hash list \<times> u64) list \<Rightarrow> weight_map" where
  "weights_of soft = foldl (\<lambda>m (lits, w). foldl (\<lambda>m h. om_insert h w m) m lits) [] soft"

text \<open>The sum of the weights wraps, as in a release build.\<close>

definition solve_maxsat_bnb_with_budget ::
  "hazard_encoding \<Rightarrow> nat \<Rightarrow> u64 \<Rightarrow> nat \<Rightarrow> solver_error + max_sat_solution" where
  "solve_maxsat_bnb_with_budget enc max_clauses max_cost_units max_nodes =
     (if he_hard enc = [] then Inr \<lparr>ms_cut = [], ms_total_cost = 0, ms_unsat_core_cost = 0\<rparr>
      else if length (he_hard enc) > max_clauses then Inl (BudgetExhausted ''hard clause count exceeds budget'')
      else
        let weights = weights_of (he_soft enc)
        in if sum_list (map snd weights) > max_cost_units then Inl (BudgetExhausted ''cost units exceed budget'')
           else
             let hard_sets = sort_key (\<lambda>s. (length s, s)) (filter (\<lambda>s. s \<noteq> []) (map id_set (he_hard enc)));
                 (best_cut, best_cost) = greedy_incumbent hard_sets weights ([], - 1)
             in case dfs weights (map_option cb_max_true (he_cardinality enc)) max_nodes hard_sets [] 0
                    \<lparr>ss_best_cut = best_cut, ss_best_cost = best_cost, ss_nodes_visited = 0\<rparr> of
                  Inl e \<Rightarrow> Inl e
                | Inr st \<Rightarrow>
                    if ss_best_cost st = - 1 then Inl Unsupported
                    else Inr \<lparr>ms_cut = ss_best_cut st, ms_total_cost = ss_best_cost st,
                              ms_unsat_core_cost = min (disjoint_lower (he_hard enc) weights) (ss_best_cost st)\<rparr>)"

definition MAXSAT_BNB_MAX_CLAUSES :: nat where "MAXSAT_BNB_MAX_CLAUSES = 2000000"

definition MAXSAT_BNB_MAX_COST_UNITS :: u64 where "MAXSAT_BNB_MAX_COST_UNITS = 10000000"

definition MAXSAT_BNB_MAX_NODES :: nat where "MAXSAT_BNB_MAX_NODES = 10000000"

definition solve_maxsat_bnb :: "hazard_encoding \<Rightarrow> solver_error + max_sat_solution" where
  "solve_maxsat_bnb enc = solve_maxsat_bnb_with_budget enc MAXSAT_BNB_MAX_CLAUSES MAXSAT_BNB_MAX_COST_UNITS MAXSAT_BNB_MAX_NODES"

section \<open>Costs\<close>

definition cost_of :: "weight_map \<Rightarrow> entry_hash set \<Rightarrow> nat" where
  "cost_of w s = (\<Sum>h\<in>s. unat (weight_of w h))"

lemma cost_of_insert: "finite s \<Longrightarrow> h \<notin> s \<Longrightarrow> cost_of w (insert h s) = unat (weight_of w h) + cost_of w s"
  by (simp add: cost_of_def)

lemma cost_of_mono: "finite t \<Longrightarrow> s \<subseteq> t \<Longrightarrow> cost_of w s \<le> cost_of w t"
  by (simp add: cost_of_def sum_mono2)

lemma unat_saturating_le: "unat (u64_saturating_add a b) \<le> unat a + unat b"
proof (cases "unat a + unat b < 2 ^ 64")
  case True
  then show ?thesis by (simp add: u64_saturating_add_def unat_add_lem [THEN iffD1])
next
  case False
  moreover have "unat (- 1 :: u64) = 18446744073709551615" by (simp add: unsigned_minus_1_eq_mask mask_eq_exp_minus_1)
  ultimately show ?thesis by (simp add: u64_saturating_add_def)
qed

lemma unat_saturating_eq: "unat a + unat b < 2 ^ 64 \<Longrightarrow> unat (u64_saturating_add a b) = unat a + unat b"
  by (simp add: u64_saturating_add_def unat_add_lem [THEN iffD1])

text \<open>Disjoint clauses cost every hitting set at least the cheapest literal of each.\<close>

lemma foldl_min_le: "foldl min (x :: u64) xs \<le> x \<and> (\<forall>y\<in>set xs. foldl min x xs \<le> y)"
proof (induction xs arbitrary: x)
  case (Cons y ys)
  then show ?case using Cons.IH [of "min x y"] by (auto intro: order_trans)
qed simp

lemma clause_min_cost_le: "h \<in> set c \<Longrightarrow> map_of w h = Some x \<Longrightarrow> clause_min_cost c w \<le> x"
proof -
  assume "h \<in> set c" "map_of w h = Some x"
  then have "x \<in> set (List.map_filter (map_of w) c)" by (auto simp: List.map_filter_def intro: image_eqI [of _ _ h])
  then show ?thesis using foldl_min_le by (cases "List.map_filter (map_of w) c") (auto simp: clause_min_cost_def)
qed

lemma disjoint_loop_le:
  assumes "finite t" "hits t cs" "\<forall>c\<in>set cs. \<forall>h\<in>set c. map_of w h \<noteq> None"
  shows "unat (disjoint_loop w cs used acc) \<le> unat acc + cost_of w (t - used)"
  using assms(2,3)
proof (induction cs arbitrary: used acc)
  case (Cons c cs)
  show ?case
  proof (cases "list_ex (\<lambda>h. h \<in> used) c")
    case True
    then show ?thesis using Cons by simp
  next
    case False
    obtain h where h: "h \<in> set c" "h \<in> t" using Cons.prems(1) by auto
    then obtain x where x: "map_of w h = Some x" using Cons.prems(2) by fastforce
    have "h \<notin> used" using False h(1) by (auto simp: list_ex_iff)
    then have "insert h (t - (used \<union> set c)) \<subseteq> t - used" using h by auto
    then have "unat x + cost_of w (t - (used \<union> set c)) \<le> cost_of w (t - used)"
      using cost_of_mono [of "t - used" "insert h (t - (used \<union> set c))" w] assms(1) h x by (simp add: cost_of_insert weight_of_def)
    moreover have "unat (clause_min_cost c w) \<le> unat x" using clause_min_cost_le [OF h(1) x] by (simp add: word_le_nat_alt)
    moreover have "unat (disjoint_loop w cs (used \<union> set c) (u64_saturating_add acc (clause_min_cost c w)))
        \<le> unat (u64_saturating_add acc (clause_min_cost c w)) + cost_of w (t - (used \<union> set c))"
      using Cons.IH Cons.prems by simp
    ultimately show ?thesis using False unat_saturating_le [of acc "clause_min_cost c w"] by simp
  qed
qed simp

lemma hits_set: "set cs = set ds \<Longrightarrow> hits t cs = hits t ds"
  by (simp add: hits_def)

lemma disjoint_lower_le:
  assumes "finite t" "hits t hard" "\<forall>c\<in>set hard. \<forall>h\<in>set c. map_of w h \<noteq> None"
  shows "unat (disjoint_lower hard w) \<le> cost_of w t"
  using disjoint_loop_le [OF assms(1), of "sort_key (\<lambda>c. (clause_min_cost c w, length c, c)) hard" w "{}" 0] assms(2,3)
    hits_set [of "sort_key (\<lambda>c. (clause_min_cost c w, length c, c)) hard" hard t] by (simp add: disjoint_lower_def)

section \<open>The greedy start\<close>

text \<open>The literals of a search: finitely many, of positive weight, and together within 64 bits.\<close>

definition universe_ok :: "weight_map \<Rightarrow> entry_hash set \<Rightarrow> bool" where
  "universe_ok w u \<longleftrightarrow> finite u \<and> (\<forall>h\<in>u. 1 \<le> weight_of w h) \<and> cost_of w u < 2 ^ 64 - 1"

definition cut_ok :: "weight_map \<Rightarrow> entry_hash set \<Rightarrow> id_set \<Rightarrow> u64 \<Rightarrow> bool" where
  "cut_ok w u chosen cost \<longleftrightarrow> id_set_ok chosen \<and> set chosen \<subseteq> u \<and> unat cost = cost_of w (set chosen)"

lemma cut_ok_insert:
  assumes "universe_ok w u" "cut_ok w u chosen cost" "h \<in> u" "h \<notin> set chosen"
  shows "cut_ok w u (insort_insert h chosen) (u64_saturating_add cost (weight_of w h))" "set (insort_insert h chosen) = insert h (set chosen)"
proof -
  show s: "set (insort_insert h chosen) = insert h (set chosen)" by (simp add: set_insort_insert)
  have "cost_of w (insert h (set chosen)) = unat (weight_of w h) + cost_of w (set chosen)" using assms(4) by (simp add: cost_of_insert)
  moreover have "cost_of w (insert h (set chosen)) \<le> cost_of w u" using assms(1-3) by (intro cost_of_mono) (auto simp: universe_ok_def cut_ok_def)
  ultimately have "unat (u64_saturating_add cost (weight_of w h)) = cost_of w (set (insort_insert h chosen))"
    using assms(1,2) s by (simp add: unat_saturating_eq universe_ok_def cut_ok_def)
  then show "cut_ok w u (insort_insert h chosen) (u64_saturating_add cost (weight_of w h))"
    using assms(2,3) s by (auto simp: cut_ok_def id_set_ok_def sorted_insort_insert distinct_insort_insert)
qed

lemma greedy_loop_spec:
  assumes "universe_ok w u" "\<forall>c\<in>set uncovered. c \<noteq> [] \<and> set c \<subseteq> u \<and> set c \<inter> set chosen = {}" "cut_ok w u chosen cost"
    "greedy_loop w uncovered chosen cost = (uncovered', chosen', cost')"
  shows "uncovered' = [] \<and> set chosen \<subseteq> set chosen' \<and> hits (set chosen') uncovered \<and> cut_ok w u chosen' cost'"
  using assms
proof (induction w uncovered chosen cost rule: greedy_loop.induct)
  case (1 w uncovered chosen cost)
  note step = greedy_loop.simps [of w uncovered chosen cost]
  show ?case
  proof (cases "uncovered = []")
    case True
    then show ?thesis using 1(4,5) step by simp
  next
    case False
    then have "concat uncovered \<noteq> []" using 1(3) by (cases uncovered) auto
    then obtain l where l: "best_literal w uncovered = Some l" using best_literal_None by fastforce
    then obtain c where c: "c \<in> set uncovered" "l \<in> set c" using best_literal_covers by blast
    have lu: "l \<in> u" "l \<notin> set chosen" using 1(3) c by auto
    then have "max (weight_of w l) 1 = weight_of w l" using 1(2) by (auto simp: universe_ok_def max_def)
    then have run: "greedy_loop w (filter (\<lambda>c. l \<notin> set c) uncovered) (insort_insert l chosen) (u64_saturating_add cost (max (weight_of w l) 1))
        = (uncovered', chosen', cost')" and next_ok: "cut_ok w u (insort_insert l chosen) (u64_saturating_add cost (max (weight_of w l) 1))"
      and set_next: "set (insort_insert l chosen) = insert l (set chosen)"
      using 1(5) step False l cut_ok_insert [OF 1(2,4) lu] by simp_all
    have "\<forall>c\<in>set (filter (\<lambda>c. l \<notin> set c) uncovered). c \<noteq> [] \<and> set c \<subseteq> u \<and> set c \<inter> set (insort_insert l chosen) = {}"
      using 1(3) by (auto simp: set_next)
    from 1(1) [OF False l 1(2) this next_ok run] show ?thesis using set_next by (auto simp: hits_def)
  qed
qed

section \<open>The search\<close>

definition feasible :: "nat option \<Rightarrow> entry_hash set \<Rightarrow> bool" where
  "feasible max_true t \<longleftrightarrow> (case max_true of Some b \<Rightarrow> card t \<le> b | None \<Rightarrow> True)"

text \<open>
  What a part of the search does for the sets that extend \<open>cur\<close> and satisfy \<open>P\<close>: the best cost falls to at most
  their cost, and a new best cut is one of them.
\<close>

definition search_post ::
  "weight_map \<Rightarrow> nat option \<Rightarrow> entry_hash set \<Rightarrow> (entry_hash set \<Rightarrow> bool) \<Rightarrow> id_set \<Rightarrow> search_state \<Rightarrow> search_state \<Rightarrow> bool" where
  "search_post w max_true u P cur st st' \<longleftrightarrow> ss_best_cost st' \<le> ss_best_cost st
     \<and> (\<forall>t. finite t \<longrightarrow> set cur \<subseteq> t \<longrightarrow> P t \<longrightarrow> feasible max_true t \<longrightarrow> unat (ss_best_cost st') \<le> cost_of w t)
     \<and> (ss_best_cost st' = ss_best_cost st \<and> ss_best_cut st' = ss_best_cut st
        \<or> cut_ok w u (ss_best_cut st') (ss_best_cost st') \<and> set cur \<subseteq> set (ss_best_cut st') \<and> P (set (ss_best_cut st'))
          \<and> feasible max_true (set (ss_best_cut st')))"

lemma search_post_seq:
  assumes "search_post w max_true u P cur st st1" "search_post w max_true u Q cur st1 st2"
    and "\<And>t. R t \<longleftrightarrow> P t \<or> Q t"
  shows "search_post w max_true u R cur st st2"
  using assms unfolding search_post_def word_le_nat_alt by (auto 0 4 intro: le_trans)

lemma hits_dropWhile:
  "set cur \<subseteq> t \<Longrightarrow> hits t (dropWhile (\<lambda>c. list_ex (\<lambda>h. h \<in> set cur) c) cs) \<longleftrightarrow> hits t cs"
  by (induction cs) (auto simp: list_ex_iff)

lemma set_sorted_literals: "set (sorted_literals w c) = (\<lambda>h. (h, weight_of w h)) ` set c"
  by (simp add: sorted_literals_def)

definition literal_in :: "(entry_hash \<times> u64) list \<Rightarrow> entry_hash set \<Rightarrow> bool" where
  "literal_in lits t \<longleftrightarrow> (\<exists>p\<in>set lits. fst p \<in> t)"

text \<open>A part of the search that leaves the state alone, because every set in question costs too much.\<close>

lemma search_post_skip:
  assumes "\<And>t. finite t \<Longrightarrow> set cur \<subseteq> t \<Longrightarrow> P t \<Longrightarrow> feasible max_true t \<Longrightarrow> unat (ss_best_cost st) \<le> cost_of w t"
    and "ss_best_cost st' = ss_best_cost st" "ss_best_cut st' = ss_best_cut st"
  shows "search_post w max_true u P cur st st'"
  using assms by (simp add: search_post_def)

lemma search_post_extend:
  assumes "search_post w max_true u (\<lambda>t. hits t rest) cur' st st'" "set cur' = insert h (set cur)"
  shows "search_post w max_true u (\<lambda>t. hits t rest \<and> h \<in> t) cur st st'"
  using assms unfolding search_post_def by auto

lemma dfs_branch:
  assumes "\<not> ss_nodes_visited st + 1 > max_nodes" "\<not> cur_cost \<ge> ss_best_cost st"
    "\<not> (case max_true of Some b \<Rightarrow> length cur > b | None \<Rightarrow> False)"
  shows "dfs w max_true max_nodes clauses cur cur_cost st = (case dropWhile (\<lambda>c. list_ex (\<lambda>h. h \<in> set cur) c) clauses of
      [] \<Rightarrow> Inr (st\<lparr>ss_nodes_visited := ss_nodes_visited st + 1, ss_best_cost := cur_cost, ss_best_cut := cur\<rparr>)
    | clause # rest \<Rightarrow> dfs_literals w max_true max_nodes rest (sorted_literals w clause) cur cur_cost (st\<lparr>ss_nodes_visited := ss_nodes_visited st + 1\<rparr>))"
proof -
  have "\<not> ss_nodes_visited (st\<lparr>ss_nodes_visited := ss_nodes_visited st + 1\<rparr>) > max_nodes"
    "\<not> cur_cost \<ge> ss_best_cost (st\<lparr>ss_nodes_visited := ss_nodes_visited st + 1\<rparr>)"
    "cur_cost < ss_best_cost (st\<lparr>ss_nodes_visited := ss_nodes_visited st + 1\<rparr>)" using assms by simp_all
  then show ?thesis using assms(3) by (subst dfs.simps) (simp only: Let_def if_False if_True)
qed

lemma dfs_spec:
  "universe_ok w u \<Longrightarrow> cut_ok w u cur cur_cost \<Longrightarrow> \<forall>c\<in>set clauses. set c \<subseteq> u
    \<Longrightarrow> dfs w max_true max_nodes clauses cur cur_cost st = Inr st' \<Longrightarrow> search_post w max_true u (\<lambda>t. hits t clauses) cur st st'"
  "universe_ok w u \<Longrightarrow> cut_ok w u cur cur_cost \<Longrightarrow> \<forall>c\<in>set rest. set c \<subseteq> u \<Longrightarrow> \<forall>(h, wt)\<in>set lits. h \<in> u \<and> wt = weight_of w h \<and> h \<notin> set cur
    \<Longrightarrow> dfs_literals w max_true max_nodes rest lits cur cur_cost st = Inr st'
    \<Longrightarrow> search_post w max_true u (\<lambda>t. hits t rest \<and> literal_in lits t) cur st st'"
proof (induction w max_true max_nodes clauses cur cur_cost st and w max_true max_nodes rest lits cur cur_cost st
    arbitrary: st' and st' rule: dfs_dfs_literals.induct)
  case (1 w max_true max_nodes clauses cur cur_cost st)
  let ?st = "st\<lparr>ss_nodes_visited := ss_nodes_visited st + 1\<rparr>"
  let ?open = "dropWhile (\<lambda>c. list_ex (\<lambda>h. h \<in> set cur) c) clauses"
  note step = dfs.simps [of w max_true max_nodes clauses cur cur_cost st]
  have nodes: "\<not> ss_nodes_visited ?st > max_nodes" using 1(5) step by (auto simp: Let_def)
  have len: "(case max_true of Some b \<Rightarrow> length cur > b | None \<Rightarrow> False) \<longleftrightarrow> \<not> feasible max_true (set cur)"
    using 1(3) by (auto simp: feasible_def cut_ok_def id_set_ok_def distinct_card split: option.splits)
  have cost: "unat cur_cost \<le> cost_of w t" if "finite t" "set cur \<subseteq> t" for t
    using cost_of_mono [OF that, of w] 1(3) by (simp add: cut_ok_def)
  consider (costly) "cur_cost \<ge> ss_best_cost ?st" | (large) "\<not> feasible max_true (set cur)"
    | (go) "\<not> cur_cost \<ge> ss_best_cost ?st" "feasible max_true (set cur)" by blast
  then show ?case
  proof cases
    case costly
    then have "st' = ?st" using 1(5) step nodes by simp
    then show ?thesis using costly cost by (intro search_post_skip) (auto simp: word_le_nat_alt intro: le_trans)
  next
    case large
    have "\<not> feasible max_true t" if "finite t" "set cur \<subseteq> t" for t
      using large card_mono [OF that] by (auto simp: feasible_def split: option.splits)
    moreover have "st' = ?st" using 1(5) step nodes large len by (simp add: Let_def split: if_splits)
    ultimately show ?thesis by (intro search_post_skip) auto
  next
    case go
    have branch: "dfs w max_true max_nodes clauses cur cur_cost st = (case ?open of
        [] \<Rightarrow> Inr (?st\<lparr>ss_best_cost := cur_cost, ss_best_cut := cur\<rparr>)
      | clause # rest \<Rightarrow> dfs_literals w max_true max_nodes rest (sorted_literals w clause) cur cur_cost ?st)"
      using dfs_branch [where st = st and max_nodes = max_nodes and cur_cost = cur_cost and max_true = max_true and cur = cur] nodes go len by simp
    show ?thesis
    proof (cases ?open)
      case Nil
      then have "st' = ?st\<lparr>ss_best_cost := cur_cost, ss_best_cut := cur\<rparr>" using 1(5) [unfolded branch Nil] by simp
      moreover have "hits (set cur) clauses" using hits_dropWhile [of cur "set cur" clauses] unfolding Nil by simp
      ultimately show ?thesis using go cost 1(3) by (simp add: search_post_def)
    next
      case (Cons clause rest)
      have run: "dfs_literals w max_true max_nodes rest (sorted_literals w clause) cur cur_cost ?st = Inr st'"
        using 1(5) [unfolded branch Cons] by simp
      have sub: "set (clause # rest) \<subseteq> set clauses" using set_dropWhileD [of _ _ clauses] Cons by (metis subsetI)
      have new: "h \<notin> set cur" if "h \<in> set clause" for h
        using Cons that hd_dropWhile [of "\<lambda>c. list_ex (\<lambda>h. h \<in> set cur) c" clauses] by (auto simp: list_ex_iff)
      have "\<forall>(h, wt)\<in>set (sorted_literals w clause). h \<in> u \<and> wt = weight_of w h \<and> h \<notin> set cur"
        using sub new 1(4) by (auto simp: set_sorted_literals)
      moreover have "\<forall>c\<in>set rest. set c \<subseteq> u" using sub 1(4) by auto
      ultimately have "search_post w max_true u (\<lambda>t. hits t rest \<and> literal_in (sorted_literals w clause) t) cur ?st st'"
        using 1(1) [OF refl nodes go(1) _ Cons 1(2,3)] run go(2) len by blast
      moreover have "hits t clauses \<longleftrightarrow> hits t rest \<and> literal_in (sorted_literals w clause) t" if "set cur \<subseteq> t" for t
        using hits_dropWhile [OF that, of clauses] Cons by (auto simp: literal_in_def set_sorted_literals)
      ultimately show ?thesis unfolding search_post_def by simp blast
    qed
  qed
next
  case (2 w max_true max_nodes rest cur cur_cost st)
  then show ?case by (simp add: search_post_def literal_in_def)
next
  case (3 w max_true max_nodes rest h wt lits cur cur_cost st)
  let ?nxt = "u64_saturating_add cur_cost wt"
  have h: "h \<in> u" "wt = weight_of w h" "h \<notin> set cur" using 3(8) by auto
  note ins = cut_ok_insert [OF 3(5,6) h(1,3)]
  have lits: "\<forall>(h, wt)\<in>set lits. h \<in> u \<and> wt = weight_of w h \<and> h \<notin> set cur" using 3(8) by simp
  have split: "hits t rest \<and> literal_in ((h, wt) # lits) t \<longleftrightarrow> (hits t rest \<and> h \<in> t) \<or> (hits t rest \<and> literal_in lits t)" for t
    by (auto simp: literal_in_def)
  show ?case
  proof (cases "?nxt \<ge> ss_best_cost st")
    case True
    have "search_post w max_true u (\<lambda>t. hits t rest \<and> h \<in> t) cur st st"
    proof (rule search_post_skip)
      fix t assume t: "finite t" "set cur \<subseteq> t" "hits t rest \<and> h \<in> t"
      have "unat ?nxt \<le> cost_of w t" using cost_of_mono [of t "insert h (set cur)" w] t ins h(2) by (simp add: cut_ok_def)
      then show "unat (ss_best_cost st) \<le> cost_of w t" using True by (simp add: word_le_nat_alt)
    qed simp_all
    moreover have "search_post w max_true u (\<lambda>t. hits t rest \<and> literal_in lits t) cur st st'"
      using 3(2) [OF h(3) refl True 3(5-7) lits] 3(9) h(3) True by simp
    ultimately show ?thesis using split by (rule search_post_seq)
  next
    case False
    then obtain st1 where st1: "dfs w max_true max_nodes rest (insort_insert h cur) ?nxt st = Inr st1"
      "dfs_literals w max_true max_nodes rest lits cur cur_cost st1 = Inr st'"
      using 3(9) h(3) False by (auto simp: Let_def split: sum.splits)
    have "search_post w max_true u (\<lambda>t. hits t rest) (insort_insert h cur) st st1"
      using 3(3) [OF h(3) refl False 3(5) _ 3(7) st1(1)] ins(1) h(2) by simp
    then have "search_post w max_true u (\<lambda>t. hits t rest \<and> h \<in> t) cur st st1" using ins(2) by (rule search_post_extend)
    moreover have "search_post w max_true u (\<lambda>t. hits t rest \<and> literal_in lits t) cur st1 st'"
      using 3(4) [OF h(3) refl False st1(1) 3(5-7) lits st1(2)] .
    ultimately show ?thesis using split by (rule search_post_seq)
  qed
qed

section \<open>The solver\<close>

lemma hits_clause_sets: "hits t (sort_key f (filter (\<lambda>s. s \<noteq> []) (map id_set hard))) \<longleftrightarrow> hits t (filter (\<lambda>c. c \<noteq> []) hard)"
proof -
  have "id_set c = [] \<longleftrightarrow> c = []" for c using id_set_facts(1) [of c] by (metis set_empty)
  then have "filter (\<lambda>s. s \<noteq> []) (map id_set hard) = map id_set (filter (\<lambda>c. c \<noteq> []) hard)" by (simp add: filter_map comp_def)
  moreover have "hits t (sort_key f (map id_set cs)) \<longleftrightarrow> hits t cs" for cs by (simp add: hits_def)
  ultimately show ?thesis by simp
qed

lemma greedy_spec:
  assumes "universe_ok w u" "\<forall>c\<in>set hard. c \<noteq> [] \<and> set c \<subseteq> u" "greedy_incumbent hard w best = (chosen, cost)"
  shows "cut_ok w u chosen cost \<and> hits (set chosen) hard"
proof -
  obtain left chosen' cost' where g: "greedy_loop w hard [] 0 = (left, chosen', cost')" by (cases "greedy_loop w hard [] 0")
  have "cut_ok w u [] 0" by (simp add: cut_ok_def id_set_ok_def cost_of_def)
  then have "left = [] \<and> hits (set chosen') hard \<and> cut_ok w u chosen' cost'"
    using greedy_loop_spec [OF assms(1) _ _ g] assms(2) by simp
  then show ?thesis using assms(3) g by (auto simp: greedy_incumbent_def)
qed

lemma bnb_spec:
  assumes w: "w = weights_of (he_soft enc)" and u: "universe_ok w u"
    and hard: "\<forall>c\<in>set (he_hard enc). c \<noteq> [] \<and> set c \<subseteq> u" and known: "\<forall>h\<in>u. map_of w h \<noteq> None"
    and run: "solve_maxsat_bnb_with_budget enc max_clauses max_cost_units max_nodes = Inr sol"
  shows "cut_ok w u (ms_cut sol) (ms_total_cost sol) \<and> hits (set (ms_cut sol)) (he_hard enc)
    \<and> (\<forall>t. finite t \<longrightarrow> hits t (he_hard enc) \<longrightarrow> unat (ms_unsat_core_cost sol) \<le> cost_of w t
         \<and> (feasible (map_option cb_max_true (he_cardinality enc)) t \<longrightarrow> unat (ms_total_cost sol) \<le> cost_of w t))"
proof (cases "he_hard enc = []")
  case True
  then show ?thesis using run by (auto simp: solve_maxsat_bnb_with_budget_def cut_ok_def id_set_ok_def cost_of_def)
next
  case False
  let ?sets = "sort_key (\<lambda>s. (length s, s)) (filter (\<lambda>s. s \<noteq> []) (map id_set (he_hard enc)))"
    and ?max = "map_option cb_max_true (he_cardinality enc)"
  obtain cut0 cost0 where g: "greedy_incumbent ?sets w ([], - 1) = (cut0, cost0)" by force
  from run False g obtain st where d: "dfs w ?max max_nodes ?sets [] 0 \<lparr>ss_best_cut = cut0, ss_best_cost = cost0, ss_nodes_visited = 0\<rparr> = Inr st"
    and sol: "sol = \<lparr>ms_cut = ss_best_cut st, ms_total_cost = ss_best_cost st,
      ms_unsat_core_cost = min (disjoint_lower (he_hard enc) w) (ss_best_cost st)\<rparr>"
    by (auto simp: solve_maxsat_bnb_with_budget_def w Let_def split: if_splits sum.splits)
  have sets: "\<forall>c\<in>set ?sets. c \<noteq> [] \<and> set c \<subseteq> u" using hard by fastforce
  have "filter (\<lambda>c. c \<noteq> []) (he_hard enc) = he_hard enc" using hard by (simp add: filter_id_conv)
  then have hs: "hits t ?sets \<longleftrightarrow> hits t (he_hard enc)" for t using hits_clause_sets [of t _ "he_hard enc"] by simp
  note g0 = greedy_spec [OF u sets g]
  have "search_post w ?max u (\<lambda>t. hits t ?sets) [] \<lparr>ss_best_cut = cut0, ss_best_cost = cost0, ss_nodes_visited = 0\<rparr> st"
  proof (rule dfs_spec(1) [OF u _ _ d])
    show "cut_ok w u [] 0" by (simp add: cut_ok_def id_set_ok_def cost_of_def)
    show "\<forall>c\<in>set ?sets. set c \<subseteq> u" using sets by blast
  qed
  then have "cut_ok w u (ss_best_cut st) (ss_best_cost st) \<and> hits (set (ss_best_cut st)) ?sets"
    and best: "\<And>t. finite t \<Longrightarrow> hits t ?sets \<Longrightarrow> feasible ?max t \<Longrightarrow> unat (ss_best_cost st) \<le> cost_of w t"
    using g0 by (auto simp: search_post_def)
  moreover have "unat (disjoint_lower (he_hard enc) w) \<le> cost_of w t" if "finite t" "hits t (he_hard enc)" for t
    using disjoint_lower_le [OF that, of w] hard known by blast
  ultimately show ?thesis using sol hs by (simp add: min_def word_le_nat_alt) (meson le_trans nat_le_linear)
qed

text \<open>The weights of an encoding are the fault costs of its literals.\<close>

lemma weights_of_singletons: "weights_of (map (\<lambda>h. ([h], f h)) ids) = om_collect (map (\<lambda>h. (h, f h)) ids)"
proof -
  have "foldl (\<lambda>m (lits, w). foldl (\<lambda>m h. om_insert h w m) m lits) m (map (\<lambda>h. ([h], f h)) ids)
      = foldl (\<lambda>m (k, v). om_insert k v m) m (map (\<lambda>h. (h, f h)) ids)" for m
    by (induction ids arbitrary: m) auto
  then show ?thesis by (simp add: weights_of_def om_collect_def)
qed

lemma weights_of_singletons_get:
  "distinct ids \<Longrightarrow> map_of (weights_of (map (\<lambda>h. ([h], f h)) ids)) h = (if h \<in> set ids then Some (f h) else None)"
  using map_of_rev_distinct [of "map (\<lambda>h. (h, f h)) ids"] by (simp add: weights_of_singletons om_collect(2) comp_def map_of_map_restrict)

lemma event_fault_cost_bounds: "2 \<le> event_fault_cost st h" "event_fault_cost st h \<le> 10" "unat (event_fault_cost st h) \<le> 10"
  by (auto simp: event_fault_cost_def split: option.splits)

lemma universe_of_encoding:
  assumes "distinct ids" "length ids < 2 ^ 60"
  shows "universe_ok (weights_of (map (\<lambda>h. ([h], event_fault_cost st h)) ids)) (set ids)"
proof -
  let ?w = "weights_of (map (\<lambda>h. ([h], event_fault_cost st h)) ids)"
  have w: "weight_of ?w h = event_fault_cost st h" if "h \<in> set ids" for h
    using weights_of_singletons_get [OF assms(1)] that by (simp add: weight_of_def)
  have "cost_of ?w (set ids) \<le> (\<Sum>h\<in>set ids. 10)" unfolding cost_of_def
    using w event_fault_cost_bounds(3) by (intro sum_mono) simp
  also have "\<dots> = 10 * length ids" using assms(1) by (simp add: distinct_card)
  finally have "cost_of ?w (set ids) < 2 ^ 64 - 1" using assms(2) by simp
  moreover have "1 \<le> weight_of ?w h" if "h \<in> set ids" for h
    using w [OF that] order_trans [of "1 :: u64" 2, OF _ event_fault_cost_bounds(1)] by simp
  ultimately show ?thesis by (simp add: universe_ok_def)
qed

lemma encode_facts:
  assumes "encode_hazard_with_support st witnesses violated max_faults support = Inr enc"
  shows "he_hard enc = support_hard st support" "he_soft enc = map (\<lambda>h. ([h], event_fault_cost st h)) (id_set (concat (support_hard st support)))"
    "map_option cb_max_true (he_cardinality enc) = max_faults"
proof -
  have "enc = \<lparr>he_hard = support_hard st support, he_soft = map (\<lambda>h. ([h], event_fault_cost st h)) (id_set (concat (support_hard st support))),
      he_cardinality = map_option (\<lambda>lim. \<lparr>cb_literals = id_set (concat (support_hard st support)), cb_max_true = lim\<rparr>) max_faults\<rparr>"
    using assms by (auto simp: encode_hazard_with_support_def Let_def split: option.splits if_splits)
  then show "he_hard enc = support_hard st support" "he_soft enc = map (\<lambda>h. ([h], event_fault_cost st h)) (id_set (concat (support_hard st support)))"
    "map_option cb_max_true (he_cardinality enc) = max_faults" by (cases max_faults; simp)+
qed

lemma support_hard_nonempty: "c \<in> set (support_hard st support) \<Longrightarrow> c \<noteq> []"
  unfolding support_hard_def by (auto dest!: arg_cong [of "sort _" "[]" length])

text \<open>
  C4: the solver returns a cheapest cut. Encode a support expression over a journal without a bound on
  the number of faults. Unless the branch and bound runs out of a budget, the cut it returns hits every hard
  clause, its reported cost is the sum of the fault costs of its events, no hitting set whatever is cheaper,
  and the reported lower bound is below the cost of every hitting set. The encoding has fewer than \<open>2 ^ 60\<close> literals.
\<close>

theorem maxsat_cut_optimal:
  assumes "encode_hazard_with_support st witnesses violated None support = Inr enc" "length (he_soft enc) < 2 ^ 60"
    and "solve_maxsat_bnb_with_budget enc max_clauses max_cost_units max_nodes = Inr sol"
  shows "id_set_ok (ms_cut sol) \<and> hits (set (ms_cut sol)) (support_hard st support)
    \<and> unat (ms_total_cost sol) = (\<Sum>h\<in>set (ms_cut sol). unat (event_fault_cost st h))
    \<and> (\<forall>t. finite t \<and> hits t (support_hard st support) \<longrightarrow>
         unat (ms_total_cost sol) \<le> (\<Sum>h\<in>t. unat (event_fault_cost st h)) \<and> unat (ms_unsat_core_cost sol) \<le> (\<Sum>h\<in>t. unat (event_fault_cost st h)))"
proof -
  note enc = encode_facts [OF assms(1)]
  let ?ids = "id_set (concat (support_hard st support))"
  let ?w = "weights_of (he_soft enc)"
  have ids: "distinct ?ids" "length ?ids < 2 ^ 60" using assms(2) enc(2) id_set_facts(2) [of "concat (support_hard st support)"]
    by (simp_all add: id_set_ok_def)
  have get: "map_of ?w h = (if h \<in> set ?ids then Some (event_fault_cost st h) else None)" for h
    using weights_of_singletons_get [OF ids(1)] enc(2) by simp
  have "\<forall>c\<in>set (he_hard enc). c \<noteq> [] \<and> set c \<subseteq> set ?ids" using support_hard_nonempty enc(1) by auto
  moreover have "\<forall>h\<in>set ?ids. map_of ?w h \<noteq> None" by (simp add: get)
  ultimately have spec: "cut_ok ?w (set ?ids) (ms_cut sol) (ms_total_cost sol)" "hits (set (ms_cut sol)) (support_hard st support)"
    and best: "finite t \<Longrightarrow> hits t (support_hard st support) \<Longrightarrow>
      unat (ms_unsat_core_cost sol) \<le> cost_of ?w t \<and> unat (ms_total_cost sol) \<le> cost_of ?w t" for t
    using bnb_spec [OF refl _ _ _ assms(3), of "set ?ids"] universe_of_encoding [OF ids, of st] enc by (auto simp: feasible_def)
  have eq: "weight_of ?w h = event_fault_cost st h" if "h \<in> set ?ids" for h using that by (simp add: weight_of_def get)
  have le: "unat (weight_of ?w h) \<le> unat (event_fault_cost st h)" for h
    using eq [of h] order_trans [of "1 :: u64" 2, OF _ event_fault_cost_bounds(1) [of st h]]
    by (cases "h \<in> set ?ids") (simp_all add: weight_of_def get word_le_nat_alt)
  have "cost_of ?w (set (ms_cut sol)) = (\<Sum>h\<in>set (ms_cut sol). unat (event_fault_cost st h))"
    unfolding cost_of_def
  proof (rule sum.cong [OF refl])
    fix h assume "h \<in> set (ms_cut sol)"
    then show "unat (weight_of ?w h) = unat (event_fault_cost st h)" using spec(1) eq [of h] by (simp only: cut_ok_def subset_iff)
  qed
  moreover have "cost_of ?w t \<le> (\<Sum>h\<in>t. unat (event_fault_cost st h))" for t
    unfolding cost_of_def by (intro sum_mono le)
  ultimately show ?thesis using spec best by (auto simp: cut_ok_def intro: le_trans)
qed

text \<open>A journal of two sends and a timer, and a support with two alternatives that share the timer.\<close>

definition sat_entry :: "entry_kind \<Rightarrow> entry" where
  "sat_entry kind = demo1\<lparr>en_data := (en_data demo1)\<lparr>ed_kind := kind\<rparr>\<rparr>"

definition sat_journal :: journal_state where
  "sat_journal = journal_new\<lparr>js_base := [(EntryHash [1], sat_entry KSend), (EntryHash [2], sat_entry KTimerFire), (EntryHash [3], sat_entry KSend)]\<rparr>"

definition sat_support :: support_expr where
  "sat_support = AnyOf [AllOf [EntryHash [1], EntryHash [2]], AllOf [EntryHash [2], EntryHash [3]]]"

definition sat_encoding :: "nat option \<Rightarrow> hazard_encoding" where
  "sat_encoding max_faults = \<lparr>he_hard = [[EntryHash [1], EntryHash [2]], [EntryHash [2], EntryHash [3]]],
     he_soft = [([EntryHash [1]], 2), ([EntryHash [2]], 3), ([EntryHash [3]], 2)],
     he_cardinality = map_option (\<lambda>lim. \<lparr>cb_literals = [EntryHash [1], EntryHash [2], EntryHash [3]], cb_max_true = lim\<rparr>) max_faults\<rparr>"

lemmas sat_eval = weights_of_def sort_key_def id_set_def greedy_incumbent_def greedy_loop.simps best_literal_def
  coverage_def better_literal_def weight_of_def u64_saturating_add_def dfs.simps sorted_literals_def disjoint_lower_def clause_min_cost_def
  less_eq_entry_hash_def less_entry_hash_def insort_insert_key_def Let_def

lemma sat_hard: "support_hard sat_journal sat_support = [[EntryHash [1], EntryHash [2]], [EntryHash [2], EntryHash [3]]]"
  by (simp add: support_hard_def sat_support_def sat_journal_def faultable_id_def journal_get_def journal_new_def sat_entry_def is_faultable_def
      less_eq_entry_hash_def less_entry_hash_def)

lemma sat_encodes: "encode_hazard_with_support sat_journal [] True max_faults sat_support = Inr (sat_encoding max_faults)"
  by (simp add: encode_hazard_with_support_def sat_hard)
    (simp add: sat_encoding_def id_set_def event_fault_cost_def sat_journal_def journal_get_def journal_new_def sat_entry_def less_eq_entry_hash_def)

lemma sat_solves: "solve_maxsat_bnb_with_budget (sat_encoding None) 10 100 100 = Inr \<lparr>ms_cut = [EntryHash [2]], ms_total_cost = 3, ms_unsat_core_cost = 2\<rparr>"
  by (simp add: solve_maxsat_bnb_with_budget_def sat_encoding_def sat_eval)

theorem maxsat_cut_optimal_witness:
  "solve_maxsat_bnb_with_budget (sat_encoding None) 10 100 100 = Inr \<lparr>ms_cut = [EntryHash [2]], ms_total_cost = 3, ms_unsat_core_cost = 2\<rparr>
   \<and> hits {EntryHash [2]} (support_hard sat_journal sat_support)
   \<and> 3 \<le> (\<Sum>h\<in>{EntryHash [1], EntryHash [3]}. unat (event_fault_cost sat_journal h))"
proof -
  have "length (he_soft (sat_encoding None)) < 2 ^ 60" by (simp add: sat_encoding_def)
  note optimal = maxsat_cut_optimal [OF sat_encodes this sat_solves, unfolded max_sat_solution.simps]
  have "finite {EntryHash [1], EntryHash [3]}" "hits {EntryHash [1], EntryHash [3]} (support_hard sat_journal sat_support)"
    by (simp_all add: sat_hard)
  then have "unat (3 :: u64) \<le> (\<Sum>h\<in>{EntryHash [1], EntryHash [3]}. unat (event_fault_cost sat_journal h))"
    using optimal [THEN conjunct2, THEN conjunct2, THEN conjunct2, rule_format, THEN conjunct1] by blast
  then have "3 \<le> (\<Sum>h\<in>{EntryHash [1], EntryHash [3]}. unat (event_fault_cost sat_journal h))" by (rule order_trans [rotated]) simp
  moreover have "hits {EntryHash [2]} (support_hard sat_journal sat_support)" using optimal by simp
  ultimately show ?thesis using sat_solves by (simp only: simp_thms)
qed

text \<open>
  The greedy start does not look at the bound on the number of faults, so with a bound the solver may
  return a cut that exceeds it: here two clauses without a common literal and at most one fault.
\<close>

lemma bound_ignored_by_greedy:
  "solve_maxsat_bnb_with_budget \<lparr>he_hard = [[EntryHash [1]], [EntryHash [2]]], he_soft = [([EntryHash [1]], 2), ([EntryHash [2]], 2)],
      he_cardinality = Some \<lparr>cb_literals = [EntryHash [1], EntryHash [2]], cb_max_true = 1\<rparr>\<rparr> 10 100 100
   = Inr \<lparr>ms_cut = [EntryHash [1], EntryHash [2]], ms_total_cost = 4, ms_unsat_core_cost = 4\<rparr>"
  by (simp add: solve_maxsat_bnb_with_budget_def sat_eval)

end

