(* ===== verification/Hitting_Solver.thy ===== *)
theory Hitting_Solver
  imports Max_Sat
begin

text \<open>
  The caching hitting-set solver (\<open>ledger-explorer/src/solver/hitting_set.rs\<close> and \<open>solver/config.rs\<close>) with its
  content-addressed keys (\<open>solver_cache.rs\<close>): solving clauses incrementally, solving an explicit support, and
  the pruning of hypotheses that differ by a swap of concurrent events.
\<close>

section \<open>Configuration and cache keys\<close>

datatype solver_engine = Auto | Builtin | Cadical

record solver_config =
  cf_max_horizon :: "nat option"
  cf_oracle_version :: "u64 option"
  cf_input_class :: "u64 option"
  cf_max_faults :: "nat option"
  cf_engine :: solver_engine
  cf_run_config_hash :: "entry_hash option"
  cf_support_version :: "u64 option"
  cf_support_digest :: "entry_hash option"

definition config_default :: solver_config where
  "config_default = \<lparr>cf_max_horizon = None, cf_oracle_version = None, cf_input_class = None, cf_max_faults = None, cf_engine = Auto,
     cf_run_config_hash = None, cf_support_version = None, cf_support_digest = None\<rparr>"

record weighted_clause =
  wc_literals :: "entry_hash list"
  wc_weight :: u64

definition BUILTIN :: u8 where "BUILTIN = 0"

definition CADICAL :: u8 where "CADICAL = 1"

definition closure_hash :: "hasher \<Rightarrow> entry_hash list \<Rightarrow> entry_hash" where
  "closure_hash blake3 ids = EntryHash (blake3 (concat (map hash_bytes (sort ids))))"

definition clauses_hash :: "hasher \<Rightarrow> weighted_clause list \<Rightarrow> entry_hash" where
  "clauses_hash blake3 clauses =
     EntryHash (blake3 (concat (map (\<lambda>c. le_bytes 8 (unat (wc_weight c)) @ concat (map hash_bytes (wc_literals c)) @ [0xff])
       (sort_key (\<lambda>c. (wc_literals c, wc_weight c)) (map (\<lambda>c. c\<lparr>wc_literals := sort (wc_literals c)\<rparr>) clauses)))))"

definition key_u64 :: "nat option \<Rightarrow> bytes" where
  "key_u64 x = (case x of Some v \<Rightarrow> 0x01 # le_bytes 8 v | None \<Rightarrow> [0x00])"

definition key_hash :: "entry_hash option \<Rightarrow> bytes" where
  "key_hash x = (case x of Some h \<Rightarrow> 0x01 # hash_bytes h | None \<Rightarrow> [0x00])"

definition key_horizon :: "nat option \<Rightarrow> bytes" where
  "key_horizon x = (case x of Some h \<Rightarrow> le_bytes 8 h | None \<Rightarrow> [0xff, 0xff])"

definition key_bytes :: "entry_hash \<Rightarrow> u8 \<Rightarrow> solver_config \<Rightarrow> bytes" where
  "key_bytes closure engine_tag config =
     hash_bytes closure @ [0xfe] @ key_horizon (cf_max_horizon config)
     @ [0xfd] @ key_u64 (map_option unat (cf_oracle_version config))
     @ [0xfc] @ key_u64 (map_option unat (cf_input_class config))
     @ [0xfb] @ key_u64 (cf_max_faults config)
     @ [0xfa] @ [engine_tag]
     @ [0xf9] @ key_hash (cf_run_config_hash config)
     @ [0xf8] @ key_u64 (map_option unat (cf_support_version config))
     @ [0xf7] @ key_hash (cf_support_digest config)"

definition compute_key :: "hasher \<Rightarrow> entry_hash \<Rightarrow> u8 \<Rightarrow> solver_config \<Rightarrow> entry_hash" where
  "compute_key blake3 closure engine_tag config = EntryHash (blake3 (key_bytes closure engine_tag config))"

section \<open>Pruning concurrent swaps\<close>

definition clock_cache :: "journal_state \<Rightarrow> fault_hypothesis list \<Rightarrow> (entry_hash \<times> vector_clock) list" where
  "clock_cache st hyps =
     foldl (\<lambda>m ev. if map_of m ev \<noteq> None then m
       else case journal_get st ev of Some e \<Rightarrow> hm_insert ev (en_clock e) m | None \<Rightarrow> m) [] (concat (map fh_events hyps))"

definition swap_dominated :: "(entry_hash \<times> vector_clock) list \<Rightarrow> fault_hypothesis \<Rightarrow> fault_hypothesis \<Rightarrow> bool" where
  "swap_dominated clocks hyp existing =
     (length (fh_events existing) = length (fh_events hyp) \<and>
      (case (filter (\<lambda>ev. ev \<notin> set (fh_events hyp)) (fh_events existing), filter (\<lambda>ev. ev \<notin> set (fh_events existing)) (fh_events hyp)) of
         ([a], [b]) \<Rightarrow> (case (map_of clocks a, map_of clocks b) of (Some ca, Some cb) \<Rightarrow> concurrent_with ca cb | _ \<Rightarrow> False)
       | _ \<Rightarrow> False))"

definition samc_step :: "(entry_hash \<times> vector_clock) list \<Rightarrow> fault_hypothesis list \<Rightarrow> fault_hypothesis \<Rightarrow> fault_hypothesis list" where
  "samc_step clocks pruned hyp =
     (if list_ex (swap_dominated clocks hyp) pruned then pruned
      else if list_ex (\<lambda>e. fh_events e = fh_events hyp) pruned then pruned
      else pruned @ [hyp])"

definition samc_prune :: "journal_state \<Rightarrow> fault_hypothesis list \<Rightarrow> fault_hypothesis list" where
  "samc_prune st hyps =
     (if length hyps \<le> 1 then hyps
      else let sorted_hyps = sort_key (\<lambda>h. (fh_total_cost h, length (fh_events h), fh_events h)) hyps
        in foldl (samc_step (clock_cache st sorted_hyps)) [] sorted_hyps)"

section \<open>Explanations\<close>

definition incremental_explanation :: "nat \<Rightarrow> nat \<Rightarrow> entry_hash list list \<Rightarrow> nat option \<Rightarrow> string" where
  "incremental_explanation faults clauses literals horizon =
     (if is_strong (support_from_paths literals (horizon \<noteq> None))
      then ''Incremental hitting set cut with '' @ digits 10 faults @ '' fault(s) over '' @ digits 10 clauses @ '' clause(s)''
      else case horizon of
          Some h \<Rightarrow> ''Bounded heuristic hitting set cut with '' @ digits 10 faults @ '' fault(s) over '' @ digits 10 clauses @ '' clause(s) at horizon '' @ digits 10 h
        | None \<Rightarrow> ''Heuristic hitting set cut with '' @ digits 10 faults @ '' fault(s) over '' @ digits 10 clauses @ '' clause(s) (unknown support)'')"

definition support_explanation :: "bool \<Rightarrow> nat \<Rightarrow> nat \<Rightarrow> nat option \<Rightarrow> string" where
  "support_explanation strong faults paths horizon =
     (if strong
      then ''Minimum hitting set cut with '' @ digits 10 faults @ '' fault(s) breaking '' @ digits 10 paths @ '' causal derivation path(s)''
      else case horizon of
          Some h \<Rightarrow> ''Bounded heuristic hitting set cut with '' @ digits 10 faults @ '' fault(s) breaking '' @ digits 10 paths @ '' causal derivation path(s) at horizon '' @ digits 10 h
        | None \<Rightarrow> ''Heuristic hitting set cut with '' @ digits 10 faults @ '' fault(s) breaking '' @ digits 10 paths @ '' causal derivation path(s) (unknown support)'')"

section \<open>The solver\<close>

text \<open>The lineage index, which only the walk over the parents of a verdict uses, is not part of the state.\<close>

record hitting_set_solver =
  hs_cache :: "(entry_hash \<times> weighted_clause list) list"
  hs_hypothesis_cache :: "(entry_hash \<times> fault_hypothesis list) list"
  hs_config :: solver_config

definition solver_with_config :: "solver_config \<Rightarrow> hitting_set_solver" where
  "solver_with_config config = \<lparr>hs_cache = [], hs_hypothesis_cache = [], hs_config = config\<rparr>"

definition solver_new :: hitting_set_solver where
  "solver_new = solver_with_config (config_default\<lparr>cf_max_horizon := Some 64\<rparr>)"

definition solver_unbounded :: hitting_set_solver where
  "solver_unbounded = solver_with_config config_default"

definition with_horizon :: "nat \<Rightarrow> hitting_set_solver" where
  "with_horizon max_depth = solver_with_config (config_default\<lparr>cf_max_horizon := Some max_depth\<rparr>)"

definition set_config :: "solver_config \<Rightarrow> hitting_set_solver \<Rightarrow> hitting_set_solver" where
  "set_config config s = s\<lparr>hs_config := config\<rparr>"

definition incremental_key_with_tag :: "hasher \<Rightarrow> entry_hash \<Rightarrow> u8 \<Rightarrow> hitting_set_solver \<Rightarrow> entry_hash" where
  "incremental_key_with_tag blake3 closure etag s = compute_key blake3 closure etag (hs_config s)"

text \<open>The minimum weight of the clauses an event is in; sums of costs wrap, as in a release build.\<close>

definition event_costs :: "weighted_clause list \<Rightarrow> (entry_hash \<times> u64) list" where
  "event_costs clauses =
     foldl (\<lambda>m (h, weight). hm_insert h (min (case map_of m h of Some c \<Rightarrow> c | None \<Rightarrow> - 1) weight) m) []
       (concat (map (\<lambda>c. map (\<lambda>h. (h, wc_weight c)) (wc_literals c)) clauses))"

definition clause_paths :: "weighted_clause list \<Rightarrow> faultable_event list list" where
  "clause_paths clauses = map (\<lambda>c. map (\<lambda>h. \<lparr>fe_event = h, fe_kind = KSend, fe_cost = wc_weight c\<rparr>) (wc_literals c)) clauses"

text \<open>What an incremental solve computes when it does not answer from its cache.\<close>

definition derive_incremental :: "weighted_clause list \<Rightarrow> nat option \<Rightarrow> solver_error + fault_hypothesis list" where
  "derive_incremental clauses horizon =
     (case (if clause_paths clauses = [] then Inr [] else compute_minimal_hitting_sets (clause_paths clauses)) of
        Inl e \<Rightarrow> Inl e
      | Inr sets \<Rightarrow>
          Inr (sort_key (\<lambda>h. (fh_total_cost h, length (fh_events h)))
            (map (\<lambda>events. \<lparr>fh_events = events,
                fh_total_cost = sum_list (map (\<lambda>h. case map_of (event_costs clauses) h of Some c \<Rightarrow> c | None \<Rightarrow> 1) events),
                fh_explanation = incremental_explanation (length events) (length clauses) (map wc_literals clauses) horizon\<rparr>) sets)))"

definition solve_incremental_with_tag ::
  "hasher \<Rightarrow> entry_hash \<Rightarrow> weighted_clause list \<Rightarrow> u8 \<Rightarrow> hitting_set_solver \<Rightarrow> (solver_error + fault_hypothesis list) \<times> hitting_set_solver" where
  "solve_incremental_with_tag blake3 closure clauses etag s =
     (let key = incremental_key_with_tag blake3 closure etag s
      in case (map_of (hs_hypothesis_cache s) key, map_of (hs_cache s) key = Some clauses) of
           (Some cached, True) \<Rightarrow> (Inr cached, s)
         | _ \<Rightarrow>
             (case derive_incremental clauses (cf_max_horizon (hs_config s)) of
                Inl e \<Rightarrow> (Inl e, s)
              | Inr hyps \<Rightarrow> (Inr hyps, s\<lparr>hs_cache := hm_insert key clauses (hs_cache s),
                  hs_hypothesis_cache := hm_insert key hyps (hs_hypothesis_cache s)\<rparr>)))"

definition support_paths :: "journal_state \<Rightarrow> support_expr \<Rightarrow> faultable_event list list" where
  "support_paths st support =
     map (\<lambda>c. map (\<lambda>h. \<lparr>fe_event = h, fe_kind = (case journal_get st h of Some e \<Rightarrow> ed_kind (en_data e) | None \<Rightarrow> KSend),
         fe_cost = event_fault_cost st h\<rparr>) (sort c))
       (filter (\<lambda>c. c \<noteq> []) (map (filter (faultable_id st)) (hard_clauses_from_support support)))"

definition path_clauses :: "faultable_event list list \<Rightarrow> weighted_clause list" where
  "path_clauses paths =
     map (\<lambda>path. \<lparr>wc_literals = map fe_event path,
       wc_weight = (case map fe_cost path of [] \<Rightarrow> 1 | x # xs \<Rightarrow> foldl min x xs)\<rparr>) paths"

definition derive_support :: "journal_state \<Rightarrow> support_expr \<Rightarrow> nat option \<Rightarrow> solver_error + fault_hypothesis list" where
  "derive_support st support horizon =
     (case compute_minimal_hitting_sets (support_paths st support) of
        Inl e \<Rightarrow> Inl e
      | Inr sets \<Rightarrow>
          Inr (samc_prune st (sort_key (\<lambda>h. (fh_total_cost h, length (fh_events h)))
            (map (\<lambda>events. \<lparr>fh_events = events, fh_total_cost = sum_list (map (event_fault_cost st) events),
                fh_explanation = support_explanation (is_strong support) (length events) (length (support_paths st support)) horizon\<rparr>) sets))))"

definition solve_with_support ::
  "hasher \<Rightarrow> journal_state \<Rightarrow> entry_hash list \<Rightarrow> support_expr \<Rightarrow> hitting_set_solver \<Rightarrow> (solver_error + fault_hypothesis list) \<times> hitting_set_solver" where
  "solve_with_support blake3 st witnesses support s =
     (if witnesses = [] \<and> journal_len st = 0 then (Inr [], s)
      else
        (let key = incremental_key_with_tag blake3 (closure_hash blake3 (sort witnesses)) BUILTIN s;
             paths = support_paths st support; clauses = path_clauses paths
         in if paths = [] then (Inl EmptyProvenance, s)
            else case (map_of (hs_hypothesis_cache s) key, map_of (hs_cache s) key = Some clauses) of
                (Some cached, True) \<Rightarrow> (Inr cached, s)
              | _ \<Rightarrow>
                  (let s = s\<lparr>hs_cache := hm_insert key clauses (hs_cache s)\<rparr>
                   in case derive_support st support (cf_max_horizon (hs_config s)) of
                        Inl e \<Rightarrow> (Inl e, s)
                      | Inr hyps \<Rightarrow> (Inr hyps, s\<lparr>hs_hypothesis_cache := hm_insert key hyps (hs_hypothesis_cache s)\<rparr>))))"

text \<open>
  A history of solves on one solver, each under its own configuration. Both kinds of solve read and write the
  same two caches.
\<close>

datatype solver_call =
    is_incremental: IncrementalCall solver_config entry_hash u8 "weighted_clause list"
  | SupportCall solver_config journal_state "entry_hash list" support_expr

fun call_config :: "solver_call \<Rightarrow> solver_config" where
  "call_config (IncrementalCall config _ _ _) = config"
| "call_config (SupportCall config _ _ _) = config"

fun solve_call :: "hasher \<Rightarrow> solver_call \<Rightarrow> hitting_set_solver \<Rightarrow> (solver_error + fault_hypothesis list) \<times> hitting_set_solver" where
  "solve_call blake3 (IncrementalCall config closure etag clauses) s = solve_incremental_with_tag blake3 closure clauses etag (set_config config s)"
| "solve_call blake3 (SupportCall config st witnesses support) s = solve_with_support blake3 st witnesses support (set_config config s)"

primrec solve_calls :: "hasher \<Rightarrow> solver_call list \<Rightarrow> hitting_set_solver \<Rightarrow> (solver_error + fault_hypothesis list) list \<times> hitting_set_solver" where
  "solve_calls blake3 [] s = ([], s)"
| "solve_calls blake3 (c # calls) s =
     (let (r, s) = solve_call blake3 c s; (rs, s) = solve_calls blake3 calls s in (r # rs, s))"

text \<open>The bytes whose hash is the cache key of a call.\<close>

fun call_key :: "hasher \<Rightarrow> solver_call \<Rightarrow> bytes" where
  "call_key blake3 (IncrementalCall config closure etag clauses) = key_bytes closure etag config"
| "call_key blake3 (SupportCall config st witnesses support) = key_bytes (closure_hash blake3 (sort witnesses)) BUILTIN config"

definition opt_all :: "('a \<Rightarrow> bool) \<Rightarrow> 'a option \<Rightarrow> bool" where
  "opt_all P x = (case x of Some v \<Rightarrow> P v | None \<Rightarrow> True)"

text \<open>Of an incremental solve: hashes have 32 bytes and a horizon fits a machine word.\<close>

fun call_ok :: "solver_call \<Rightarrow> bool" where
  "call_ok (SupportCall _ _ _ _) \<longleftrightarrow> True"
| "call_ok (IncrementalCall config closure etag clauses) \<longleftrightarrow> hash_ok closure \<and> opt_all (\<lambda>h. h < 2 ^ 64) (cf_max_horizon config)
     \<and> opt_all hash_ok (cf_run_config_hash config) \<and> opt_all hash_ok (cf_support_digest config)"

definition key_rest :: "u8 \<Rightarrow> solver_config \<Rightarrow> bytes" where
  "key_rest etag config = [0xfd] @ key_u64 (map_option unat (cf_oracle_version config))
     @ [0xfc] @ key_u64 (map_option unat (cf_input_class config)) @ [0xfb] @ key_u64 (cf_max_faults config) @ [0xfa] @ [etag]
     @ [0xf9] @ key_hash (cf_run_config_hash config) @ [0xf8] @ key_u64 (map_option unat (cf_support_version config))
     @ [0xf7] @ key_hash (cf_support_digest config)"

section \<open>The cache is transparent\<close>

definition cache_ok :: "hasher \<Rightarrow> solver_call set \<Rightarrow> hitting_set_solver \<Rightarrow> bool" where
  "cache_ok blake3 calls s \<longleftrightarrow> (\<forall>config closure etag clauses cached hyps. IncrementalCall config closure etag clauses \<in> calls \<longrightarrow>
     map_of (hs_cache s) (compute_key blake3 closure etag config) = Some cached \<longrightarrow>
     map_of (hs_hypothesis_cache s) (compute_key blake3 closure etag config) = Some hyps \<longrightarrow>
     derive_incremental cached (cf_max_horizon config) = Inr hyps)"

definition demo_calls :: "solver_call list" where
  "demo_calls =
    [IncrementalCall config_default (EntryHash (replicate 32 0)) BUILTIN [\<lparr>wc_literals = [EntryHash [1]], wc_weight = 2\<rparr>],
     SupportCall config_default demo_journal [en_id demo1] (AllOf [en_id demo1]),
     IncrementalCall (config_default\<lparr>cf_max_horizon := Some 64\<rparr>) (EntryHash (replicate 32 0)) BUILTIN [\<lparr>wc_literals = [EntryHash [1]], wc_weight = 2\<rparr>],
     IncrementalCall config_default (EntryHash (replicate 32 0)) BUILTIN [\<lparr>wc_literals = [EntryHash [2]], wc_weight = 3\<rparr>],
     IncrementalCall config_default (EntryHash (replicate 32 0)) BUILTIN [\<lparr>wc_literals = [EntryHash [2]], wc_weight = 3\<rparr>]]"

section \<open>Keys tell horizons apart\<close>

lemma length_key_u64: "length (key_u64 x) mod 8 = 1"
  by (simp add: key_u64_def split: option.splits)

lemma length_key_hash: "opt_all hash_ok x \<Longrightarrow> length (key_hash x) mod 8 = 1"
  by (auto simp: key_hash_def opt_all_def hash_ok_def split: option.splits)

lemma mod8_fields:
  assumes "a mod 8 = 1" "b mod 8 = 1" "c mod 8 = 1" "d mod 8 = 1" "e mod 8 = 1" "f mod 8 = (1 :: nat)"
  shows "(0 + Suc 0 + (a + (0 + Suc 0 + (b + (0 + Suc 0 + (c + (0 + Suc 0 + (0 + Suc 0 + (0 + Suc 0 + (d + (0 + Suc 0 + (e + (0 + Suc 0 + f))))))))))))) mod 8 = 6"
proof -
  have "\<exists>k. x = 8 * k + 1" if "x mod 8 = 1" for x :: nat using that by (metis mult_div_mod_eq)
  then obtain a' b' c' d' e' f' where "a = 8 * a' + 1" "b = 8 * b' + 1" "c = 8 * c' + 1" "d = 8 * d' + 1" "e = 8 * e' + 1" "f = 8 * f' + 1"
    using assms by meson
  then have "0 + Suc 0 + (a + (0 + Suc 0 + (b + (0 + Suc 0 + (c + (0 + Suc 0 + (0 + Suc 0 + (0 + Suc 0 + (d + (0 + Suc 0 + (e + (0 + Suc 0 + f))))))))))))
      = 6 + 8 * (a' + b' + c' + d' + e' + f' + 1)" by simp
  then show ?thesis by (simp only: mod_mult_self2) simp
qed

lemma mod8_gap: "2 + x = 8 + y \<Longrightarrow> x mod 8 = 6 \<Longrightarrow> y mod 8 = 6 \<Longrightarrow> False" for x y :: nat
proof -
  assume "2 + x = 8 + y" "x mod 8 = 6" "y mod 8 = 6"
  then have "x = y + 6" by simp
  then have "x mod 8 = (y mod 8 + 6) mod 8" by (simp add: mod_add_left_eq)
  then show False using \<open>x mod 8 = 6\<close> \<open>y mod 8 = 6\<close> by simp
qed

lemma length_key_rest:
  assumes "opt_all hash_ok (cf_run_config_hash config)" "opt_all hash_ok (cf_support_digest config)"
  shows "length (key_rest etag config) mod 8 = 6"
  unfolding key_rest_def length_append list.size
  by (rule mod8_fields [OF length_key_u64 length_key_u64 length_key_u64 length_key_hash [OF assms(1)] length_key_u64 length_key_hash [OF assms(2)]])

text \<open>
  A missing horizon is two bytes and a present one eight, without a mark; the other fields have lengths that are
  equal modulo eight, so the length of the input gives it away.
\<close>

lemma key_bytes_horizon:
  assumes "call_ok (IncrementalCall config closure etag clauses)" "call_ok (IncrementalCall config' closure' etag' clauses')"
    "key_bytes closure etag config = key_bytes closure' etag' config'"
  shows "cf_max_horizon config = cf_max_horizon config'"
proof -
  have len: "length (hash_bytes closure @ [0xfe]) = length (hash_bytes closure' @ [0xfe])" using assms(1,2) by (simp add: hash_ok_def)
  have "(hash_bytes closure @ [0xfe]) @ (key_horizon (cf_max_horizon config) @ key_rest etag config)
      = (hash_bytes closure' @ [0xfe]) @ (key_horizon (cf_max_horizon config') @ key_rest etag' config')"
    using assms(3) by (simp add: key_bytes_def key_rest_def)
  then have eq: "key_horizon (cf_max_horizon config) @ key_rest etag config = key_horizon (cf_max_horizon config') @ key_rest etag' config'"
    using append_eq_append_conv [OF disjI1 [OF len]] by blast
  have rest: "length (key_rest etag config) mod 8 = 6" "length (key_rest etag' config') mod 8 = 6"
    using length_key_rest assms(1,2) by simp_all
  have sum: "length (key_horizon (cf_max_horizon config)) + length (key_rest etag config)
      = length (key_horizon (cf_max_horizon config')) + length (key_rest etag' config')"
    using arg_cong [OF eq, of length] by simp
  show ?thesis
  proof (cases "cf_max_horizon config"; cases "cf_max_horizon config'")
    fix h h' assume h: "cf_max_horizon config = Some h" "cf_max_horizon config' = Some h'"
    then have "le_bytes 8 h = le_bytes 8 h'" using eq by (simp add: key_horizon_def)
    then have "h mod 256 ^ 8 = h' mod 256 ^ 8" by (metis le_val_le_bytes)
    then show ?thesis using h assms(1,2) by (simp add: opt_all_def)
  next
    fix h assume h: "cf_max_horizon config = None" "cf_max_horizon config' = Some h"
    then have "2 + length (key_rest etag config) = 8 + length (key_rest etag' config')" using sum by (simp add: key_horizon_def)
    then show ?thesis using mod8_gap rest by blast
  next
    fix h assume h: "cf_max_horizon config = Some h" "cf_max_horizon config' = None"
    then have "8 + length (key_rest etag config) = 2 + length (key_rest etag' config')" using sum by (simp add: key_horizon_def)
    then show ?thesis using mod8_gap [OF sym] rest by blast
  qed simp
qed

lemma set_config_sel [simp]:
  "hs_cache (set_config config s) = hs_cache s" "hs_hypothesis_cache (set_config config s) = hs_hypothesis_cache s"
  "hs_config (set_config config s) = config"
  by (simp_all add: set_config_def)

lemma incremental_hit:
  "map_of (hs_hypothesis_cache s) (compute_key blake3 closure etag (hs_config s)) = Some hyps
    \<Longrightarrow> map_of (hs_cache s) (compute_key blake3 closure etag (hs_config s)) = Some clauses
    \<Longrightarrow> solve_incremental_with_tag blake3 closure clauses etag s = (Inr hyps, s)"
  by (simp add: solve_incremental_with_tag_def incremental_key_with_tag_def)

lemma incremental_miss:
  "\<not> (map_of (hs_hypothesis_cache s) (compute_key blake3 closure etag (hs_config s)) \<noteq> None
      \<and> map_of (hs_cache s) (compute_key blake3 closure etag (hs_config s)) = Some clauses)
    \<Longrightarrow> solve_incremental_with_tag blake3 closure clauses etag s = (case derive_incremental clauses (cf_max_horizon (hs_config s)) of
        Inl e \<Rightarrow> (Inl e, s)
      | Inr hyps \<Rightarrow> (Inr hyps, s\<lparr>hs_cache := hm_insert (compute_key blake3 closure etag (hs_config s)) clauses (hs_cache s),
          hs_hypothesis_cache := hm_insert (compute_key blake3 closure etag (hs_config s)) hyps (hs_hypothesis_cache s)\<rparr>))"
  by (cases "map_of (hs_hypothesis_cache s) (compute_key blake3 closure etag (hs_config s))")
    (simp_all add: solve_incremental_with_tag_def incremental_key_with_tag_def Let_def)

lemma fresh_answer:
  "fst (solve_incremental_with_tag blake3 closure clauses etag (solver_with_config config)) = derive_incremental clauses (cf_max_horizon config)"
  by (simp add: solve_incremental_with_tag_def solver_with_config_def Let_def split: sum.splits)

lemma set_config_fresh: "set_config config (solver_with_config config') = solver_with_config config"
  by (simp add: set_config_def solver_with_config_def)

lemma incremental_step:
  assumes "inj_on blake3 (call_key blake3 ` calls)" "\<forall>c\<in>calls. call_ok c" "cache_ok blake3 calls s" "IncrementalCall config closure etag clauses \<in> calls"
    "solve_incremental_with_tag blake3 closure clauses etag (set_config config s) = (r, s')"
  shows "r = derive_incremental clauses (cf_max_horizon config)" "cache_ok blake3 calls s'"
proof -
  let ?key = "compute_key blake3 closure etag config"
  have "r = derive_incremental clauses (cf_max_horizon config) \<and> cache_ok blake3 calls s'"
  proof (cases "map_of (hs_hypothesis_cache s) ?key \<noteq> None \<and> map_of (hs_cache s) ?key = Some clauses")
    case True
    then obtain hyps where hyps: "map_of (hs_hypothesis_cache s) ?key = Some hyps" "map_of (hs_cache s) ?key = Some clauses" by blast
    then have "r = Inr hyps" "s' = set_config config s"
      using assms(5) incremental_hit [of "set_config config s" blake3 closure etag hyps clauses] by simp_all
    moreover have "derive_incremental clauses (cf_max_horizon config) = Inr hyps" using assms(3,4) hyps unfolding cache_ok_def by blast
    ultimately show ?thesis using assms(3) by (simp add: cache_ok_def)
  next
    case False
    then have run: "(r, s') = (case derive_incremental clauses (cf_max_horizon config) of Inl e \<Rightarrow> (Inl e, set_config config s)
        | Inr hyps \<Rightarrow> (Inr hyps, (set_config config s)\<lparr>hs_cache := hm_insert ?key clauses (hs_cache s),
            hs_hypothesis_cache := hm_insert ?key hyps (hs_hypothesis_cache s)\<rparr>))"
      using assms(5) incremental_miss [of "set_config config s" blake3 closure etag clauses] by (simp cong: sum.case_cong)
    show ?thesis
    proof (cases "derive_incremental clauses (cf_max_horizon config)")
      case (Inl e)
      then show ?thesis using run assms(3) by (simp add: cache_ok_def)
    next
      case (Inr hyps)
      have same: "cf_max_horizon config' = cf_max_horizon config"
        if "IncrementalCall config' closure' etag' clauses' \<in> calls" "compute_key blake3 closure' etag' config' = ?key" for config' closure' etag' clauses'
      proof -
        have "call_key blake3 (IncrementalCall config' closure' etag' clauses') = call_key blake3 (IncrementalCall config closure etag clauses)"
        proof (rule inj_onD [OF assms(1)])
          show "blake3 (call_key blake3 (IncrementalCall config' closure' etag' clauses')) = blake3 (call_key blake3 (IncrementalCall config closure etag clauses))"
            using that(2) by (simp add: compute_key_def)
        qed (use that(1) assms(4) in blast)+
        then have eq: "key_bytes closure' etag' config' = key_bytes closure etag config" by simp
        show ?thesis by (rule key_bytes_horizon [OF _ _ eq]) (use that(1) assms(2,4) in blast)+
      qed
      show ?thesis unfolding cache_ok_def
      proof (intro conjI allI impI)
        show "r = derive_incremental clauses (cf_max_horizon config)" using run Inr by simp
        fix config' closure' etag' clauses' cached hyps'
        assume *: "IncrementalCall config' closure' etag' clauses' \<in> calls" "map_of (hs_cache s') (compute_key blake3 closure' etag' config') = Some cached"
          "map_of (hs_hypothesis_cache s') (compute_key blake3 closure' etag' config') = Some hyps'"
        show "derive_incremental cached (cf_max_horizon config') = Inr hyps'"
        proof (cases "compute_key blake3 closure' etag' config' = ?key")
          case True
          then show ?thesis using *(2,3) run Inr same [OF *(1)] by (simp add: update_conv')
        next
          case False
          then have "map_of (hs_cache s) (compute_key blake3 closure' etag' config') = Some cached"
            "map_of (hs_hypothesis_cache s) (compute_key blake3 closure' etag' config') = Some hyps'"
            using *(2,3) run Inr by (simp_all add: update_conv')
          then show ?thesis using *(1) assms(3) unfolding cache_ok_def by blast
        qed
      qed
    qed
  qed
  then show "r = derive_incremental clauses (cf_max_horizon config)" "cache_ok blake3 calls s'" by simp_all
qed

lemma support_effect:
  assumes "solve_with_support blake3 st witnesses support s = (r, s')"
    "key \<noteq> incremental_key_with_tag blake3 (closure_hash blake3 (sort witnesses)) BUILTIN s"
  shows "map_of (hs_cache s') key = map_of (hs_cache s) key" "map_of (hs_hypothesis_cache s') key = map_of (hs_hypothesis_cache s) key"
  using assms by (auto simp: solve_with_support_def Let_def update_conv' split: if_splits option.splits sum.splits bool.splits)

lemma support_step:
  assumes "inj_on blake3 (call_key blake3 ` calls)" "cache_ok blake3 calls s" "SupportCall config st witnesses support \<in> calls"
    "call_key blake3 (SupportCall config st witnesses support) \<notin> call_key blake3 ` {c \<in> calls. is_incremental c}"
    "solve_with_support blake3 st witnesses support (set_config config s) = (r, s')"
  shows "cache_ok blake3 calls s'"
  unfolding cache_ok_def
proof (intro allI impI)
  fix config' closure etag clauses cached hyps
  assume *: "IncrementalCall config' closure etag clauses \<in> calls" "map_of (hs_cache s') (compute_key blake3 closure etag config') = Some cached"
    "map_of (hs_hypothesis_cache s') (compute_key blake3 closure etag config') = Some hyps"
  have "call_key blake3 (IncrementalCall config' closure etag clauses) \<noteq> call_key blake3 (SupportCall config st witnesses support)"
    using assms(4) *(1) by (metis (mono_tags, lifting) image_eqI mem_Collect_eq solver_call.disc(1))
  then have "blake3 (call_key blake3 (IncrementalCall config' closure etag clauses)) \<noteq> blake3 (call_key blake3 (SupportCall config st witnesses support))"
    using inj_onD [OF assms(1)] *(1) assms(3) by blast
  then have "compute_key blake3 closure etag config'
      \<noteq> incremental_key_with_tag blake3 (closure_hash blake3 (sort witnesses)) BUILTIN (set_config config s)"
    by (simp add: compute_key_def incremental_key_with_tag_def)
  from support_effect [OF assms(5) this] have "map_of (hs_cache s) (compute_key blake3 closure etag config') = Some cached"
    "map_of (hs_hypothesis_cache s) (compute_key blake3 closure etag config') = Some hyps"
    using *(2,3) by simp_all
  then show "derive_incremental cached (cf_max_horizon config') = Inr hyps" using *(1) assms(2) unfolding cache_ok_def by blast
qed

lemma solve_calls_ok:
  assumes "inj_on blake3 (call_key blake3 ` calls)" "\<forall>c\<in>calls. call_ok c"
    "call_key blake3 ` {c \<in> calls. is_incremental c} \<inter> call_key blake3 ` {c \<in> calls. \<not> is_incremental c} = {}"
  shows "set cs \<subseteq> calls \<Longrightarrow> cache_ok blake3 calls s \<Longrightarrow>
    filter (is_incremental \<circ> fst) (zip cs (fst (solve_calls blake3 cs s)))
    = map (\<lambda>c. (c, fst (solve_call blake3 c (solver_with_config (call_config c))))) (filter is_incremental cs)"
proof (induction cs arbitrary: s)
  case (Cons c cs)
  obtain r s' where r: "solve_call blake3 c s = (r, s')" by force
  have c: "c \<in> calls" using Cons.prems(1) by simp
  have "cache_ok blake3 calls s' \<and> (is_incremental c \<longrightarrow> r = fst (solve_call blake3 c (solver_with_config (call_config c))))"
  proof (cases c)
    case (IncrementalCall config closure etag clauses)
    have "IncrementalCall config closure etag clauses \<in> calls" using c IncrementalCall by simp
    from incremental_step [OF assms(1,2) Cons.prems(2) this] show ?thesis using r IncrementalCall by (simp add: fresh_answer set_config_fresh)
  next
    case (SupportCall config st witnesses support)
    have "call_key blake3 c \<in> call_key blake3 ` {c \<in> calls. \<not> is_incremental c}" using c SupportCall by (intro imageI) simp
    then have "call_key blake3 c \<notin> call_key blake3 ` {c \<in> calls. is_incremental c}" using assms(3) by blast
    then have "cache_ok blake3 calls s'" using support_step [OF assms(1) Cons.prems(2)] r c SupportCall by simp
    then show ?thesis using SupportCall by simp
  qed
  then show ?case using Cons.IH [of s'] Cons.prems(1) r by (simp add: split_beta)
qed simp

text \<open>
  C17: the cache is transparent to incremental solves as long as no support solve shares a key with one. Take any
  history of incremental solves and solves with an explicit support on one solver, with the configuration
  changed at will between them. Each answer to an incremental solve, errors included, is the one a new solver gives
  to that call. The hypotheses are that no support solve of the history has the key bytes of one of its
  incremental solves, that the solver holds no hypotheses under the keys of the incremental solves at the start,
  that BLAKE3 does not collide on the key inputs of the history, that hashes have 32 bytes and that horizons fit
  64 bits. The first one is needed: see \<open>support_answer_served\<close>.
\<close>

theorem incremental_cache_transparent:
  assumes "call_key blake3 ` {c \<in> set calls. is_incremental c} \<inter> call_key blake3 ` {c \<in> set calls. \<not> is_incremental c} = {}"
    and "\<forall>c\<in>set calls. is_incremental c \<longrightarrow> map_of (hs_hypothesis_cache s) (EntryHash (blake3 (call_key blake3 c))) = None"
    and "inj_on blake3 (call_key blake3 ` set calls)" "\<forall>c\<in>set calls. call_ok c"
  shows "filter (is_incremental \<circ> fst) (zip calls (fst (solve_calls blake3 calls s)))
    = map (\<lambda>c. (c, fst (solve_call blake3 c (solver_with_config (call_config c))))) (filter is_incremental calls)"
proof -
  have "cache_ok blake3 (set calls) s"
    unfolding cache_ok_def
  proof (intro allI impI)
    fix config closure etag clauses cached hyps
    assume "IncrementalCall config closure etag clauses \<in> set calls"
      and hyps: "map_of (hs_hypothesis_cache s) (compute_key blake3 closure etag config) = Some hyps"
    from bspec [OF assms(2) this(1)] hyps show "derive_incremental cached (cf_max_horizon config) = Inr hyps" by (simp add: compute_key_def)
  qed
  then show ?thesis using solve_calls_ok [OF assms(3,4,1), of calls] by simp
qed

lemma demo_bytes_differ: "(0 :: u8) \<noteq> 0x87"
  by simp

theorem incremental_cache_transparent_witness:
  "filter (is_incremental \<circ> fst) (zip demo_calls (fst (solve_calls (\<lambda>b. b) demo_calls solver_new)))
   = map (\<lambda>c. (c, fst (solve_call (\<lambda>b. b) c (solver_with_config (call_config c))))) (filter is_incremental demo_calls)"
proof (rule incremental_cache_transparent)
  show "\<forall>c\<in>set demo_calls. call_ok c" by (simp add: demo_calls_def config_default_def hash_ok_def opt_all_def)
  show "\<forall>c\<in>set demo_calls. is_incremental c \<longrightarrow> map_of (hs_hypothesis_cache solver_new) (EntryHash (call_key (\<lambda>b. b) c)) = None"
    by (simp add: solver_new_def solver_with_config_def)
  have "hd (call_key (\<lambda>b. b) c) = (if is_incremental c then 0 else 0x87)" if "c \<in> set demo_calls" for c
    using that by (auto simp: demo_calls_def key_bytes_def closure_hash_def demo1_def)
  then have "call_key (\<lambda>b. b) c \<noteq> call_key (\<lambda>b. b) d" if "c \<in> set demo_calls" "is_incremental c" "d \<in> set demo_calls" "\<not> is_incremental d" for c d
    using that by (metis (full_types) demo_bytes_differ)
  then show "call_key (\<lambda>b. b) ` {c \<in> set demo_calls. is_incremental c} \<inter> call_key (\<lambda>b. b) ` {c \<in> set demo_calls. \<not> is_incremental c} = {}"
    by auto
qed simp

section \<open>Pruned hypotheses have cheaper ones\<close>

lemma samc_fold:
  "\<exists>added. foldl (samc_step clocks) pruned hyps = pruned @ added \<and> set added \<subseteq> set hyps"
proof (induction hyps arbitrary: pruned)
  case (Cons h hyps)
  have "samc_step clocks pruned h = pruned @ [] \<or> samc_step clocks pruned h = pruned @ [h]" by (simp add: samc_step_def)
  then obtain x where x: "samc_step clocks pruned h = pruned @ x" "set x \<subseteq> {h}" by fastforce
  obtain added where "foldl (samc_step clocks) (pruned @ x) hyps = (pruned @ x) @ added" "set added \<subseteq> set hyps" using Cons.IH by blast
  then show ?case using x by (intro exI [of _ "x @ added"]) auto
qed simp

lemma samc_fold_cheaper:
  assumes "sorted (map fh_total_cost hyps)" "\<forall>p\<in>set pruned. \<forall>h\<in>set hyps. fh_total_cost p \<le> fh_total_cost h"
  shows "\<forall>h\<in>set hyps. \<exists>k\<in>set (foldl (samc_step clocks) pruned hyps).
    fh_total_cost k \<le> fh_total_cost h \<and> length (fh_events k) = length (fh_events h)"
  using assms
proof (induction hyps arbitrary: pruned)
  case (Cons h hyps)
  let ?next = "samc_step clocks pruned h"
  have here: "\<exists>k\<in>set ?next. fh_total_cost k \<le> fh_total_cost h \<and> length (fh_events k) = length (fh_events h)"
  proof -
    have "p \<in> set pruned \<Longrightarrow> swap_dominated clocks h p \<Longrightarrow> length (fh_events p) = length (fh_events h)" for p by (simp add: swap_dominated_def)
    then show ?thesis using Cons.prems(2) by (simp add: samc_step_def list_ex_iff) metis
  qed
  have "set ?next \<subseteq> insert h (set pruned)" by (auto simp: samc_step_def)
  then have "\<forall>p\<in>set ?next. \<forall>h\<in>set hyps. fh_total_cost p \<le> fh_total_cost h" using Cons.prems by fastforce
  then have rest: "\<forall>h\<in>set hyps. \<exists>k\<in>set (foldl (samc_step clocks) ?next hyps).
      fh_total_cost k \<le> fh_total_cost h \<and> length (fh_events k) = length (fh_events h)" using Cons.IH Cons.prems(1) by simp
  obtain added where "foldl (samc_step clocks) ?next hyps = ?next @ added" using samc_fold by blast
  then show ?case using here rest by (metis UnCI foldl_Cons set_ConsD set_append)
qed simp

lemma samc_prune_cheaper:
  assumes "h \<in> set hyps"
  shows "\<exists>k\<in>set (samc_prune st hyps). fh_total_cost k \<le> fh_total_cost h \<and> length (fh_events k) = length (fh_events h)"
proof (cases "length hyps \<le> 1")
  case True
  then show ?thesis using assms by (auto simp: samc_prune_def)
next
  case False
  let ?key = "\<lambda>h. (fh_total_cost h, length (fh_events h), fh_events h)"
  have "sorted (map ?key (sort_key ?key hyps))" by simp
  then have "sorted (map fh_total_cost (sort_key ?key hyps))"
    unfolding sorted_map by (rule sorted_wrt_mono_rel [rotated]) (auto simp: less_eq_prod_def)
  then show ?thesis using samc_fold_cheaper [of "sort_key ?key hyps" "[]" "clock_cache st (sort_key ?key hyps)"] False assms
    by (simp add: samc_prune_def Let_def)
qed

section \<open>A stale answer\<close>

text \<open>
  Solving with an explicit support stores the clauses before it derives. When the derivation runs out of a
  budget, the key holds the new clauses and the hypotheses of an earlier solve, and the next solve serves them.
\<close>

lemma support_solve_stale:
  fixes blake3 s witnesses
  defines "key \<equiv> incremental_key_with_tag blake3 (closure_hash blake3 (sort witnesses)) BUILTIN s"
  assumes "witnesses \<noteq> []" "support_paths st support \<noteq> []" "map_of (hs_hypothesis_cache s) key = Some old"
    "map_of (hs_cache s) key \<noteq> Some (path_clauses (support_paths st support))"
    "derive_support st support (cf_max_horizon (hs_config s)) = Inl e"
  shows "\<exists>s'. solve_with_support blake3 st witnesses support s = (Inl e, s') \<and> solve_with_support blake3 st witnesses support s' = (Inr old, s')"
proof -
  let ?s = "s\<lparr>hs_cache := hm_insert key (path_clauses (support_paths st support)) (hs_cache s)\<rparr>"
  have "incremental_key_with_tag blake3 (closure_hash blake3 (sort witnesses)) BUILTIN ?s = key"
    by (simp add: key_def incremental_key_with_tag_def)
  then have "solve_with_support blake3 st witnesses support ?s = (Inr old, ?s)"
    using assms(2-4) by (simp add: solve_with_support_def Let_def update_conv')
  moreover have "solve_with_support blake3 st witnesses support s = (Inl e, ?s)"
    using assms(2-) by (simp add: solve_with_support_def Let_def key_def [symmetric])
  ultimately show ?thesis by blast
qed

text \<open>The clauses do not show whether the support is opaque, so an answer that claims a minimum is served for one that is.\<close>

lemma opaque_branch_same_clauses:
  "path_clauses (support_paths st (AnyOf [e, OpaqueExpr])) = path_clauses (support_paths st (AnyOf [e]))"
  "is_strong (AnyOf [e, OpaqueExpr]) = False" "is_strong (AnyOf [e]) = is_strong e"
  by (simp_all add: support_paths_def)

text \<open>
  The answer of a support solve is served to an incremental solve of the same closure and clauses. When the support is
  strong, its hypotheses claim a minimum, which no derivation of the incremental solve does.
\<close>

lemma samc_prune_subset: "set (samc_prune st hyps) \<subseteq> set hyps"
proof -
  let ?h = "sort_key (\<lambda>h. (fh_total_cost h, length (fh_events h), fh_events h)) hyps"
  obtain added where "foldl (samc_step (clock_cache st ?h)) [] ?h = [] @ added" "set added \<subseteq> set ?h" using samc_fold by blast
  then show ?thesis by (simp add: samc_prune_def Let_def)
qed

lemma support_answer_served:
  assumes "solve_with_support blake3 st witnesses support s = (Inr hyps, s')" "witnesses \<noteq> []"
  shows "solve_incremental_with_tag blake3 (closure_hash blake3 (sort witnesses)) (path_clauses (support_paths st support)) BUILTIN s' = (Inr hyps, s')"
  using assms
  by (auto simp: solve_with_support_def solve_incremental_with_tag_def incremental_key_with_tag_def Let_def update_conv'
      split: if_splits option.splits sum.splits bool.splits)

lemma incremental_says:
  "derive_incremental clauses horizon = Inr hyps \<Longrightarrow> x \<in> set hyps \<Longrightarrow>
    \<exists>n. fh_explanation x = incremental_explanation n (length clauses) (map wc_literals clauses) horizon"
  by (auto simp: derive_incremental_def split: sum.splits) (rule exI, rule refl)

lemma support_says:
  "derive_support st support horizon = Inr hyps \<Longrightarrow> x \<in> set hyps \<Longrightarrow>
    \<exists>n. fh_explanation x = support_explanation (is_strong support) n (length (support_paths st support)) horizon"
  using samc_prune_subset by (fastforce simp: derive_support_def split: sum.splits)

lemma support_answer_differs:
  assumes "derive_support st support horizon = Inr hyps" "is_strong support" "hyps \<noteq> []"
  shows "derive_incremental clauses horizon' \<noteq> Inr hyps"
proof
  assume inc: "derive_incremental clauses horizon' = Inr hyps"
  have x: "hd hyps \<in> set hyps" using assms(3) by simp
  show False using incremental_says [OF inc x] support_says [OF assms(1) x] assms(2)
    by (auto simp: incremental_explanation_def support_explanation_def split: if_splits option.splits)
qed

end
