(* ===== verification/Spec2Isabelle.thy ===== *)
theory Spec2Isabelle
  imports Cbor_Roundtrip Canonical_Value Wire_Primitives Entry_Roundtrip Journal_Slice Journal_Monitor Sim_Fs_Props Sim_Time Sim_Net Sim_Scheduler Ddmin Memo_Replay Hitting_Solver
begin

text \<open>
  Verification of ldgr, a deterministic simulation tester for distributed systems. Paths below are relative to
  \<open>src/crates\<close>.

  \<^bold>\<open>The program.\<close> A run executes a concurrent program in a controlled world. \<open>ledger-sim\<close> supplies that
  world: a scheduler picks the next task, virtual time fires timers, and simulated networks and files carry the
  effects. Every effect becomes an entry of a causal journal (\<open>ledger-journal\<close>), a DAG of content-addressed
  entries with vector clocks. The wire form of entries is the canonical CBOR of \<open>ledger-format\<close>, whose
  bytes are what the content addresses hash. \<open>ledger-explorer\<close> works on the journals of failing runs: it
  reduces schedules by delta debugging, replays candidates through a memo, and computes the sets of events whose
  loss would break every derivation of a verdict.

  \<^bold>\<open>Conventions.\<close> \<open>Ledger_Prelude\<close> holds the shared vocabulary: machine integers are words of their width,
  \<open>usize\<close> is \<open>nat\<close> (wrap-around and saturation are written out where the source has them),
  \<open>Result<T, E>\<close> is \<open>'e + 'a\<close> with \<open>Inl\<close> for \<open>Err\<close>, mutable state is passed and returned, byte strings
  are lists of 8-bit words. \<open>Map_Store\<close> has the containers: a \<open>BTreeMap\<close> is the list of its pairs in key order,
  a \<open>HashMap\<close> an association list, and both satisfy the locale \<open>map_store\<close>. A panic is \<open>None\<close> or an
  error value of its own. BLAKE3, keyed BLAKE3, the random draws of the network, the test of the minimizer and whether
  the base of a journal is shared are parameters; theorems that need it assume that the hash does not collide on
  the inputs at hand, or has outputs of 32 bytes.

  \<^bold>\<open>Wire format (\<open>ledger-format/src\<close>).\<close>
  \<^item> \<open>Cbor_Float\<close>, \<open>Cbor_Value\<close>: floats as bit patterns, data items and the canonical encoder
    (\<open>cbor/mod.rs\<close>, \<open>cbor/encode.rs\<close>). \<open>Cbor_Decode\<close>: the strict decoder (\<open>cbor/decode.rs\<close>).
    \<open>Cbor_Roundtrip\<close>: encoder and decoder are inverse to each other, the order of map entries does not matter, and
    floats have the least exact width.
  \<^item> \<open>Cbor_Items\<close>: the item reader (\<open>cbor/items.rs\<close>) and the locales \<open>partial_codec\<close> and \<open>codec\<close>
    with what every codec gives: reading back, and prefix freedom.
  \<^item> \<open>Canonical_Value\<close>: bounded values (\<open>value.rs\<close>); their round trip, and that the budget documented as a depth
    bounds the number of nodes.
  \<^item> \<open>Wire_Primitives\<close>: hashes, hexadecimal form, frame prefix, paths (\<open>entry.rs\<close>, \<open>hex.rs\<close>, \<open>frame.rs\<close>,
    \<open>path.rs\<close>, \<open>limits.rs\<close>).
  \<^item> \<open>Entry_Types\<close>, \<open>Entry_Decode\<close>, \<open>Entry_Roundtrip\<close>: all kinds and payloads of \<open>entry.rs\<close>, encoder
    and decoder. A well-formed entry reads back and its bytes determine it, every decoded entry is well formed as far as
    the decoder checks, and the decoder is not injective on faults. Well formed is \<open>entry_ok\<close>; that the kind is
    the payload's is part of it and is not enforced by the encoder.

  \<^bold>\<open>Journal (\<open>ledger-journal/src\<close>).\<close>
  \<^item> \<open>Vector_Clock\<close> (\<open>clock.rs\<close>): merge is the least upper bound, and the causal relations are a strict order and
    its complements, as the locale \<open>causal_clock\<close>.
  \<^item> \<open>Journal_Dag\<close> (\<open>dag.rs\<close>): the state with frozen base and overlay and every operation on it.
    \<open>Journal_History\<close> abstracts it to a lookup function, an order and the heads, which \<open>append\<close> implements;
    \<open>append_batch\<close> is a loop of appends. \<open>Journal_Causality\<close>: the invariant \<open>journal_ok\<close>, when append keeps it,
    and that clocks decide ancestry.
  \<^item> \<open>Journal_Slice\<close> (\<open>slice.rs\<close>): slices and cones are the closures they name, the search ends, and the subgraph of
    a slice is a journal.
  \<^item> \<open>Journal_Monitor\<close> (\<open>monitor.rs\<close>): the audit is exact, appended journals pass it, replay positions and coverage are
    exact, and the order of issues is determined.

  \<^bold>\<open>Simulation (\<open>ledger-sim/src\<close>).\<close>
  \<^item> \<open>Sim_File\<close>, \<open>Sim_Fs\<close>, \<open>Sim_Fs_Refine\<close>, \<open>Sim_Fs_Props\<close> (\<open>simfs.rs\<close>): sparse files of byte ranges and
    the table of files. Every operation refines an abstract table of volatile and durable bytes; reads are exact; synced
    bytes survive crashes.
  \<^item> \<open>Sim_Time\<close> (\<open>time.rs\<close>): every run of sets, advances and jumps refines a clock that keeps its pending timers in
    the order they were set.
  \<^item> \<open>Sim_Net\<close> (\<open>net.rs\<close>): links, queues and partitions. What the two deterministic receives serve; bounded links
    stay within capacity.
  \<^item> \<open>Sim_Scheduler\<close> (\<open>scheduler.rs\<close>, \<open>seedtree.rs\<close>): random, PCT and replayed choice; strict replay reproduces
    a recorded run.

  \<^bold>\<open>Exploration (\<open>ledger-explorer/src\<close>).\<close>
  \<^item> \<open>Ddmin\<close> (\<open>minimizer/ddmin.rs\<close>): the result of delta debugging is one-minimal, down to one element.
  \<^item> \<open>Memo_Replay\<close> (\<open>minimizer/memo.rs\<close>, \<open>minimizer/mod.rs\<close>): replay through the memo is direct replay.
  \<^item> \<open>Support\<close> (\<open>support.rs\<close>), \<open>Hitting_Sets\<close> (\<open>solver/mod.rs\<close>): support expressions, and the exact enumeration of
    minimal hitting sets, which decide whether a strong support holds.
  \<^item> \<open>Max_Sat\<close> (\<open>maxsat.rs\<close>): branch and bound returns a cheapest cut.
  \<^item> \<open>Hitting_Solver\<close> (\<open>solver/hitting_set.rs\<close>, \<open>solver/config.rs\<close>, \<open>solver_cache.rs\<close>): the caching solver. Its
    cache is transparent to incremental solves as long as no support solve shares a key with one; lemmas at the end
    show the answers it serves when one does, and after a failed derivation.

  \<^bold>\<open>Termination and bounds.\<close> Loops are recursive functions proved to end, by structural recursion or a measure: the
  stack of a slice against the entries not seen, the granularity of delta debugging, the offset of a candidate replay, the
  clauses left to branch and bound, whose budgets of the source are kept. The value codec and the CBOR decoder recurse
  with the depth bounds of the source; the fuel of \<open>Canonical_Value\<close> is \<open>MAX_CANONICAL_VALUE_DEPTH + 1\<close>, and the
  budget fails before it runs out. Bounds such as fewer than \<open>2 ^ 64\<close> entries or operations keep the 64-bit
  counters of the source from wrapping.

  \<^bold>\<open>Not modelled.\<close> The poll loop of the executor, which runs Rust futures, and so the composition of scheduler, clock,
  network and files into a run; the host, tokio and Wasm backends; run configuration and its encoding; segment files,
  archives, snapshots and the run manifest (I/O and formats around the journal); execution identity; the sentinels; the
  bandit policy, whose scores are floats; the walk over parents that derives clauses from a verdict and the solve over
  it, the persisted solver state, and the CaDiCaL backend; campaign search, oracles, reports and certificates; the
  fault specification language, durable workflows, adapters, lint, server, worker and command line. Of the modelled
  files, the following are left out: \<open>Display\<close> and conversion instances without a caller in the model, the lineage index
  in the state of the hitting-set solver, the error variant of the persisted solver state, the constant method tag of a
  branch-and-bound solution, and percentages for display.
\<close>

end
